(* ===== verification/Zero_Prelude.thy ===== *)
theory Zero_Prelude
  imports Main "HOL-Library.Word"
begin

text \<open>
  Shared vocabulary of the Zero OS development: the machine-integer types, the outcome type
  for operations that may panic, the Rust slice and integer operations the sources use
  (\<open>position\<close>, \<open>swap_remove\<close>, \<open>saturating_add\<close>, \<open>checked_add\<close>), and the generic
  lemmas on lists, \<open>u64\<close> bitmaps and counting that the components share.
\<close>

unbundle bit_operations_syntax

section \<open>Types\<close>

type_synonym u8 = "8 word"
type_synonym u16 = "16 word"
type_synonym u32 = "32 word"
type_synonym u64 = "64 word"

text \<open>
  \<open>zero_abi::ProcessId\<close> is a transparent wrapper of \<open>u64\<close>; \<open>usize\<close> values (indices, lengths
  and addresses) are natural numbers, the width being written out where it matters.
\<close>

type_synonym pid = u64
type_synonym bytes = "u8 list"

text \<open>A computation that may panic: an \<open>assert!\<close>, \<open>expect\<close> or \<open>panic!\<close> that fires is \<open>Panic\<close>.\<close>

datatype 'a outcome = Panic | Val 'a

definition obind :: "'a outcome \<Rightarrow> ('a \<Rightarrow> 'b outcome) \<Rightarrow> 'b outcome" where
  "obind x f = (case x of Panic \<Rightarrow> Panic | Val a \<Rightarrow> f a)"

section \<open>Library operations\<close>

text \<open>\<open>Iterator::position\<close>: the index of the first element that satisfies a predicate.\<close>

fun position :: "('a \<Rightarrow> bool) \<Rightarrow> 'a list \<Rightarrow> nat option" where
  "position P [] = None"
| "position P (x # xs) = (if P x then Some 0 else map_option Suc (position P xs))"

text \<open>\<open>Vec::remove\<close> and \<open>Vec::swap_remove\<close> at an index in range.\<close>

definition remove_nth :: "nat \<Rightarrow> 'a list \<Rightarrow> 'a list" where
  "remove_nth i xs = take i xs @ drop (Suc i) xs"

definition swap_remove :: "nat \<Rightarrow> 'a list \<Rightarrow> 'a list" where
  "swap_remove i xs = butlast (xs[i := last xs])"

definition saturating_add :: "u64 \<Rightarrow> u64 \<Rightarrow> u64" where
  "saturating_add a b = (if unat a + unat b < 2 ^ 64 then a + b else - 1)"

definition checked_add :: "u64 \<Rightarrow> u64 \<Rightarrow> u64 option" where
  "checked_add a b = (if unat a + unat b < 2 ^ 64 then Some (a + b) else None)"

definition saturating_sub :: "u64 \<Rightarrow> u64 \<Rightarrow> u64" where
  "saturating_sub a b = (if b \<le> a then a - b else 0)"

text \<open>One bit of a bitmap held as a vector of \<open>u64\<close> words.\<close>

definition bm_bit :: "u64 list \<Rightarrow> nat \<Rightarrow> bool" where
  "bm_bit ws p = bit (ws ! (p div 64)) (p mod 64)"

text \<open>\<open>Result::ok\<close>; a result is \<open>Inl\<close> of the error or \<open>Inr\<close> of the value.\<close>

fun result_ok :: "'e + 'a \<Rightarrow> 'a option" where
  "result_ok (Inl e) = None"
| "result_ok (Inr a) = Some a"

section \<open>Collections of facts\<close>

named_theorems outcome_simps \<open>case analysis of outcomes\<close>

section \<open>Lemmas\<close>

lemma result_ok_eq [outcome_simps]: "result_ok r = None \<longleftrightarrow> (\<exists>e. r = Inl e)" "result_ok r = Some a \<longleftrightarrow> r = Inr a"
  by (cases r; simp)+

lemma obind_simps [simp, outcome_simps]:
  "obind Panic f = Panic" "obind (Val a) f = f a"
  by (simp_all add: obind_def)

lemma obind_eq_Val [outcome_simps]: "obind x f = Val b \<longleftrightarrow> (\<exists>a. x = Val a \<and> f a = Val b)"
  by (cases x) simp_all

lemma position_Some_iff:
  "position P xs = Some i \<longleftrightarrow> i < length xs \<and> P (xs ! i) \<and> (\<forall>j<i. \<not> P (xs ! j))"
proof (induction xs arbitrary: i)
  case Nil
  then show ?case by simp
next
  case (Cons x xs)
  then show ?case
    by (cases i) (auto simp: All_less_Suc2)
qed

lemma position_None_iff: "position P xs = None \<longleftrightarrow> (\<forall>x\<in>set xs. \<not> P x)"
  by (induction xs) auto

lemma position_cong: "map P xs = map Q ys \<Longrightarrow> position P xs = position Q ys"
proof (induction xs arbitrary: ys)
  case (Cons x xs)
  then show ?case by (cases ys) auto
qed simp

lemma position_update:
  assumes "i < length xs" and "P y = P (xs ! i)"
  shows "position P (xs[i := y]) = position P xs"
proof (rule position_cong)
  show "map P (xs[i := y]) = map P xs"
    using assms by (simp add: map_update list_update_same_conv)
qed

subsection \<open>Lists\<close>

lemma length_remove_nth [simp]: "i < length xs \<Longrightarrow> length (remove_nth i xs) = length xs - 1"
  by (simp add: remove_nth_def)

lemma set_remove_nth_subset: "set (remove_nth i xs) \<subseteq> set xs"
  by (auto simp: remove_nth_def dest: in_set_takeD in_set_dropD)

lemma find_None_conv: "find P xs = None \<longleftrightarrow> (\<forall>x\<in>set xs. \<not> P x)"
  by (auto simp: find_None_iff)

lemma find_Some_prop: "find P xs = Some x \<Longrightarrow> x \<in> set xs \<and> P x"
  by (auto simp: find_Some_iff)

subsection \<open>Bitmaps over \<open>u64\<close> words\<close>

text \<open>The simplifier writes the mask \<open>push_bit n 1\<close> as \<open>2 ^ n\<close>; the rules below use that form.\<close>

lemma word_mask_test [simp]: "(w :: 'a :: len word) AND 2 ^ n = 0 \<longleftrightarrow> \<not> bit w n"
  by (metis bit_iff_and_push_bit_not_eq_0 push_bit_of_1)

lemma unat_succ: "(w :: 'a :: len word) \<noteq> - 1 \<Longrightarrow> unat (w + 1) = unat w + 1"
  using unatSuc [of w] by (metis add.commute add_eq_0_iff Suc_eq_plus1)

lemma less_succ: "x < y \<Longrightarrow> y \<noteq> - 1 \<Longrightarrow> x < y + (1 :: 'a :: len word)" "y \<noteq> - 1 \<Longrightarrow> y < y + (1 :: 'a :: len word)"
  by (simp_all add: word_less_nat_alt unat_succ)

lemma bit_or_mask: "n < 64 \<Longrightarrow> bit ((w :: u64) OR 2 ^ n) k \<longleftrightarrow> k = n \<or> bit w k"
  by (auto simp: bit_or_iff bit_exp_iff possible_bit_def)

lemma bit_and_not_mask: "bit ((w :: u64) AND NOT (2 ^ n)) k \<longleftrightarrow> k \<noteq> n \<and> bit w k"
proof (cases "k < 64")
  case True
  then show ?thesis by (auto simp: bit_and_iff bit_not_iff bit_exp_iff possible_bit_def)
next
  case False
  then show ?thesis by (auto simp: bit_and_iff dest: bit_imp_le_length)
qed

lemma div_mod_64_eq: "p div 64 = q div (64::nat) \<Longrightarrow> p mod 64 = q mod 64 \<Longrightarrow> p = q"
  by (metis div_mult_mod_eq)

lemma bm_bit_set:
  assumes "p div 64 < length ws"
  shows "bm_bit (ws[p div 64 := ws ! (p div 64) OR push_bit (p mod 64) 1]) q \<longleftrightarrow> q = p \<or> bm_bit ws q"
  using assms div_mod_64_eq [of q p]
  by (auto simp: bm_bit_def nth_list_update bit_or_mask)

lemma bm_bit_clear:
  assumes "p div 64 < length ws"
  shows "bm_bit (ws[p div 64 := ws ! (p div 64) AND NOT (push_bit (p mod 64) 1)]) q
    \<longleftrightarrow> q \<noteq> p \<and> bm_bit ws q"
  using assms div_mod_64_eq [of q p]
  by (auto simp: bm_bit_def nth_list_update bit_and_not_mask)

lemma bm_bit_zero: "p div 64 < n \<Longrightarrow> \<not> bm_bit (replicate n 0) p"
  by (simp add: bm_bit_def)

subsection \<open>Counting the clear positions below a bound\<close>

definition clear_count :: "(nat \<Rightarrow> bool) \<Rightarrow> nat \<Rightarrow> nat" where
  "clear_count B n = card {p. p < n \<and> \<not> B p}"

lemma clear_count_le: "clear_count B n \<le> n"
proof -
  have "card {p. p < n \<and> \<not> B p} \<le> card {..<n}"
    by (rule card_mono) auto
  then show ?thesis by (simp add: clear_count_def)
qed

lemma clear_count_0_iff: "clear_count B n = 0 \<longleftrightarrow> (\<forall>p<n. B p)"
  by (auto simp: clear_count_def)

lemma clear_count_cong: "(\<And>p. p < n \<Longrightarrow> B p = C p) \<Longrightarrow> clear_count B n = clear_count C n"
  unfolding clear_count_def by (rule arg_cong [where f = card]) auto

lemma clear_count_set:
  assumes "p < n" and "\<not> B p" and "\<And>q. q < n \<Longrightarrow> C q \<longleftrightarrow> q = p \<or> B q"
  shows "clear_count B n = Suc (clear_count C n)"
proof -
  have eq: "{q. q < n \<and> \<not> B q} = insert p {q. q < n \<and> \<not> C q}"
    using assms by auto
  have fin: "finite {q. q < n \<and> \<not> C q}" by simp
  show ?thesis
    unfolding clear_count_def eq using assms fin by (subst card_insert_disjoint) auto
qed

lemma clear_count_clear:
  assumes "p < n" and "B p" and "\<And>q. q < n \<Longrightarrow> C q \<longleftrightarrow> q \<noteq> p \<and> B q"
  shows "clear_count C n = Suc (clear_count B n)"
  using assms by (intro clear_count_set [where p = p]) auto

lemma clear_count_prefix: "clear_count (\<lambda>p. p < r) n = n - r"
proof -
  have "{p. p < n \<and> \<not> p < r} = {r..<n}" by auto
  then show ?thesis by (simp add: clear_count_def)
qed

lemma clear_count_set_many:
  assumes "distinct ps" and "\<And>p. p \<in> set ps \<Longrightarrow> p < n \<and> \<not> B p"
    and "\<And>q. q < n \<Longrightarrow> C q \<longleftrightarrow> q \<in> set ps \<or> B q"
  shows "clear_count B n = clear_count C n + length ps"
proof -
  have eq: "{q. q < n \<and> \<not> B q} = set ps \<union> {q. q < n \<and> \<not> C q}"
    using assms(2,3) by auto
  have disj: "set ps \<inter> {q. q < n \<and> \<not> C q} = {}"
    using assms(2,3) by auto
  show ?thesis
    unfolding clear_count_def eq
    by (subst card_Un_disjoint [OF _ _ disj]) (simp_all add: distinct_card assms(1))
qed

end
