(* ===== verification/Frame_Interface.thy ===== *)
theory Frame_Interface
  imports Zero_Prelude "HOL-Library.Multiset"
begin

text \<open>
  What the memory-management clients of the kernel rely on in the page allocator: pages are
  handed out by address, every page carries a reference count, and a holder may add or drop a
  reference. The client protocol is the discipline that \<open>mm/phys.rs\<close> states in its module
  comment: only addresses that were handed out are retained or freed, once per held reference.
\<close>

datatype page_req = Alloc | Retain nat | Free nat

text \<open>One request of a client that holds the references \<open>h\<close>; requests the discipline forbids
  (an address that is not held, a count already at \<open>cap\<close>) are never issued.\<close>

fun client_step ::
    "('s \<Rightarrow> ('s \<times> nat option) outcome) \<Rightarrow> (nat \<Rightarrow> 's \<Rightarrow> 's outcome) \<Rightarrow> (nat \<Rightarrow> 's \<Rightarrow> 's outcome) \<Rightarrow> nat
     \<Rightarrow> page_req \<Rightarrow> 's \<times> nat multiset \<Rightarrow> ('s \<times> nat multiset) outcome" where
  "client_step alloc retain free cap Alloc (s, h) =
     obind (alloc s) (\<lambda>(s', r). Val (s', case r of None \<Rightarrow> h | Some a \<Rightarrow> add_mset a h))"
| "client_step alloc retain free cap (Retain a) (s, h) =
     (if a \<in># h \<and> count h a < cap then obind (retain a s) (\<lambda>s'. Val (s', add_mset a h))
      else Val (s, h))"
| "client_step alloc retain free cap (Free a) (s, h) =
     (if a \<in># h then obind (free a s) (\<lambda>s'. Val (s', h - {#a#})) else Val (s, h))"

fun client_run ::
    "('s \<Rightarrow> ('s \<times> nat option) outcome) \<Rightarrow> (nat \<Rightarrow> 's \<Rightarrow> 's outcome) \<Rightarrow> (nat \<Rightarrow> 's \<Rightarrow> 's outcome) \<Rightarrow> nat
     \<Rightarrow> page_req list \<Rightarrow> 's \<times> nat multiset \<Rightarrow> ('s \<times> nat multiset) outcome" where
  "client_run alloc retain free cap [] c = Val c"
| "client_run alloc retain free cap (r # rs) c =
     obind (client_step alloc retain free cap r c) (client_run alloc retain free cap rs)"

locale frame_allocator =
  fixes inv :: "'s \<Rightarrow> bool" and live :: "'s \<Rightarrow> nat \<Rightarrow> nat"
    and alloc :: "'s \<Rightarrow> ('s \<times> nat option) outcome"
    and retain free :: "nat \<Rightarrow> 's \<Rightarrow> 's outcome" and cap :: nat
  assumes alloc_law: "inv s \<Longrightarrow> (alloc s = Val (s, None)) \<or>
      (\<exists>s' a. alloc s = Val (s', Some a) \<and> inv s' \<and> live s a = 0 \<and> live s' = (live s)(a := 1))"
    and retain_law: "inv s \<Longrightarrow> 0 < live s a \<Longrightarrow> live s a < cap \<Longrightarrow>
      \<exists>s'. retain a s = Val s' \<and> inv s' \<and> live s' = (live s)(a := live s a + 1)"
    and free_law: "inv s \<Longrightarrow> 0 < live s a \<Longrightarrow>
      \<exists>s'. free a s = Val s' \<and> inv s' \<and> live s' = (live s)(a := live s a - 1)"
begin

lemma step_ok:
  assumes inv: "inv s" and held: "live s = count h"
  shows "\<exists>s' h'. client_step alloc retain free cap r (s, h) = Val (s', h') \<and> inv s' \<and>
    live s' = count h'"
proof (cases r)
  case Alloc
  from alloc_law [OF inv] show ?thesis
  proof
    assume "alloc s = Val (s, None)"
    with Alloc inv held show ?thesis by auto
  next
    assume "\<exists>s' a. alloc s = Val (s', Some a) \<and> inv s' \<and> live s a = 0 \<and> live s' = (live s)(a := 1)"
    with Alloc inv held show ?thesis by (auto simp: fun_eq_iff)
  qed
next
  case (Retain a)
  with inv held retain_law [of s a] show ?thesis by (auto simp: fun_eq_iff count_greater_zero_iff)
next
  case (Free a)
  with inv held free_law [of s a] show ?thesis by (auto simp: fun_eq_iff count_greater_zero_iff)
qed

lemma run_ok:
  assumes "inv s" and "live s = count h"
  shows "\<exists>s' h'. client_run alloc retain free cap rs (s, h) = Val (s', h') \<and> inv s' \<and>
    live s' = count h'"
  using assms
proof (induction rs arbitrary: s h)
  case Nil
  then show ?case by simp
next
  case (Cons r rs)
  obtain s' h' where "client_step alloc retain free cap r (s, h) = Val (s', h')" "inv s'"
      "live s' = count h'"
    using step_ok [OF Cons.prems] by blast
  with Cons.IH [of s' h'] show ?case by simp
qed

text \<open>An allocation after any history returns an address nobody holds.\<close>

lemma run_alloc_fresh:
  assumes "inv s" and "live s = count h"
    and "client_run alloc retain free cap rs (s, h) = Val (s', h')"
    and "alloc s' = Val (s'', Some a)"
  shows "a \<notin># h'"
  using run_ok [OF assms(1,2), of rs] assms(3,4) alloc_law [of s'] by (auto simp: count_eq_zero_iff)

end

end
