(* ===== verification/Phys_Bitmap.thy ===== *)
theory Phys_Bitmap
  imports Frame_Interface
begin

text \<open>
  The physical page allocator, \<open>microkernel/src/mm/phys_bitmap.rs\<close>: a bitmap (bit set =
  page not available) with a parallel \<open>u16\<close> reference count per page, used for copy-on-write
  sharing. The record \<open>phys_bitmap\<close> is \<open>struct PhysBitmap\<close>; the two raw pointers are the
  lists they point to and \<open>pb_null\<close> says that they are still null (\<open>empty\<close> sets both null,
  \<open>init\<close> sets both). Failed assertions are \<open>Panic\<close>. Under \<open>pb_inv\<close>, which \<open>pb_init\<close>
  establishes and every operation keeps, all word and count accesses are in range and \<open>free\<close>
  is never decremented at 0.
\<close>

section \<open>State and operations\<close>

definition PAGE_SIZE :: nat where
  "PAGE_SIZE = 4096"

record phys_bitmap =
  pb_null :: bool
  pb_words :: "u64 list"
  pb_nwords :: nat
  pb_refs :: "u16 list"
  pb_nrefs :: nat
  pb_base :: nat
  pb_total :: nat
  pb_reserved :: nat
  pb_free :: nat
  pb_cursor :: nat

definition pb_empty :: phys_bitmap where
  "pb_empty = \<lparr>pb_null = True, pb_words = [], pb_nwords = 0, pb_refs = [], pb_nrefs = 0,
     pb_base = 0, pb_total = 0, pb_reserved = 0, pb_free = 0, pb_cursor = 0\<rparr>"

definition page_busy :: "phys_bitmap \<Rightarrow> nat \<Rightarrow> bool" where
  "page_busy m page \<longleftrightarrow> (pb_words m ! (page div 64)) AND push_bit (page mod 64) 1 \<noteq> 0"

definition set_bit_page :: "nat \<Rightarrow> phys_bitmap \<Rightarrow> phys_bitmap" where
  "set_bit_page page m = m\<lparr>pb_words :=
     (pb_words m)[page div 64 := pb_words m ! (page div 64) OR push_bit (page mod 64) 1]\<rparr>"

definition clear_bit_page :: "nat \<Rightarrow> phys_bitmap \<Rightarrow> phys_bitmap" where
  "clear_bit_page page m = m\<lparr>pb_words :=
     (pb_words m)[page div 64 := pb_words m ! (page div 64) AND NOT (push_bit (page mod 64) 1)]\<rparr>"

definition refs_of :: "phys_bitmap \<Rightarrow> nat \<Rightarrow> u16" where
  "refs_of m page = pb_refs m ! page"

definition set_refs :: "nat \<Rightarrow> u16 \<Rightarrow> phys_bitmap \<Rightarrow> phys_bitmap" where
  "set_refs page value m = m\<lparr>pb_refs := (pb_refs m)[page := value]\<rparr>"

text \<open>\<open>init\<close>: \<open>ws\<close> and \<open>rs\<close> are the storage the two pointers designate, \<open>nwords\<close> and \<open>nrefs\<close>
  elements long by the function's safety contract.\<close>

definition pb_init ::
    "u64 list \<Rightarrow> u16 list \<Rightarrow> nat \<Rightarrow> nat \<Rightarrow> nat \<Rightarrow> phys_bitmap \<Rightarrow> phys_bitmap outcome" where
  "pb_init ws rs base tot reserved m =
     (if \<not> tot \<le> length ws * 64 then Panic
      else if \<not> tot \<le> length rs then Panic
      else
        let m1 = m\<lparr>pb_null := False, pb_words := replicate (length ws) 0,
              pb_nwords := length ws, pb_refs := replicate tot 0 @ drop tot rs,
              pb_nrefs := length rs, pb_base := base, pb_total := tot\<rparr>;
            reserve = min tot (max reserved 1);
            m2 = fold set_bit_page [0..<reserve] m1
        in Val (m2\<lparr>pb_reserved := reserve, pb_free := tot - reserve\<rparr>))"

definition assert_ready :: "phys_bitmap \<Rightarrow> bool" where
  "assert_ready m \<longleftrightarrow> \<not> pb_null m \<and> pb_total m > 0"

text \<open>The bit loop of \<open>try_alloc_in_word\<close> skips pages outside \<open>[reserved, total)\<close> and takes the
  first clear bit.\<close>

definition try_alloc_in_word :: "phys_bitmap \<Rightarrow> nat \<Rightarrow> (phys_bitmap \<times> nat) option" where
  "try_alloc_in_word m index =
     (let slot = pb_words m ! index in
      if slot = - 1 then None
      else
        case find (\<lambda>b. let page = index * 64 + b in
               \<not> (page < pb_reserved m \<or> page \<ge> pb_total m) \<and> slot AND push_bit b 1 = 0)
             [0..<64] of
          None \<Rightarrow> None
        | Some b \<Rightarrow>
            let page = index * 64 + b;
                m1 = m\<lparr>pb_words := (pb_words m)[index := pb_words m ! index OR push_bit b 1]\<rparr>;
                m2 = set_refs page 1 m1
            in Some (m2\<lparr>pb_free := pb_free m2 - 1, pb_cursor := index\<rparr>,
                     pb_base m + page * PAGE_SIZE))"

fun alloc_scan :: "phys_bitmap \<Rightarrow> nat list \<Rightarrow> phys_bitmap \<times> nat option" where
  "alloc_scan m [] = (m, None)"
| "alloc_scan m (i # is) =
     (case try_alloc_in_word m i of
        Some (m', a) \<Rightarrow> (m', Some a)
      | None \<Rightarrow> alloc_scan m is)"

definition alloc_page :: "phys_bitmap \<Rightarrow> (phys_bitmap \<times> nat option) outcome" where
  "alloc_page m =
     (if \<not> assert_ready m then Panic
      else
        case (if pb_cursor m < pb_nwords m then try_alloc_in_word m (pb_cursor m) else None) of
          Some (m', a) \<Rightarrow> Val (m', Some a)
        | None \<Rightarrow> Val (alloc_scan m [0..<pb_nwords m]))"

text \<open>The page loop of \<open>alloc_contiguous\<close>: the current run and its first page are carried along.\<close>

fun contiguous_scan :: "phys_bitmap \<Rightarrow> nat \<Rightarrow> nat \<Rightarrow> nat \<Rightarrow> nat list \<Rightarrow> (nat \<times> nat) option" where
  "contiguous_scan m cnt run run_start [] = None"
| "contiguous_scan m cnt run run_start (page # pages) =
     (if page_busy m page then contiguous_scan m cnt 0 run_start pages
      else
        let run_start' = (if run = 0 then page else run_start); run' = run + 1
        in if run' = cnt then Some (run_start', page)
           else contiguous_scan m cnt run' run_start' pages)"

definition alloc_contiguous :: "nat \<Rightarrow> phys_bitmap \<Rightarrow> (phys_bitmap \<times> nat option) outcome" where
  "alloc_contiguous cnt m =
     (if \<not> assert_ready m then Panic
      else if cnt = 0 then Val (m, None)
      else
        case contiguous_scan m cnt 0 0 [1..<pb_total m] of
          None \<Rightarrow> Val (m, None)
        | Some (run_start, page) \<Rightarrow>
            let m1 = fold (\<lambda>p s. set_refs p 1 (set_bit_page p s)) [run_start..<Suc page] m
            in Val (m1\<lparr>pb_free := pb_free m1 - cnt\<rparr>, Some (pb_base m + run_start * PAGE_SIZE)))"

text \<open>\<open>locate_page\<close>: the four position assertions in source order.\<close>

definition locate_page :: "phys_bitmap \<Rightarrow> nat \<Rightarrow> nat outcome" where
  "locate_page m addr =
     (if \<not> pb_base m \<le> addr then Panic
      else
        let offset = addr - pb_base m in
        if offset mod PAGE_SIZE \<noteq> 0 then Panic
        else
          let page = offset div PAGE_SIZE in
          if \<not> page < pb_total m then Panic
          else if \<not> pb_reserved m \<le> page then Panic
          else Val page)"

definition free_page :: "nat \<Rightarrow> phys_bitmap \<Rightarrow> phys_bitmap outcome" where
  "free_page addr m =
     (if \<not> assert_ready m then Panic
      else obind (locate_page m addr) (\<lambda>page.
        if \<not> page_busy m page then Panic
        else
          let old = refs_of m page in
          if \<not> 1 \<le> old then Panic
          else if old = 1 then
            let m1 = clear_bit_page page (set_refs page 0 m)
            in Val (m1\<lparr>pb_free := pb_free m1 + 1\<rparr>)
          else Val (set_refs page (old - 1) m)))"

definition retain_page :: "nat \<Rightarrow> phys_bitmap \<Rightarrow> phys_bitmap outcome" where
  "retain_page addr m =
     (if \<not> assert_ready m then Panic
      else obind (locate_page m addr) (\<lambda>page.
        if \<not> page_busy m page then Panic
        else
          let old = refs_of m page in
          if old = - 1 then Panic else Val (set_refs page (old + 1) m)))"

definition ref_count :: "phys_bitmap \<Rightarrow> nat \<Rightarrow> u16" where
  "ref_count m addr =
     (if pb_null m \<or> pb_total m = 0 \<or> addr < pb_base m then 0
      else
        let offset = addr - pb_base m in
        if offset mod PAGE_SIZE \<noteq> 0 then 0
        else
          let page = offset div PAGE_SIZE in
          if pb_total m \<le> page then 0 else refs_of m page)"

definition page_is_free :: "phys_bitmap \<Rightarrow> nat \<Rightarrow> bool" where
  "page_is_free m addr =
     (if addr < pb_base m then False
      else
        let offset = addr - pb_base m in
        if offset mod PAGE_SIZE \<noteq> 0 then False
        else
          let page = offset div PAGE_SIZE in
          page < pb_total m \<and> \<not> page_busy m page)"

definition mark_busy :: "nat \<Rightarrow> phys_bitmap \<Rightarrow> (phys_bitmap \<times> bool) outcome" where
  "mark_busy page m =
     (if \<not> assert_ready m then Panic
      else if pb_total m \<le> page \<or> page_busy m page then Val (m, False)
      else
        let m1 = set_refs page 0 (set_bit_page page m)
        in Val (m1\<lparr>pb_free := pb_free m1 - 1\<rparr>, True))"

section \<open>Invariant\<close>

text \<open>
  The bitmap covers every page, the reserved prefix holds page 0 and is busy, \<open>free\<close> counts the
  clear bits, a counted page is busy, and reserved pages carry no reference.
\<close>

definition pb_inv :: "phys_bitmap \<Rightarrow> bool" where
  "pb_inv m \<longleftrightarrow> \<not> pb_null m \<and> 0 < pb_total m \<and>
     length (pb_words m) = pb_nwords m \<and> pb_total m \<le> pb_nwords m * 64 \<and>
     length (pb_refs m) = pb_nrefs m \<and> pb_total m \<le> pb_nrefs m \<and>
     1 \<le> pb_reserved m \<and> pb_reserved m \<le> pb_total m \<and>
     (\<forall>p < pb_reserved m. page_busy m p) \<and>
     pb_free m = clear_count (page_busy m) (pb_total m) \<and>
     (\<forall>p < pb_total m. refs_of m p \<noteq> 0 \<longrightarrow> page_busy m p \<and> pb_reserved m \<le> p)"

section \<open>Bit and count updates\<close>

lemmas pb_update_defs = set_bit_page_def clear_bit_page_def set_refs_def refs_of_def

lemma page_busy_bm: "page_busy m p \<longleftrightarrow> bm_bit (pb_words m) p"
  by (simp add: page_busy_def bm_bit_def)

lemma page_busy_set:
  "p div 64 < length (pb_words m) \<Longrightarrow> page_busy (set_bit_page p m) q \<longleftrightarrow> q = p \<or> page_busy m q"
  using bm_bit_set [of p "pb_words m" q] by (simp add: page_busy_bm set_bit_page_def)

lemma page_busy_clear:
  "p div 64 < length (pb_words m) \<Longrightarrow> page_busy (clear_bit_page p m) q \<longleftrightarrow> q \<noteq> p \<and> page_busy m q"
  using bm_bit_clear [of p "pb_words m" q] by (simp add: page_busy_bm clear_bit_page_def)

lemma page_busy_frame [simp]:
  "page_busy (set_refs p v m) = page_busy m"
  "page_busy (m\<lparr>pb_free := f\<rparr>) = page_busy m"
  "page_busy (m\<lparr>pb_cursor := c\<rparr>) = page_busy m"
  "page_busy (m\<lparr>pb_reserved := r\<rparr>) = page_busy m"
  by (simp_all add: fun_eq_iff page_busy_def set_refs_def)

lemma refs_of_frame [simp]:
  "refs_of (set_bit_page p m) = refs_of m"
  "refs_of (clear_bit_page p m) = refs_of m"
  "refs_of (m\<lparr>pb_free := f\<rparr>) = refs_of m"
  "refs_of (m\<lparr>pb_cursor := c\<rparr>) = refs_of m"
  by (simp_all add: fun_eq_iff refs_of_def pb_update_defs)

lemma pb_update_lengths [simp]:
  "length (pb_words (set_bit_page p m)) = length (pb_words m)"
  "length (pb_words (clear_bit_page p m)) = length (pb_words m)"
  "length (pb_words (set_refs p v m)) = length (pb_words m)"
  "length (pb_refs (set_bit_page p m)) = length (pb_refs m)"
  "length (pb_refs (clear_bit_page p m)) = length (pb_refs m)"
  "length (pb_refs (set_refs p v m)) = length (pb_refs m)"
  by (simp_all add: pb_update_defs)

lemma pb_word_index: "pb_inv m \<Longrightarrow> p < pb_total m \<Longrightarrow> p div 64 < length (pb_words m)"
  by (auto simp: pb_inv_def intro!: div_less_iff_less_mult [THEN iffD2])

lemma pb_ref_index: "pb_inv m \<Longrightarrow> p < pb_total m \<Longrightarrow> p < length (pb_refs m)"
  by (auto simp: pb_inv_def)

lemma pb_inv_ready: "pb_inv m \<Longrightarrow> assert_ready m"
  by (simp add: pb_inv_def assert_ready_def)

lemma pb_inv_free_pos: "pb_inv m \<Longrightarrow> p < pb_total m \<Longrightarrow> \<not> page_busy m p \<Longrightarrow> 0 < pb_free m"
  using clear_count_0_iff [of "page_busy m" "pb_total m"] by (auto simp: pb_inv_def)

text \<open>The state after page \<open>p\<close> went from clear to busy with count \<open>v\<close>.\<close>

definition taken :: "nat \<Rightarrow> u16 \<Rightarrow> nat \<Rightarrow> phys_bitmap \<Rightarrow> phys_bitmap" where
  "taken p v c m = (set_refs p v (set_bit_page p m))\<lparr>pb_free := pb_free m - 1, pb_cursor := c\<rparr>"

lemma taken_sel [simp]:
  "pb_null (taken p v c m) = pb_null m" "pb_total (taken p v c m) = pb_total m"
  "pb_base (taken p v c m) = pb_base m" "pb_reserved (taken p v c m) = pb_reserved m"
  "pb_nwords (taken p v c m) = pb_nwords m" "pb_nrefs (taken p v c m) = pb_nrefs m"
  "pb_free (taken p v c m) = pb_free m - 1" "pb_cursor (taken p v c m) = c"
  "length (pb_words (taken p v c m)) = length (pb_words m)"
  "length (pb_refs (taken p v c m)) = length (pb_refs m)"
  by (simp_all add: taken_def pb_update_defs)

lemma taken_busy:
  "p div 64 < length (pb_words m) \<Longrightarrow> page_busy (taken p v c m) q \<longleftrightarrow> q = p \<or> page_busy m q"
  by (simp add: taken_def page_busy_set)

lemma taken_refs:
  "p < length (pb_refs m) \<Longrightarrow> refs_of (taken p v c m) q = (if q = p then v else refs_of m q)"
  by (simp add: taken_def pb_update_defs)

lemma pb_inv_taken:
  assumes inv: "pb_inv m" and p: "p < pb_total m" and clear: "\<not> page_busy m p"
  shows "pb_inv (taken p v c m)"
proof -
  note w = pb_word_index [OF inv p] and r = pb_ref_index [OF inv p]
  have "clear_count (page_busy m) (pb_total m) =
      Suc (clear_count (page_busy (taken p v c m)) (pb_total m))"
    by (rule clear_count_set [where p = p]) (simp_all add: p clear taken_busy [OF w])
  moreover have "pb_reserved m \<le> p"
    using inv clear by (auto simp: pb_inv_def not_less [symmetric])
  ultimately show ?thesis
    using inv by (auto simp: pb_inv_def taken_busy [OF w] taken_refs [OF r])
qed

section \<open>Single-page allocation\<close>

lemma try_alloc_in_word_None:
  assumes inv: "pb_inv m" and none: "try_alloc_in_word m i = None"
    and p: "p < pb_total m" "p div 64 = i"
  shows "page_busy m p"
proof (rule ccontr)
  assume clear: "\<not> page_busy m p"
  have pm: "p = i * 64 + p mod 64" using p(2) by (metis div_mult_mod_eq)
  have bit: "\<not> bit (pb_words m ! i) (p mod 64)"
    using clear p(2) by (simp add: page_busy_bm bm_bit_def)
  then have "pb_words m ! i \<noteq> - 1" by auto
  moreover have "pb_reserved m \<le> p"
    using inv clear by (auto simp: pb_inv_def not_less [symmetric])
  moreover have "p mod 64 < 64" by simp
  ultimately show False
    using none bit p(1) pm [symmetric]
    by (auto simp: try_alloc_in_word_def Let_def find_None_iff split: option.splits
        dest!: spec [where x = "p mod 64"])
qed

lemma try_alloc_in_word_Some:
  assumes inv: "pb_inv m" and some: "try_alloc_in_word m i = Some (m', a)"
  obtains p where "pb_reserved m \<le> p" "p < pb_total m" "p div 64 = i" "\<not> page_busy m p"
    and "a = pb_base m + p * PAGE_SIZE" "m' = taken p 1 i m"
proof -
  from some obtain b where b: "b < 64" "pb_reserved m \<le> i * 64 + b" "i * 64 + b < pb_total m"
      "\<not> bit (pb_words m ! i) b"
    and a: "a = pb_base m + (i * 64 + b) * PAGE_SIZE"
    and m': "m' = (let m2 = set_refs (i * 64 + b) 1
                (m\<lparr>pb_words := (pb_words m)[i := pb_words m ! i OR push_bit b 1]\<rparr>)
             in m2\<lparr>pb_free := pb_free m2 - 1, pb_cursor := i\<rparr>)"
    by (auto simp: try_alloc_in_word_def Let_def find_Some_iff
        split: option.splits if_splits)
  have dm: "(i * 64 + b) div 64 = i" "(i * 64 + b) mod 64 = b" using b(1) by auto
  have "m' = taken (i * 64 + b) 1 i m"
    unfolding m' taken_def using b(1) by (simp add: Let_def pb_update_defs)
  moreover have "\<not> page_busy m (i * 64 + b)"
    using b(4) dm by (simp add: page_busy_bm bm_bit_def)
  ultimately show ?thesis using that b a dm by blast
qed

lemma alloc_scan_None:
  assumes inv: "pb_inv m"
  shows "snd (alloc_scan m is) = None \<Longrightarrow>
    fst (alloc_scan m is) = m \<and> (\<forall>p < pb_total m. p div 64 \<in> set is \<longrightarrow> page_busy m p)"
proof (induction "is")
  case Nil
  then show ?case by simp
next
  case (Cons i "is")
  then show ?case
    using try_alloc_in_word_None [OF inv, of i] by (auto split: option.splits)
qed

lemma alloc_scan_Some:
  assumes inv: "pb_inv m" and "alloc_scan m is = (m', Some a)"
  obtains p i where "pb_reserved m \<le> p" "p < pb_total m" "\<not> page_busy m p"
    and "a = pb_base m + p * PAGE_SIZE" "m' = taken p 1 i m"
  using assms(2)
proof (induction "is" arbitrary: thesis)
  case Nil
  then show ?case by simp
next
  case (Cons i "is")
  show ?case
  proof (cases "try_alloc_in_word m i")
    case None
    with Cons.prems show ?thesis by (auto intro: Cons.IH)
  next
    case (Some r)
    with Cons.prems(2) have some: "try_alloc_in_word m i = Some (m', a)" by (cases r) auto
    from try_alloc_in_word_Some [OF inv some] Cons.prems(1) show ?thesis by metis
  qed
qed

lemma alloc_page_cases:
  assumes inv: "pb_inv m"
  obtains (full) "alloc_page m = Val (m, None)" "pb_free m = 0"
  | (page) p c where "alloc_page m = Val (taken p 1 c m, Some (pb_base m + p * PAGE_SIZE))"
      "pb_reserved m \<le> p" "p < pb_total m" "\<not> page_busy m p"
proof -
  let ?fast = "if pb_cursor m < pb_nwords m then try_alloc_in_word m (pb_cursor m) else None"
  note ready = pb_inv_ready [OF inv]
  show thesis
  proof (cases ?fast)
    case (Some r)
    then obtain m' a where r: "r = (m', a)" "try_alloc_in_word m (pb_cursor m) = Some (m', a)"
      by (cases r) (auto split: if_splits)
    from try_alloc_in_word_Some [OF inv r(2)] obtain p where
      "pb_reserved m \<le> p" "p < pb_total m" "\<not> page_busy m p"
      "a = pb_base m + p * PAGE_SIZE" "m' = taken p 1 (pb_cursor m) m" by metis
    then show thesis using page [of p "pb_cursor m"] ready Some r(1) by (simp add: alloc_page_def)
  next
    case None
    then have eq: "alloc_page m = Val (alloc_scan m [0..<pb_nwords m])"
      using ready by (simp add: alloc_page_def)
    show thesis
    proof (cases "snd (alloc_scan m [0..<pb_nwords m])")
      case None
      from alloc_scan_None [OF inv None] have "fst (alloc_scan m [0..<pb_nwords m]) = m"
        and "\<forall>p < pb_total m. p div 64 < pb_nwords m \<longrightarrow> page_busy m p" by auto
      moreover have "\<forall>p < pb_total m. p div 64 < pb_nwords m"
        using pb_word_index [OF inv] inv by (simp add: pb_inv_def)
      ultimately have "pb_free m = 0" and "alloc_page m = Val (m, None)"
        using inv eq None by (auto simp: pb_inv_def clear_count_0_iff prod_eq_iff)
      then show thesis using full by blast
    next
      case (Some a)
      then obtain m' where "alloc_scan m [0..<pb_nwords m] = (m', Some a)"
        by (metis prod.collapse)
      from alloc_scan_Some [OF inv this] eq this show thesis using page by metis
    qed
  qed
qed

section \<open>Contiguous allocation\<close>

lemma contiguous_scan_Some:
  "contiguous_scan m cnt run rs [k..<n] = Some (a, b) \<Longrightarrow> run < cnt \<Longrightarrow>
   run = 0 \<or> (rs + run = k \<and> (\<forall>q\<in>{rs..<k}. \<not> page_busy m q)) \<Longrightarrow>
   b < n \<and> Suc b = a + cnt \<and> (\<forall>q\<in>{a..b}. \<not> page_busy m q)"
proof (induction "n - k" arbitrary: k run rs)
  case 0
  then show ?case by simp
next
  case (Suc d)
  then have k: "k < n" by simp
  show ?case
  proof (cases "page_busy m k")
    case True
    with Suc.prems k show ?thesis
      by (intro Suc.hyps(1) [of "Suc k" 0 rs]) (use Suc.hyps(2) in \<open>auto simp: upt_conv_Cons\<close>)
  next
    case False
    let ?rs = "if run = 0 then k else rs"
    have clear: "\<forall>q\<in>{?rs..<Suc k}. \<not> page_busy m q" "?rs + run = k"
      using False Suc.prems(3) by (auto simp: less_Suc_eq)
    show ?thesis
    proof (cases "run + 1 = cnt")
      case True
      with False Suc.prems k have "a = ?rs" "b = k" by (auto simp: upt_conv_Cons Let_def)
      with True clear k show ?thesis by auto
    next
      case f: False
      have "contiguous_scan m cnt (run + 1) ?rs [Suc k..<n] = Some (a, b)"
        using False f Suc.prems k by (auto simp: upt_conv_Cons Let_def)
      then show ?thesis
        using clear f Suc.prems(2) Suc.hyps(2)
        by (intro Suc.hyps(1) [of "Suc k" "run + 1" ?rs]) auto
    qed
  qed
qed

text \<open>The run kept by the loop is the longest clear run that ends at the current page.\<close>

lemma contiguous_scan_None:
  "contiguous_scan m cnt run rs [k..<n] = None \<Longrightarrow> run < cnt \<Longrightarrow>
   \<forall>s. 1 \<le> s \<longrightarrow> (\<forall>q\<in>{s..<k}. \<not> page_busy m q) \<longrightarrow> k - s \<le> run \<Longrightarrow>
   1 \<le> s \<Longrightarrow> k < s + cnt \<Longrightarrow> s + cnt \<le> n \<Longrightarrow> \<exists>q\<in>{s..<s + cnt}. page_busy m q"
proof (induction "n - k" arbitrary: k run rs)
  case 0
  then show ?case by simp
next
  case (Suc d)
  then have k: "k < n" by simp
  let ?run = "if page_busy m k then 0 else run + 1"
  let ?rs = "if page_busy m k \<or> run \<noteq> 0 then rs else k"
  have rec: "contiguous_scan m cnt ?run ?rs [Suc k..<n] = None"
    using Suc.prems(1) k by (auto simp: upt_conv_Cons Let_def split: if_splits)
  have lt: "?run < cnt"
    using Suc.prems(1,2) k by (auto simp: upt_conv_Cons Let_def split: if_splits)
  have max: "\<forall>s. 1 \<le> s \<longrightarrow> (\<forall>q\<in>{s..<Suc k}. \<not> page_busy m q) \<longrightarrow> Suc k - s \<le> ?run"
  proof (intro allI impI)
    fix s assume s: "(1::nat) \<le> s" and c: "\<forall>q\<in>{s..<Suc k}. \<not> page_busy m q"
    show "Suc k - s \<le> ?run"
    proof (cases "s \<le> k")
      case True
      with c have "\<not> page_busy m k" and "\<forall>q\<in>{s..<k}. \<not> page_busy m q" by auto
      with s Suc.prems(3) have "k - s \<le> run" by blast
      with True \<open>\<not> page_busy m k\<close> show ?thesis by simp
    qed simp
  qed
  show ?case
  proof (cases "Suc k < s + cnt")
    case True
    then show ?thesis
      using Suc.hyps(2) Suc.prems(4,6) rec lt max by (intro Suc.hyps(1) [of "Suc k"]) auto
  next
    case False
    then have eq: "s + cnt = Suc k" using Suc.prems(5) by simp
    show ?thesis
    proof (rule ccontr)
      assume "\<not> ?thesis"
      then have "\<forall>q\<in>{s..<Suc k}. \<not> page_busy m q" by (simp add: eq)
      then have "Suc k - s \<le> ?run" using max Suc.prems(4) by blast
      with lt eq show False by simp
    qed
  qed
qed

definition take_all :: "nat list \<Rightarrow> phys_bitmap \<Rightarrow> phys_bitmap" where
  "take_all ps m = fold (\<lambda>p s. set_refs p 1 (set_bit_page p s)) ps m"

lemma take_all_Cons: "take_all (p # ps) m = take_all ps (set_refs p 1 (set_bit_page p m))"
  by (simp add: take_all_def)

lemma take_all_sel [simp]:
  "pb_null (take_all ps m) = pb_null m \<and> pb_total (take_all ps m) = pb_total m \<and>
   pb_base (take_all ps m) = pb_base m \<and> pb_reserved (take_all ps m) = pb_reserved m \<and>
   pb_nwords (take_all ps m) = pb_nwords m \<and> pb_nrefs (take_all ps m) = pb_nrefs m \<and>
   pb_free (take_all ps m) = pb_free m \<and> pb_cursor (take_all ps m) = pb_cursor m \<and>
   length (pb_words (take_all ps m)) = length (pb_words m) \<and>
   length (pb_refs (take_all ps m)) = length (pb_refs m)"
  by (induction ps arbitrary: m) (simp_all add: take_all_def pb_update_defs)

lemma take_all_busy:
  "\<forall>p\<in>set ps. p div 64 < length (pb_words m) \<Longrightarrow>
   page_busy (take_all ps m) q \<longleftrightarrow> q \<in> set ps \<or> page_busy m q"
proof (induction ps arbitrary: m)
  case Nil
  then show ?case by (simp add: take_all_def)
next
  case (Cons p ps)
  then show ?case by (auto simp: take_all_Cons page_busy_set)
qed

lemma take_all_refs:
  "\<forall>p\<in>set ps. p < length (pb_refs m) \<Longrightarrow>
   refs_of (take_all ps m) q = (if q \<in> set ps then 1 else refs_of m q)"
proof (induction ps arbitrary: m)
  case Nil
  then show ?case by (simp add: take_all_def)
next
  case (Cons p ps)
  then show ?case by (auto simp: take_all_Cons pb_update_defs)
qed

lemma alloc_contiguous_cases:
  assumes inv: "pb_inv m"
  obtains (none) "alloc_contiguous n m = Val (m, None)"
      "n = 0 \<or> (\<forall>s. s + n \<le> pb_total m \<longrightarrow> (\<exists>q\<in>{s..<s + n}. page_busy m q))"
  | (run) s where "alloc_contiguous n m =
        Val ((take_all [s..<s + n] m)\<lparr>pb_free := pb_free m - n\<rparr>, Some (pb_base m + s * PAGE_SIZE))"
      "0 < n" "s + n \<le> pb_total m" "\<forall>q\<in>{s..<s + n}. \<not> page_busy m q"
proof (cases "n = 0")
  case True
  then show thesis using none pb_inv_ready [OF inv] by (simp add: alloc_contiguous_def)
next
  case False
  show thesis
  proof (cases "contiguous_scan m n 0 0 [1..<pb_total m]")
    case None
    have "\<exists>q\<in>{s..<s + n}. page_busy m q" if "s + n \<le> pb_total m" for s
    proof (cases "s = 0")
      case True
      have "page_busy m 0" using inv by (auto simp: pb_inv_def)
      with True False show ?thesis by (intro bexI [of _ 0]) auto
    next
      case s: False
      show ?thesis
        by (rule contiguous_scan_None [OF None]) (use False s that in auto)
    qed
    then show thesis
      using none None False pb_inv_ready [OF inv] by (simp add: alloc_contiguous_def)
  next
    case (Some r)
    then obtain a b where r: "contiguous_scan m n 0 0 [1..<pb_total m] = Some (a, b)"
      by (cases r) auto
    from contiguous_scan_Some [OF r] False
    have ab: "b < pb_total m" "Suc b = a + n" "\<forall>q\<in>{a..<a + n}. \<not> page_busy m q"
      by (auto simp: atLeastLessThanSuc_atLeastAtMost [symmetric])
    have "alloc_contiguous n m =
      Val ((take_all [a..<a + n] m)\<lparr>pb_free := pb_free m - n\<rparr>, Some (pb_base m + a * PAGE_SIZE))"
      using False r pb_inv_ready [OF inv]
      by (simp add: alloc_contiguous_def Let_def ab(2) take_all_def [symmetric]
          del: upt_Suc)
    then show thesis using run [of a] ab False by simp
  qed
qed

lemma pb_inv_take_all:
  assumes inv: "pb_inv m" and range: "s + n \<le> pb_total m"
    and clear: "\<forall>q\<in>{s..<s + n}. \<not> page_busy m q"
  shows "pb_inv ((take_all [s..<s + n] m)\<lparr>pb_free := pb_free m - n\<rparr>)"
proof -
  let ?ps = "[s..<s + n]"
  have w: "\<forall>p\<in>set ?ps. p div 64 < length (pb_words m)"
    using pb_word_index [OF inv] range by auto
  have r: "\<forall>p\<in>set ?ps. p < length (pb_refs m)"
    using pb_ref_index [OF inv] range by auto
  have "clear_count (page_busy m) (pb_total m) =
      clear_count (page_busy (take_all ?ps m)) (pb_total m) + length ?ps"
    by (rule clear_count_set_many) (use range clear in \<open>auto simp: take_all_busy [OF w]\<close>)
  moreover have "\<forall>p\<in>set ?ps. pb_reserved m \<le> p"
    using inv clear by (auto simp: pb_inv_def not_less [symmetric])
  ultimately show ?thesis
    using inv by (auto simp: pb_inv_def take_all_busy [OF w] take_all_refs [OF r])
qed

section \<open>Releasing and sharing\<close>

lemma locate_page_Val:
  "locate_page m addr = Val p \<longleftrightarrow>
   addr = pb_base m + p * PAGE_SIZE \<and> pb_reserved m \<le> p \<and> p < pb_total m"
  by (auto simp: locate_page_def Let_def PAGE_SIZE_def)

lemma locate_page_addr [simp]:
  "pb_reserved m \<le> p \<Longrightarrow> p < pb_total m \<Longrightarrow> locate_page m (pb_base m + p * PAGE_SIZE) = Val p"
  by (simp add: locate_page_Val)

text \<open>The state after the last reference to page \<open>p\<close> went away.\<close>

definition dropped :: "nat \<Rightarrow> phys_bitmap \<Rightarrow> phys_bitmap" where
  "dropped p m = (clear_bit_page p (set_refs p 0 m))\<lparr>pb_free := pb_free m + 1\<rparr>"

lemma free_page_Val:
  "pb_inv m \<Longrightarrow> free_page addr m = Val m' \<longleftrightarrow>
   (\<exists>p. addr = pb_base m + p * PAGE_SIZE \<and> pb_reserved m \<le> p \<and> p < pb_total m \<and>
        refs_of m p \<noteq> 0 \<and>
        m' = (if refs_of m p = 1 then dropped p m else set_refs p (refs_of m p - 1) m))"
  using pb_inv_ready [of m]
  by (fastforce simp: free_page_def obind_eq_Val locate_page_Val Let_def dropped_def
      clear_bit_page_def set_refs_def pb_inv_def word_le_nat_alt unat_eq_zero Suc_le_eq
      word_neq_0_conv
      split: if_splits)

lemma retain_page_Val:
  "pb_inv m \<Longrightarrow> retain_page addr m = Val m' \<longleftrightarrow>
   (\<exists>p. addr = pb_base m + p * PAGE_SIZE \<and> pb_reserved m \<le> p \<and> p < pb_total m \<and>
        page_busy m p \<and> refs_of m p \<noteq> - 1 \<and> m' = set_refs p (refs_of m p + 1) m)"
  using pb_inv_ready [of m]
  by (auto simp: retain_page_def obind_eq_Val locate_page_Val Let_def split: if_splits)

lemma dropped_sel [simp]:
  "pb_null (dropped p m) = pb_null m" "pb_total (dropped p m) = pb_total m"
  "pb_base (dropped p m) = pb_base m" "pb_reserved (dropped p m) = pb_reserved m"
  "pb_nwords (dropped p m) = pb_nwords m" "pb_nrefs (dropped p m) = pb_nrefs m"
  "pb_free (dropped p m) = pb_free m + 1" "pb_cursor (dropped p m) = pb_cursor m"
  "length (pb_words (dropped p m)) = length (pb_words m)"
  "length (pb_refs (dropped p m)) = length (pb_refs m)"
  by (simp_all add: dropped_def pb_update_defs)

lemma dropped_busy:
  "p div 64 < length (pb_words m) \<Longrightarrow> page_busy (dropped p m) q \<longleftrightarrow> q \<noteq> p \<and> page_busy m q"
  by (simp add: dropped_def page_busy_clear)

lemma refs_of_set_refs:
  "p < length (pb_refs m) \<Longrightarrow> refs_of (set_refs p v m) q = (if q = p then v else refs_of m q)"
  by (simp add: refs_of_def set_refs_def)

lemma dropped_refs:
  "p < length (pb_refs m) \<Longrightarrow> refs_of (dropped p m) q = (if q = p then 0 else refs_of m q)"
  by (simp add: dropped_def refs_of_set_refs)

lemma pb_inv_dropped:
  assumes inv: "pb_inv m" and p: "p < pb_total m" "refs_of m p \<noteq> 0"
  shows "pb_inv (dropped p m)"
proof -
  note w = pb_word_index [OF inv p(1)] and r = pb_ref_index [OF inv p(1)]
  have busy: "page_busy m p" "pb_reserved m \<le> p" using inv p by (auto simp: pb_inv_def)
  have "clear_count (page_busy (dropped p m)) (pb_total m) =
      Suc (clear_count (page_busy m) (pb_total m))"
    by (rule clear_count_clear [where p = p]) (simp_all add: p busy dropped_busy [OF w])
  then show ?thesis
    using inv busy by (auto simp: pb_inv_def dropped_busy [OF w] dropped_refs [OF r])
qed

lemma set_refs_sel [simp]:
  "pb_null (set_refs p v m) = pb_null m" "pb_total (set_refs p v m) = pb_total m"
  "pb_base (set_refs p v m) = pb_base m" "pb_reserved (set_refs p v m) = pb_reserved m"
  "pb_nwords (set_refs p v m) = pb_nwords m" "pb_nrefs (set_refs p v m) = pb_nrefs m"
  "pb_free (set_refs p v m) = pb_free m" "pb_cursor (set_refs p v m) = pb_cursor m"
  "pb_words (set_refs p v m) = pb_words m"
  by (simp_all add: set_refs_def)

lemma pb_inv_set_refs:
  assumes inv: "pb_inv m" and p: "p < pb_total m" "page_busy m p" "pb_reserved m \<le> p"
  shows "pb_inv (set_refs p v m)"
  using inv p by (auto simp: pb_inv_def refs_of_set_refs [OF pb_ref_index [OF inv p(1)]])

lemma free_page_inv: "pb_inv m \<Longrightarrow> free_page addr m = Val m' \<Longrightarrow> pb_inv m'"
  by (auto simp: free_page_Val pb_inv_dropped intro!: pb_inv_set_refs) (auto simp: pb_inv_def)

lemma retain_page_inv: "pb_inv m \<Longrightarrow> retain_page addr m = Val m' \<Longrightarrow> pb_inv m'"
  by (auto simp: retain_page_Val intro!: pb_inv_set_refs)

lemma mark_busy_Val:
  assumes inv: "pb_inv m"
  shows "mark_busy p m = Val (if p < pb_total m \<and> \<not> page_busy m p
           then (taken p 0 (pb_cursor m) m, True) else (m, False))"
  using pb_inv_ready [OF inv]
  by (auto simp: mark_busy_def taken_def Let_def set_refs_def set_bit_page_def)

lemma mark_busy_inv:
  assumes "pb_inv m" and "mark_busy p m = Val (m', b)"
  shows "pb_inv m'"
  using assms pb_inv_taken by (auto simp: mark_busy_Val split: if_splits)

section \<open>Initialisation\<close>

lemma set_bit_fold_sel:
  "pb_null (fold set_bit_page ps m) = pb_null m \<and> pb_total (fold set_bit_page ps m) = pb_total m \<and>
   pb_base (fold set_bit_page ps m) = pb_base m \<and> pb_nwords (fold set_bit_page ps m) = pb_nwords m \<and>
   pb_nrefs (fold set_bit_page ps m) = pb_nrefs m \<and> pb_refs (fold set_bit_page ps m) = pb_refs m \<and>
   length (pb_words (fold set_bit_page ps m)) = length (pb_words m)"
  by (induction ps arbitrary: m) (simp_all add: set_bit_page_def)

lemma set_bit_fold_busy:
  "\<forall>p\<in>set ps. p div 64 < length (pb_words m) \<Longrightarrow>
   page_busy (fold set_bit_page ps m) q \<longleftrightarrow> q \<in> set ps \<or> page_busy m q"
  by (induction ps arbitrary: m) (auto simp: page_busy_set)

lemma pb_init_inv:
  assumes init: "pb_init ws rs base tot reserved m0 = Val m" and tot: "0 < tot"
  shows "pb_inv m \<and> (\<forall>p<tot. page_busy m p \<longleftrightarrow> p < max reserved 1) \<and> (\<forall>p<tot. refs_of m p = 0)
    \<and> pb_base m = base \<and> pb_total m = tot"
proof -
  let ?m1 = "m0\<lparr>pb_null := False, pb_words := replicate (length ws) 0,
              pb_nwords := length ws, pb_refs := replicate tot 0 @ drop tot rs,
              pb_nrefs := length rs, pb_base := base, pb_total := tot\<rparr>"
  let ?r = "min tot (max reserved 1)"
  let ?m2 = "fold set_bit_page [0..<?r] ?m1"
  from init have cap: "tot \<le> length ws * 64" "tot \<le> length rs"
    and m: "m = ?m2\<lparr>pb_reserved := ?r, pb_free := tot - ?r\<rparr>"
    by (auto simp: pb_init_def Let_def split: if_splits)
  have idx: "p div 64 < length ws" if "p < tot" for p
    using that cap(1) by (simp add: div_less_iff_less_mult)
  have busy2: "page_busy ?m2 p \<longleftrightarrow> p < ?r" if "p < tot" for p
  proof -
    have "page_busy ?m2 p \<longleftrightarrow> p \<in> set [0..<?r] \<or> page_busy ?m1 p"
      by (rule set_bit_fold_busy) (auto intro: idx)
    moreover have "\<not> page_busy ?m1 p" using bm_bit_zero [OF idx [OF that]] by (simp add: page_busy_bm)
    ultimately show ?thesis by simp
  qed
  then have busy: "page_busy m p \<longleftrightarrow> p < ?r" if "p < tot" for p
    using that by (simp add: m page_busy_def)
  have refs: "refs_of m p = 0" if "p < tot" for p
    using that by (simp add: m refs_of_def set_bit_fold_sel nth_append)
  have "clear_count (page_busy m) tot = clear_count (\<lambda>p. p < ?r) tot"
    by (rule clear_count_cong) (rule busy)
  also have "\<dots> = tot - ?r" by (rule clear_count_prefix)
  finally have free: "pb_free m = clear_count (page_busy m) tot" by (simp add: m)
  have "pb_inv m"
    using tot cap free busy refs by (auto simp: pb_inv_def set_bit_fold_sel m)
  then show ?thesis using busy refs by (auto simp: m set_bit_fold_sel)
qed

section \<open>Live references by address\<close>

definition pb_live :: "phys_bitmap \<Rightarrow> nat \<Rightarrow> nat" where
  "pb_live m addr = unat (ref_count m addr)"

lemma ref_count_page:
  "pb_inv m \<Longrightarrow> p < pb_total m \<Longrightarrow> ref_count m (pb_base m + p * PAGE_SIZE) = refs_of m p"
  by (simp add: ref_count_def pb_inv_def PAGE_SIZE_def Let_def)

lemma ref_count_nonzero:
  assumes "pb_inv m" and "ref_count m addr \<noteq> 0"
  obtains p where "addr = pb_base m + p * PAGE_SIZE" "p < pb_total m" "pb_reserved m \<le> p"
    "page_busy m p" "refs_of m p = ref_count m addr"
proof -
  from assms(2) have *: "pb_base m \<le> addr" "(addr - pb_base m) mod PAGE_SIZE = 0"
      "(addr - pb_base m) div PAGE_SIZE < pb_total m"
      "ref_count m addr = refs_of m ((addr - pb_base m) div PAGE_SIZE)"
    by (auto simp: ref_count_def Let_def not_less split: if_splits)
  let ?p = "(addr - pb_base m) div PAGE_SIZE"
  have "addr = pb_base m + ?p * PAGE_SIZE" using *(1,2) by auto
  moreover have "refs_of m ?p \<noteq> 0" using assms(2) *(4) by simp
  moreover from this assms(1) *(3) have "page_busy m ?p" "pb_reserved m \<le> ?p"
    by (simp_all add: pb_inv_def)
  ultimately show thesis using that [of ?p] *(3,4) by simp
qed

text \<open>Two states with the same geometry whose counts differ at one page.\<close>

lemma pb_live_upd:
  assumes inv: "pb_inv m" "pb_inv m'"
    and geom: "pb_base m' = pb_base m" "pb_total m' = pb_total m" and p: "p < pb_total m"
    and refs: "\<And>q. q < pb_total m \<Longrightarrow> refs_of m' q = (if q = p then v else refs_of m q)"
  shows "pb_live m' = (pb_live m)(pb_base m + p * PAGE_SIZE := unat v)"
proof
  fix a
  have ready: "\<not> pb_null m" "\<not> pb_null m'" using inv by (simp_all add: pb_inv_def)
  have addr: "a = pb_base m + p * PAGE_SIZE"
      if "pb_base m \<le> a" "(a - pb_base m) mod PAGE_SIZE = 0" "(a - pb_base m) div PAGE_SIZE = p"
    using that by (auto simp: PAGE_SIZE_def)
  show "pb_live m' a = ((pb_live m)(pb_base m + p * PAGE_SIZE := unat v)) a"
  proof (cases "a = pb_base m + p * PAGE_SIZE")
    case True
    with ref_count_page [OF inv(2), of p] geom p refs show ?thesis by (simp add: pb_live_def)
  next
    case False
    with addr have "(a - pb_base m) div PAGE_SIZE \<noteq> p"
      if "pb_base m \<le> a" "(a - pb_base m) mod PAGE_SIZE = 0" using that by blast
    with False ready geom refs show ?thesis
      by (simp add: pb_live_def ref_count_def Let_def not_less)
  qed
qed

lemma alloc_page_law:
  assumes inv: "pb_inv m"
  shows "alloc_page m = Val (m, None) \<or>
    (\<exists>m' a. alloc_page m = Val (m', Some a) \<and> pb_inv m' \<and> pb_live m a = 0 \<and>
       pb_live m' = (pb_live m)(a := 1))"
  using inv
proof (cases rule: alloc_page_cases)
  case full
  then show ?thesis by simp
next
  case (page p i)
  have inv': "pb_inv (taken p 1 i m)" by (rule pb_inv_taken) (use inv page in auto)
  have "refs_of m p = 0" using inv page by (auto simp: pb_inv_def)
  then have "pb_live m (pb_base m + p * PAGE_SIZE) = 0"
    using ref_count_page [OF inv] page by (simp add: pb_live_def)
  moreover have "pb_live (taken p 1 i m) = (pb_live m)(pb_base m + p * PAGE_SIZE := unat (1 :: u16))"
    by (rule pb_live_upd [OF inv inv'])
      (use page in \<open>auto simp: taken_refs [OF pb_ref_index [OF inv]]\<close>)
  ultimately show ?thesis using page inv' by auto
qed

lemma retain_page_law:
  assumes inv: "pb_inv m" and live: "0 < pb_live m a" "pb_live m a < 65535"
  shows "\<exists>m'. retain_page a m = Val m' \<and> pb_inv m' \<and> pb_live m' = (pb_live m)(a := pb_live m a + 1)"
proof -
  from live(1) have "ref_count m a \<noteq> 0" by (auto simp: pb_live_def)
  then obtain p where p: "a = pb_base m + p * PAGE_SIZE" "p < pb_total m" "pb_reserved m \<le> p"
      "page_busy m p" "refs_of m p = ref_count m a"
    using ref_count_nonzero [OF inv] by metis
  have un: "unat (refs_of m p) = pb_live m a" using p by (simp add: pb_live_def)
  have "refs_of m p \<noteq> - 1"
  proof
    assume "refs_of m p = - 1"
    then have "unat (refs_of m p) = 65535" by (simp add: unsigned_minus_1_eq_mask mask_eq_exp_minus_1)
    with un live(2) show False by simp
  qed
  then have ret: "retain_page a m = Val (set_refs p (refs_of m p + 1) m)" (is "_ = Val ?m'")
    using p by (auto simp: retain_page_Val [OF inv])
  have inv': "pb_inv ?m'" using p by (intro pb_inv_set_refs [OF inv]) auto
  have "unat (refs_of m p + 1) = pb_live m a + 1"
    using un live(2) by (simp add: unat_word_ariths)
  moreover have "pb_live ?m' = (pb_live m)(a := unat (refs_of m p + 1))"
    unfolding p(1) by (rule pb_live_upd [OF inv inv'])
      (use p in \<open>auto simp: refs_of_set_refs [OF pb_ref_index [OF inv]]\<close>)
  ultimately show ?thesis using ret inv' by simp
qed

lemma free_page_law:
  assumes inv: "pb_inv m" and live: "0 < pb_live m a"
  shows "\<exists>m'. free_page a m = Val m' \<and> pb_inv m' \<and> pb_live m' = (pb_live m)(a := pb_live m a - 1)"
proof -
  from live(1) have nz: "ref_count m a \<noteq> 0" by (auto simp: pb_live_def)
  then obtain p where p: "a = pb_base m + p * PAGE_SIZE" "p < pb_total m" "pb_reserved m \<le> p"
      "page_busy m p" "refs_of m p = ref_count m a"
    using ref_count_nonzero [OF inv] by metis
  define m' where "m' = (if refs_of m p = 1 then dropped p m else set_refs p (refs_of m p - 1) m)"
  have nz': "refs_of m p \<noteq> 0" using p(5) nz by simp
  have fr: "free_page a m = Val m'"
    unfolding free_page_Val [OF inv] m'_def using p(1-3) nz' by blast
  then have inv': "pb_inv m'" by (rule free_page_inv [OF inv])
  note idx = pb_ref_index [OF inv p(2)]
  have geom: "pb_base m' = pb_base m" "pb_total m' = pb_total m" by (simp_all add: m'_def)
  have refs: "refs_of m' q = (if q = p then refs_of m p - 1 else refs_of m q)" for q
    by (simp add: m'_def dropped_refs [OF idx] refs_of_set_refs [OF idx])
  have "unat (refs_of m p - 1) = pb_live m a - 1"
    using p(5) nz' by (simp add: pb_live_def unat_minus_one)
  moreover have "pb_live m' = (pb_live m)(a := unat (refs_of m p - 1))"
    unfolding p(1) by (rule pb_live_upd [OF inv inv' geom p(2) refs])
  ultimately show ?thesis using fr inv' by simp
qed

interpretation pages: frame_allocator pb_inv pb_live alloc_page retain_page free_page 65535
  by unfold_locales (fact alloc_page_law retain_page_law free_page_law)+

section \<open>Properties\<close>

text \<open>
  C17: on a well-formed bitmap \<open>alloc_page\<close> never panics. It fails only when every page is busy,
  leaving the state alone; otherwise it returns the address of a page of \<open>[reserved, total)\<close> that
  was clear, marks exactly that page busy with one reference, decrements \<open>free\<close> by one and keeps
  the invariant.
\<close>

theorem alloc_page_spec:
  assumes inv: "pb_inv m"
  shows "(alloc_page m = Val (m, None) \<and> (\<forall>p < pb_total m. page_busy m p)) \<or>
    (\<exists>m' p. alloc_page m = Val (m', Some (pb_base m + p * PAGE_SIZE)) \<and>
       pb_reserved m \<le> p \<and> p < pb_total m \<and> \<not> page_busy m p \<and> pb_inv m' \<and>
       (\<forall>q. page_busy m' q \<longleftrightarrow> q = p \<or> page_busy m q) \<and>
       (\<forall>q. refs_of m' q = (if q = p then 1 else refs_of m q)) \<and>
       pb_free m = pb_free m' + 1)"
  using inv
proof (cases rule: alloc_page_cases)
  case full
  then show ?thesis using inv clear_count_0_iff by (auto simp: pb_inv_def)
next
  case (page p i)
  then show ?thesis
    using pb_inv_taken [OF inv] taken_busy [OF pb_word_index [OF inv]]
      taken_refs [OF pb_ref_index [OF inv]] pb_inv_free_pos [OF inv]
    by (intro disjI2 exI [of _ "taken p 1 i m"] exI [of _ p]) auto
qed

text \<open>A four-page bitmap at address 4096, as \<open>init\<close> leaves it.\<close>

definition pb_small :: phys_bitmap where
  "pb_small = (case pb_init [0] [0, 0, 0, 0] 4096 4 1 pb_empty of Val m \<Rightarrow> m | Panic \<Rightarrow> pb_empty)"

lemma pb_small_init: "pb_init [0] [0, 0, 0, 0] 4096 4 1 pb_empty = Val pb_small"
  by (simp add: pb_small_def pb_init_def)

lemmas pb_small_inv = pb_init_inv [OF pb_small_init, simplified]

theorem alloc_page_spec_witness:
  "pb_inv pb_small \<and> (\<exists>m' p. alloc_page pb_small = Val (m', Some (4096 + p * PAGE_SIZE)) \<and>
     1 \<le> p \<and> pb_inv m' \<and> page_busy m' p \<and> refs_of m' p = 1)"
proof -
  have inv: "pb_inv pb_small" and free: "\<exists>p < pb_total pb_small. \<not> page_busy pb_small p"
    and base: "pb_base pb_small = 4096"
    using pb_small_inv by (auto intro: exI [of _ 1])
  have res: "1 \<le> pb_reserved pb_small" using inv by (simp add: pb_inv_def)
  from alloc_page_spec [OF inv] show ?thesis
  proof
    assume "alloc_page pb_small = Val (pb_small, None) \<and> (\<forall>p < pb_total pb_small. page_busy pb_small p)"
    with free show ?thesis by blast
  next
    assume "\<exists>m' p. alloc_page pb_small = Val (m', Some (pb_base pb_small + p * PAGE_SIZE)) \<and>
       pb_reserved pb_small \<le> p \<and> p < pb_total pb_small \<and> \<not> page_busy pb_small p \<and> pb_inv m' \<and>
       (\<forall>q. page_busy m' q \<longleftrightarrow> q = p \<or> page_busy pb_small q) \<and>
       (\<forall>q. refs_of m' q = (if q = p then 1 else refs_of pb_small q)) \<and>
       pb_free pb_small = pb_free m' + 1"
    with inv res show ?thesis unfolding base by (metis le_trans)
  qed
qed

text \<open>
  C2: \<open>alloc_contiguous\<close> is sound and complete. A returned address starts a run of \<open>n\<close> pages that
  were all clear; they become busy with one reference each, nothing else changes, and \<open>free\<close>
  drops by \<open>n\<close>. It returns nothing only for \<open>n = 0\<close> or when the memory has no clear run of
  \<open>n\<close> pages.
\<close>

theorem alloc_contiguous_spec:
  assumes inv: "pb_inv m"
  shows "(alloc_contiguous n m = Val (m, None) \<and>
       (n = 0 \<or> \<not> (\<exists>s. s + n \<le> pb_total m \<and> (\<forall>q\<in>{s..<s + n}. \<not> page_busy m q)))) \<or>
    (\<exists>m' s. alloc_contiguous n m = Val (m', Some (pb_base m + s * PAGE_SIZE)) \<and>
       0 < n \<and> pb_reserved m \<le> s \<and> s + n \<le> pb_total m \<and> (\<forall>q\<in>{s..<s + n}. \<not> page_busy m q) \<and>
       pb_inv m' \<and> (\<forall>q. page_busy m' q \<longleftrightarrow> s \<le> q \<and> q < s + n \<or> page_busy m q) \<and>
       (\<forall>q. refs_of m' q = (if s \<le> q \<and> q < s + n then 1 else refs_of m q)) \<and>
       pb_free m = pb_free m' + n)"
  using inv
proof (cases rule: alloc_contiguous_cases [where n = n])
  case none
  then show ?thesis by auto
next
  case (run s)
  let ?m' = "(take_all [s..<s + n] m)\<lparr>pb_free := pb_free m - n\<rparr>"
  have w: "\<forall>p\<in>set [s..<s + n]. p div 64 < length (pb_words m)"
    and r: "\<forall>p\<in>set [s..<s + n]. p < length (pb_refs m)"
    using pb_word_index [OF inv] pb_ref_index [OF inv] run by auto
  have inv': "pb_inv ?m'" by (rule pb_inv_take_all [OF inv]) (use run in auto)
  have "clear_count (page_busy m) (pb_total m) =
      clear_count (page_busy (take_all [s..<s + n] m)) (pb_total m) + length [s..<s + n]"
    by (rule clear_count_set_many) (use run in \<open>auto simp: take_all_busy [OF w]\<close>)
  then have "pb_free m = pb_free ?m' + n"
    using inv inv' by (simp add: pb_inv_def)
  moreover have "pb_reserved m \<le> s"
    using inv run by (auto simp: pb_inv_def not_less [symmetric])
  ultimately show ?thesis
    using run inv' by (intro disjI2 exI [of _ ?m'] exI [of _ s])
      (auto simp: take_all_busy [OF w] take_all_refs [OF r])
qed

theorem alloc_contiguous_spec_witness:
  "pb_inv pb_small \<and> (\<exists>m'. alloc_contiguous 3 pb_small = Val (m', Some 8192) \<and> pb_inv m' \<and>
     (\<forall>q\<in>{1..<4}. page_busy m' q \<and> refs_of m' q = 1))"
proof -
  have inv: "pb_inv pb_small" and geom: "pb_total pb_small = 4" "pb_base pb_small = 4096"
    and clear: "\<forall>q\<in>{1..<1 + 3}. \<not> page_busy pb_small q" and zero: "page_busy pb_small 0"
    using pb_small_inv by auto
  have "\<exists>s. s + 3 \<le> pb_total pb_small \<and> (\<forall>q\<in>{s..<s + 3}. \<not> page_busy pb_small q)"
    using clear geom by (intro exI [of _ 1]) auto
  with alloc_contiguous_spec [OF inv, of 3] obtain m' s
    where *: "alloc_contiguous 3 pb_small = Val (m', Some (4096 + s * PAGE_SIZE))" "s + 3 \<le> 4"
      "\<forall>q\<in>{s..<s + 3}. \<not> page_busy pb_small q" "pb_inv m'"
      "\<forall>q. page_busy m' q \<longleftrightarrow> s \<le> q \<and> q < s + 3 \<or> page_busy pb_small q"
      "\<forall>q. refs_of m' q = (if s \<le> q \<and> q < s + 3 then 1 else refs_of pb_small q)"
    unfolding geom by auto
  have "s = 1" using *(2,3) zero by (cases s) auto
  with * inv show ?thesis by (auto simp: PAGE_SIZE_def)
qed

text \<open>
  C7: from a fresh bitmap, no sequence of allocations, retains and frees that respects the
  holding discipline panics. At every point the stored reference count of each address is the
  number of references the client holds, so the next allocation returns a page nobody holds and
  a held page is never handed out again before its last holder freed it.
\<close>

theorem page_lifecycle:
  assumes "pb_init ws rs base tot reserved m0 = Val m" and "0 < tot"
  shows "\<exists>m' h. client_run alloc_page retain_page free_page 65535 reqs (m, {#}) = Val (m', h) \<and>
    pb_inv m' \<and> (\<forall>a. unat (ref_count m' a) = count h a) \<and>
    (\<forall>m'' a. alloc_page m' = Val (m'', Some a) \<longrightarrow> a \<notin># h)"
proof -
  have inv: "pb_inv m" and zero: "\<forall>p < pb_total m. refs_of m p = 0"
    using pb_init_inv [OF assms] by auto
  have "pb_live m = count {#}"
    using zero by (auto simp: fun_eq_iff pb_live_def ref_count_def Let_def)
  from pages.run_ok [OF inv this, of reqs] pages.run_alloc_fresh [OF inv this, of reqs] show ?thesis
    by (auto simp: pb_live_def fun_eq_iff)
qed

theorem page_lifecycle_witness:
  "\<exists>m' h. client_run alloc_page retain_page free_page 65535 [Alloc, Retain 8192, Free 8192, Alloc]
     (pb_small, {#}) = Val (m', h) \<and> pb_inv m' \<and> (\<forall>a. unat (ref_count m' a) = count h a)"
  using page_lifecycle [OF pb_small_init, of "[Alloc, Retain 8192, Free 8192, Alloc]"] by auto

end
