(* ===== verification/Byte_Codec.thy ===== *)
theory Byte_Codec
  imports Zero_Prelude
begin

text \<open>
  Little-endian byte encodings, as \<open>to_le_bytes\<close> and \<open>from_le_bytes\<close> of the Rust integer types
  compute them. The number of bytes is an argument; \<open>u16\<close>, \<open>u32\<close> and \<open>u64\<close> use 2, 4 and 8.
\<close>

primrec from_le :: "bytes \<Rightarrow> nat" where
  "from_le [] = 0"
| "from_le (b # bs) = unat b + 256 * from_le bs"

primrec to_le :: "nat \<Rightarrow> nat \<Rightarrow> bytes" where
  "to_le 0 v = []"
| "to_le (Suc n) v = of_nat v # to_le n (v div 256)"

lemma u8_less [simp]: "unat (b :: u8) < 256"
  using unsigned_less [where 'a = nat, of b] by simp

lemma length_to_le [simp]: "length (to_le n v) = n"
  by (induction n arbitrary: v) simp_all

lemma from_le_less: "from_le bs < 256 ^ length bs"
proof (induction bs)
  case (Cons b bs)
  have "unat b + 256 * f < 256 * X" if "f < X" for f X :: nat
    using that u8_less [of b] by linarith
  from this [OF Cons] show ?case by simp
qed simp

lemma from_to_le [simp]: "from_le (to_le n v) = v mod 256 ^ n"
proof (induction n arbitrary: v)
  case (Suc n)
  have "unat (of_nat v :: u8) = v mod 256" by (simp add: unat_of_nat)
  with Suc show ?case by (simp add: mod_mult2_eq)
qed simp

lemma to_from_le [simp]: "length bs = n \<Longrightarrow> to_le n (from_le bs) = bs"
proof (induction bs arbitrary: n)
  case (Cons b bs)
  have "(unat b + 256 * from_le bs) div 256 = from_le bs" by simp
  moreover have "(of_nat (unat b + 256 * from_le bs) :: u8) = b"
    by (rule word_unat_eq_iff [THEN iffD2])
      (simp add: unat_of_nat del: of_nat_add of_nat_mult)
  ultimately show ?case using Cons by (auto simp del: of_nat_add of_nat_mult)
qed simp

end
