(* ===== verification/Phys_Init.thy ===== *)
theory Phys_Init
  imports Phys_Bitmap Byte_Codec
begin

text \<open>
  \<open>microkernel/src/mm/phys.rs\<close>: the global allocator state, the boot loader's memory-map sink,
  the two initialisation paths and the page-table page counter. \<open>usize\<close> is 64 bits wide: the
  saturating and wrapping operations of the source are \<open>sat_add\<close>, \<open>sat_mul\<close> and \<open>wrap_add\<close>
  on natural numbers below \<open>2 ^ 64\<close>. The kernel is built in release mode, where \<open>+\<close> wraps.
\<close>

section \<open>Constants and integer operations\<close>

definition MAX_PAGES :: nat where "MAX_PAGES = 1024 * 1024"
definition RAM_BASE :: nat where "RAM_BASE = 0x40000000"
definition PSTORE_BASE :: nat where "PSTORE_BASE = 0x42000000"
definition PSTORE_SIZE :: nat where "PSTORE_SIZE = 64 * 1024"
definition PSTORE_BASE_REL :: nat where "PSTORE_BASE_REL = PSTORE_BASE - RAM_BASE"
definition PSTORE_PAGES :: nat where "PSTORE_PAGES = PSTORE_SIZE div PAGE_SIZE"
definition MEMMAP_MAGIC :: nat where "MEMMAP_MAGIC = 0x5A4D454D31303131"
definition MEMMAP_HEADER :: nat where "MEMMAP_HEADER = 0x10"
definition MEMMAP_ENTRY :: nat where "MEMMAP_ENTRY = 16"
definition MAX_MEMMAP_REGIONS :: nat where "MAX_MEMMAP_REGIONS = 32"

definition sat_add :: "nat \<Rightarrow> nat \<Rightarrow> nat" where "sat_add a b = min (a + b) (2 ^ 64 - 1)"
definition sat_mul :: "nat \<Rightarrow> nat \<Rightarrow> nat" where "sat_mul a b = min (a * b) (2 ^ 64 - 1)"
definition wrap_add :: "nat \<Rightarrow> nat \<Rightarrow> nat" where "wrap_add a b = (a + b) mod 2 ^ 64"
definition div_ceil :: "nat \<Rightarrow> nat \<Rightarrow> nat" where "div_ceil a b = (a + b - 1) div b"

text \<open>The static storage: zeroed words and counts of fixed capacity.\<close>

definition BITMAP_WORDS :: "u64 list" where "BITMAP_WORDS = replicate (MAX_PAGES div 64) 0"
definition REF_COUNTS :: "u16 list" where "REF_COUNTS = replicate MAX_PAGES 0"

record phys_state =
  ps_mm :: phys_bitmap
  ps_initialised :: bool
  ps_page_table_pages :: u64

section \<open>Marking ranges\<close>

definition ranges_overlap :: "nat \<Rightarrow> nat \<Rightarrow> nat \<Rightarrow> nat \<Rightarrow> bool" where
  "ranges_overlap a0 a1 b0 b1 \<longleftrightarrow> a0 < b1 \<and> b0 < a1"

fun mark_pages :: "nat list \<Rightarrow> phys_bitmap \<Rightarrow> (phys_bitmap \<times> nat) outcome" where
  "mark_pages [] m = Val (m, 0)"
| "mark_pages (p # ps) m =
     obind (mark_busy p m) (\<lambda>(m1, b). obind (mark_pages ps m1) (\<lambda>(m2, n). Val (m2, of_bool b + n)))"

definition mark_absolute_range_busy ::
    "nat \<Rightarrow> nat \<Rightarrow> phys_bitmap \<Rightarrow> (phys_bitmap \<times> nat) outcome" where
  "mark_absolute_range_busy start end mm =
     (if end \<le> start \<or> end \<le> RAM_BASE then Val (mm, 0)
      else
        let ram_end = sat_add RAM_BASE (sat_mul (pb_total mm) PAGE_SIZE);
            s = max start RAM_BASE; e = min end ram_end
        in if e \<le> s then Val (mm, 0)
           else
             let first = (s - RAM_BASE) div PAGE_SIZE; last = div_ceil (e - RAM_BASE) PAGE_SIZE
             in mark_pages [first..<min last (pb_total mm)] mm)"

definition reserved_pages_for :: "nat \<Rightarrow> nat" where
  "reserved_pages_for b = div_ceil b PAGE_SIZE"

definition mark_pstore_busy :: "phys_bitmap \<Rightarrow> phys_bitmap outcome" where
  "mark_pstore_busy mm =
     (let base_page = PSTORE_BASE_REL div PAGE_SIZE
      in obind (mark_pages [base_page..<base_page + PSTORE_PAGES] mm) (\<lambda>(m, n). Val m))"

section \<open>Initialisation paths\<close>

definition legacy_init :: "nat \<Rightarrow> nat \<Rightarrow> phys_bitmap \<Rightarrow> phys_bitmap outcome" where
  "legacy_init memory_bytes reserved_bytes mm =
     (let tot = min (memory_bytes div PAGE_SIZE) MAX_PAGES;
          reserved = max (min (reserved_pages_for reserved_bytes) tot) 1
      in obind (pb_init BITMAP_WORDS REF_COUNTS RAM_BASE tot reserved mm) mark_pstore_busy)"

text \<open>The first loop of \<open>init_from_regions_exact\<close>.\<close>

fun top_of_regions :: "(nat \<times> nat) list \<Rightarrow> nat \<Rightarrow> nat" where
  "top_of_regions [] top_rel = top_rel"
| "top_of_regions ((b, l) # rs) top_rel =
     top_of_regions rs
       (if RAM_BASE \<le> b
        then max top_rel (min (sat_add (b - RAM_BASE) l) (MAX_PAGES * PAGE_SIZE))
        else top_rel)"

text \<open>One region of the hole scan: the pages between \<open>cursor\<close> and the region are marked and
  \<open>cursor\<close> moves behind the region.\<close>

definition hole_step ::
    "nat \<Rightarrow> nat \<Rightarrow> nat \<times> nat \<Rightarrow> nat \<Rightarrow> phys_bitmap \<Rightarrow> (phys_bitmap \<times> nat) outcome" where
  "hole_step tot top_rel r cursor mm =
     (let base = fst r; len = snd r in
      if wrap_add base len \<le> RAM_BASE \<or> RAM_BASE + top_rel \<le> base then Val (mm, cursor)
      else
        let rs_abs = max base RAM_BASE; re_abs = min (sat_add base len) (RAM_BASE + top_rel)
        in if re_abs \<le> rs_abs then Val (mm, cursor)
           else
             let start_page = div_ceil (rs_abs - RAM_BASE) PAGE_SIZE;
                 end_page = (re_abs - RAM_BASE) div PAGE_SIZE
             in obind (mark_pages [cursor..<min start_page tot] mm) (\<lambda>(m, n).
                  Val (m, max cursor end_page)))"

primrec scan_holes ::
    "nat \<Rightarrow> nat \<Rightarrow> (nat \<times> nat) list \<Rightarrow> nat \<Rightarrow> phys_bitmap \<Rightarrow> phys_bitmap outcome" where
  "scan_holes tot top_rel [] cursor mm =
     obind (mark_pages [cursor..<tot] mm) (\<lambda>(m, n). Val m)"
| "scan_holes tot top_rel (r # rs) cursor mm =
     obind (hole_step tot top_rel r cursor mm) (\<lambda>(m, c). scan_holes tot top_rel rs c m)"

definition init_from_regions_exact ::
    "(nat \<times> nat) list \<Rightarrow> nat \<Rightarrow> nat \<Rightarrow> phys_bitmap \<Rightarrow> phys_bitmap outcome" where
  "init_from_regions_exact regions kernel_start kernel_end mm =
     (let top_rel = top_of_regions regions 0; tot = max (top_rel div PAGE_SIZE) 1
      in obind (pb_init BITMAP_WORDS REF_COUNTS RAM_BASE tot 0 mm) (\<lambda>m1.
         obind (mark_absolute_range_busy kernel_start kernel_end m1) (\<lambda>(m2, n).
         obind (mark_pstore_busy m2) (\<lambda>m3.
         scan_holes tot top_rel regions 0 m3))))"

definition init_from_regions ::
    "(nat \<times> nat) list \<Rightarrow> nat \<Rightarrow> phys_bitmap \<Rightarrow> phys_bitmap outcome" where
  "init_from_regions regions reserved_bytes mm =
     init_from_regions_exact regions RAM_BASE (sat_add RAM_BASE reserved_bytes) mm"

section \<open>The memory-map sink\<close>

definition rd_u64 :: "bytes \<Rightarrow> nat \<Rightarrow> nat" where
  "rd_u64 raw off = from_le (take 8 (drop off raw))"

text \<open>The entry loop with the accepted regions \<open>out\<close>; \<open>n\<close> entries are left, from index \<open>i\<close>.\<close>

fun read_entries :: "bytes \<Rightarrow> nat \<Rightarrow> nat \<Rightarrow> nat \<Rightarrow> (nat \<times> nat) list \<Rightarrow> (nat \<times> nat) list option" where
  "read_entries raw 0 i prev_end out = Some out"
| "read_entries raw (Suc n) i prev_end out =
     (let off = MEMMAP_HEADER + i * MEMMAP_ENTRY;
          base = rd_u64 raw off; len = rd_u64 raw (off + 8)
      in if len = 0 \<or> base < prev_end \<or> MAX_MEMMAP_REGIONS \<le> length out then None
         else read_entries raw n (i + 1) (sat_add base len) (out @ [(base, len)]))"

definition read_memory_map_sink :: "bytes \<Rightarrow> (nat \<times> nat) list option" where
  "read_memory_map_sink raw =
     (if rd_u64 raw 0 \<noteq> MEMMAP_MAGIC then None
      else
        let cnt = rd_u64 raw 8
        in if cnt = 0 \<or> MAX_MEMMAP_REGIONS < cnt then None else read_entries raw cnt 0 0 [])"

definition init_with_kernel_range ::
    "bytes \<Rightarrow> nat \<Rightarrow> nat \<Rightarrow> nat \<Rightarrow> nat \<Rightarrow> phys_state \<Rightarrow> phys_state outcome" where
  "init_with_kernel_range sink memory_bytes legacy_reserved_bytes kernel_start kernel_end st =
     (if ps_initialised st then Val st
      else
        let st1 = st\<lparr>ps_initialised := True\<rparr>
        in obind
             (case read_memory_map_sink sink of
                Some regions \<Rightarrow> init_from_regions_exact regions kernel_start kernel_end (ps_mm st1)
              | None \<Rightarrow>
                  obind (legacy_init memory_bytes legacy_reserved_bytes (ps_mm st1)) (\<lambda>m.
                  obind (mark_absolute_range_busy kernel_start kernel_end m) (\<lambda>(m', n). Val m')))
             (\<lambda>m. Val (st1\<lparr>ps_mm := m\<rparr>)))"

definition phys_init :: "bytes \<Rightarrow> nat \<Rightarrow> nat \<Rightarrow> phys_state \<Rightarrow> phys_state outcome" where
  "phys_init sink memory_bytes reserved_bytes st =
     init_with_kernel_range sink memory_bytes reserved_bytes RAM_BASE
       (sat_add RAM_BASE reserved_bytes) st"

section \<open>Locked entry points\<close>

definition reserve_physical_range :: "nat \<Rightarrow> nat \<Rightarrow> phys_state \<Rightarrow> (phys_state \<times> nat) outcome" where
  "reserve_physical_range addr len st =
     (if len = 0 then Val (st, 0)
      else
        let end = sat_add addr len
        in if end \<le> RAM_BASE \<or> sat_add RAM_BASE (MAX_PAGES * PAGE_SIZE) \<le> addr then Val (st, 0)
           else
             let start = (max addr RAM_BASE - RAM_BASE) div PAGE_SIZE;
                 end_page = sat_add (end - RAM_BASE) (PAGE_SIZE - 1) div PAGE_SIZE
             in obind (mark_pages [start..<min end_page (pb_total (ps_mm st))] (ps_mm st))
                  (\<lambda>(m, n). Val (st\<lparr>ps_mm := m\<rparr>, n)))"

definition alloc_page_table :: "phys_state \<Rightarrow> (phys_state \<times> nat option) outcome" where
  "alloc_page_table st =
     obind (alloc_page (ps_mm st)) (\<lambda>(m, r).
       case r of
         None \<Rightarrow> Val (st\<lparr>ps_mm := m\<rparr>, None)
       | Some page \<Rightarrow>
           Val (st\<lparr>ps_mm := m, ps_page_table_pages := ps_page_table_pages st + 1\<rparr>, Some page))"

definition free_page_table :: "nat \<Rightarrow> phys_state \<Rightarrow> phys_state outcome" where
  "free_page_table addr st =
     obind (free_page addr (ps_mm st)) (\<lambda>m.
       Val (st\<lparr>ps_mm := m, ps_page_table_pages := ps_page_table_pages st - 1\<rparr>))"

section \<open>Page arithmetic\<close>

lemma PAGE_SIZE_pos [simp]: "0 < PAGE_SIZE"
  by (simp add: PAGE_SIZE_def)

lemma div_le_page: "0 < (d :: nat) \<Longrightarrow> x div d \<le> q \<longleftrightarrow> x < (q + 1) * d"
  using div_less_iff_less_mult [of d x "q + 1"] by (simp add: less_Suc_eq_le)

lemma less_div_page: "0 < (d :: nat) \<Longrightarrow> q < x div d \<longleftrightarrow> (q + 1) * d \<le> x"
  by (metis div_le_page not_less)

lemma less_div_ceil: "0 < d \<Longrightarrow> q < div_ceil x d \<longleftrightarrow> q * d < x"
  unfolding div_ceil_def by (subst less_div_page) auto

lemma clip_range:
  fixes R A B T lo hi :: nat
  assumes "A < B" "B \<le> T"
  shows "max lo R - R < B \<and> A < min hi (R + T) - R \<longleftrightarrow> lo < R + B \<and> R + A < hi"
  using assms by (auto simp: max_def min_def)

text \<open>The byte range of page \<open>q\<close>, and whether it meets \<open>[lo, hi)\<close> or lies inside a region.\<close>

definition page_start :: "nat \<Rightarrow> nat" where
  "page_start q = RAM_BASE + q * PAGE_SIZE"

definition page_meets :: "nat \<Rightarrow> nat \<Rightarrow> nat \<Rightarrow> bool" where
  "page_meets lo hi q \<longleftrightarrow> lo < hi \<and> ranges_overlap (page_start q) (page_start (q + 1)) lo hi"

definition page_in :: "(nat \<times> nat) list \<Rightarrow> nat \<Rightarrow> bool" where
  "page_in rs q \<longleftrightarrow> (\<exists>(b, l) \<in> set rs. b \<le> page_start q \<and> page_start (q + 1) \<le> b + l)"

lemma page_in_simps [simp]:
  "\<not> page_in [] q"
  "page_in ((b, l) # rs) q \<longleftrightarrow> (b \<le> page_start q \<and> page_start (q + 1) \<le> b + l) \<or> page_in rs q"
  by (auto simp: page_in_def)

section \<open>Marking\<close>

lemma mark_pages_ok:
  assumes "pb_inv m"
  obtains m' n where "mark_pages ps m = Val (m', n)" "pb_inv m'" "pb_total m' = pb_total m"
    "pb_base m' = pb_base m"
    "\<And>q. q < pb_total m \<Longrightarrow> page_busy m' q \<longleftrightarrow> page_busy m q \<or> q \<in> set ps"
    "\<And>q. q < pb_total m \<Longrightarrow> refs_of m' q = refs_of m q"
proof -
  have "\<exists>m' n. mark_pages ps m = Val (m', n) \<and> pb_inv m' \<and> pb_total m' = pb_total m \<and>
      pb_base m' = pb_base m \<and>
      (\<forall>q < pb_total m. page_busy m' q \<longleftrightarrow> page_busy m q \<or> q \<in> set ps) \<and>
      (\<forall>q < pb_total m. refs_of m' q = refs_of m q)"
    using assms
  proof (induction ps arbitrary: m)
    case Nil
    then show ?case by simp
  next
    case (Cons p ps)
    define hit where "hit \<longleftrightarrow> p < pb_total m \<and> \<not> page_busy m p"
    define m1 where "m1 = (if hit then taken p 0 (pb_cursor m) m else m)"
    have mark: "mark_busy p m = Val (m1, hit)"
      by (simp add: mark_busy_Val [OF Cons.prems] m1_def hit_def)
    have inv1: "pb_inv m1"
      using Cons.prems pb_inv_taken [OF Cons.prems, of p] by (simp add: m1_def hit_def)
    have busy1: "page_busy m1 q \<longleftrightarrow> page_busy m q \<or> q = p" if "q < pb_total m" for q
      using that taken_busy [OF pb_word_index [OF Cons.prems]] by (auto simp: m1_def hit_def)
    have "refs_of m p = 0" if hit using Cons.prems that by (auto simp: pb_inv_def hit_def)
    then have refs1: "refs_of m1 q = refs_of m q" for q
      using taken_refs [OF pb_ref_index [OF Cons.prems]] by (auto simp: m1_def hit_def)
    have geom: "pb_total m1 = pb_total m" "pb_base m1 = pb_base m" by (simp_all add: m1_def)
    from Cons.IH [OF inv1] mark show ?case
      by (auto simp: geom busy1 refs1)
  qed
  then show thesis using that by blast
qed

lemma mark_absolute_ok:
  assumes inv: "pb_inv m" and cap: "pb_total m \<le> MAX_PAGES"
  obtains m' n where "mark_absolute_range_busy lo hi m = Val (m', n)" "pb_inv m'"
    "pb_total m' = pb_total m" "pb_base m' = pb_base m"
    "\<And>q. q < pb_total m \<Longrightarrow> page_busy m' q \<longleftrightarrow> page_busy m q \<or> page_meets lo hi q"
    "\<And>q. q < pb_total m \<Longrightarrow> refs_of m' q = refs_of m q"
proof -
  let ?stop = "RAM_BASE + pb_total m * PAGE_SIZE"
  have sat: "sat_add RAM_BASE (sat_mul (pb_total m) PAGE_SIZE) = ?stop"
    using cap by (simp add: sat_add_def sat_mul_def RAM_BASE_def PAGE_SIZE_def MAX_PAGES_def)
  let ?s = "max lo RAM_BASE" and ?e = "min hi ?stop"
  have pend: "page_start (q + 1) \<le> ?stop" if "q < pb_total m" for q
  proof -
    have "(q + 1) * PAGE_SIZE \<le> pb_total m * PAGE_SIZE" using that by (intro mult_le_mono1) simp
    then show ?thesis unfolding page_start_def by simp
  qed
  have ps: "RAM_BASE \<le> page_start q" "page_start q < page_start (q + 1)" for q
    by (simp_all add: page_start_def)
  show thesis
  proof (cases "hi \<le> lo \<or> hi \<le> RAM_BASE \<or> ?e \<le> ?s")
    case True
    then have eq: "mark_absolute_range_busy lo hi m = Val (m, 0)"
      using sat by (auto simp: mark_absolute_range_busy_def Let_def)
    have "\<not> page_meets lo hi q" if "q < pb_total m" for q
      using True pend [OF that] ps [of q] by (auto simp: page_meets_def ranges_overlap_def)
    then show thesis using that [OF eq inv] by auto
  next
    case False
    let ?ps = "[(?s - RAM_BASE) div PAGE_SIZE ..< min (div_ceil (?e - RAM_BASE) PAGE_SIZE) (pb_total m)]"
    have eq: "mark_absolute_range_busy lo hi m = mark_pages ?ps m"
      using False sat by (simp add: mark_absolute_range_busy_def Let_def)
    have mem: "q \<in> set ?ps \<longleftrightarrow> page_meets lo hi q" if q: "q < pb_total m" for q
    proof -
      have "q \<in> set ?ps \<longleftrightarrow> ?s - RAM_BASE < (q + 1) * PAGE_SIZE \<and> q * PAGE_SIZE < ?e - RAM_BASE"
        using q by (simp add: div_le_page less_div_ceil)
      also have "\<dots> \<longleftrightarrow> lo < page_start (q + 1) \<and> page_start q < hi"
        unfolding page_start_def
        by (rule clip_range) (use pend [OF q] in \<open>simp_all add: page_start_def\<close>)
      finally show ?thesis using False by (auto simp: page_meets_def ranges_overlap_def)
    qed
    obtain m' n where "mark_pages ?ps m = Val (m', n)" "pb_inv m'" "pb_total m' = pb_total m"
        "pb_base m' = pb_base m"
        "\<And>q. q < pb_total m \<Longrightarrow> page_busy m' q \<longleftrightarrow> page_busy m q \<or> q \<in> set ?ps"
        "\<And>q. q < pb_total m \<Longrightarrow> refs_of m' q = refs_of m q"
      using mark_pages_ok [OF inv, of ?ps] by blast
    then show thesis using that [of m' n] eq mem by simp
  qed
qed

lemma mark_pstore_ok:
  assumes inv: "pb_inv m"
  obtains m' where "mark_pstore_busy m = Val m'" "pb_inv m'"
    "pb_total m' = pb_total m" "pb_base m' = pb_base m"
    "\<And>q. q < pb_total m \<Longrightarrow> page_busy m' q \<longleftrightarrow>
       page_busy m q \<or> page_meets PSTORE_BASE (PSTORE_BASE + PSTORE_SIZE) q"
    "\<And>q. q < pb_total m \<Longrightarrow> refs_of m' q = refs_of m q"
proof -
  define ps where "ps = [PSTORE_BASE_REL div PAGE_SIZE..<PSTORE_BASE_REL div PAGE_SIZE + PSTORE_PAGES]"
  have mem: "q \<in> set ps \<longleftrightarrow> page_meets PSTORE_BASE (PSTORE_BASE + PSTORE_SIZE) q" for q
    unfolding ps_def set_upt
    by (auto simp: page_meets_def ranges_overlap_def page_start_def PSTORE_BASE_def
        PSTORE_BASE_REL_def PSTORE_SIZE_def PSTORE_PAGES_def PAGE_SIZE_def RAM_BASE_def)
  have eq: "mark_pstore_busy m = obind (mark_pages ps m) (\<lambda>(m, n). Val m)"
    by (simp add: mark_pstore_busy_def Let_def ps_def)
  obtain m' n where "mark_pages ps m = Val (m', n)" "pb_inv m'"
      "pb_total m' = pb_total m" "pb_base m' = pb_base m"
      "\<And>q. q < pb_total m \<Longrightarrow> page_busy m' q \<longleftrightarrow> page_busy m q \<or> q \<in> set ps"
      "\<And>q. q < pb_total m \<Longrightarrow> refs_of m' q = refs_of m q"
    using mark_pages_ok [OF inv] by blast
  then show thesis using that [of m'] mem eq by simp
qed

section \<open>The hole scan is exact\<close>

text \<open>What the sink validates, plus that no region wraps around the address space.\<close>

fun regions_ok :: "nat \<Rightarrow> (nat \<times> nat) list \<Rightarrow> bool" where
  "regions_ok lo [] \<longleftrightarrow> True"
| "regions_ok lo ((b, l) # rs) \<longleftrightarrow> lo \<le> b \<and> 0 < l \<and> b + l < 2 ^ 64 \<and> regions_ok (b + l) rs"

lemma regions_ok_mono: "regions_ok lo rs \<Longrightarrow> lo' \<le> lo \<Longrightarrow> regions_ok lo' rs"
  by (cases rs) auto

lemma regions_ok_page_in: "regions_ok lo rs \<Longrightarrow> page_in rs q \<Longrightarrow> lo \<le> page_start q"
proof (induction lo rs rule: regions_ok.induct)
  case (2 lo b l rs)
  then show ?case using regions_ok_mono [of "b + l" rs lo] by auto
qed simp

lemma read_entries_ok:
  "read_entries raw n i lo out = Some regs \<Longrightarrow>
   \<exists>new. regs = out @ new \<and> ((\<forall>(b, l) \<in> set new. b + l < 2 ^ 64) \<longrightarrow> regions_ok lo new)"
proof (induction raw n i lo out rule: read_entries.induct)
  case (2 raw n i lo out)
  let ?off = "MEMMAP_HEADER + i * MEMMAP_ENTRY"
  let ?b = "rd_u64 raw ?off" and ?l = "rd_u64 raw (?off + 8)"
  from 2(2) have ok: "?l \<noteq> 0" "lo \<le> ?b"
      "read_entries raw n (i + 1) (sat_add ?b ?l) (out @ [(?b, ?l)]) = Some regs"
      "\<not> (?l = 0 \<or> ?b < lo \<or> MAX_MEMMAP_REGIONS \<le> length out)"
    by (auto simp: Let_def split: if_splits)
  from 2(1) [OF refl refl refl ok(4) ok(3)] obtain new where
      new: "regs = (out @ [(?b, ?l)]) @ new"
      "(\<forall>(b, l) \<in> set new. b + l < 2 ^ 64) \<longrightarrow> regions_ok (sat_add ?b ?l) new" by blast
  moreover have "sat_add ?b ?l = ?b + ?l" if "?b + ?l < 2 ^ 64" using that by (simp add: sat_add_def)
  ultimately show ?case using ok(1,2) by (intro exI [of _ "(?b, ?l) # new"]) auto
qed simp

lemma hole_step_ok:
  assumes inv: "pb_inv m" and tot: "pb_total m = tot" and len: "b + l < 2 ^ 64"
  obtains m' S E where "hole_step tot top_rel (b, l) c m = Val (m', max c E)" "pb_inv m'"
    "pb_total m' = tot" "pb_base m' = pb_base m"
    "\<And>q. q < tot \<Longrightarrow> refs_of m' q = refs_of m q"
    "\<And>q. q < tot \<Longrightarrow> page_busy m' q \<longleftrightarrow> page_busy m q \<or> (c \<le> q \<and> q < S)"
    "\<And>q. (q + 1) * PAGE_SIZE \<le> top_rel \<Longrightarrow>
       (b \<le> page_start q \<and> page_start (q + 1) \<le> b + l \<longleftrightarrow> S \<le> q \<and> q < E)"
    "\<And>q. b \<le> page_start q \<Longrightarrow> S \<le> q"
proof -
  let ?rs = "max b RAM_BASE" and ?re = "min (b + l) (RAM_BASE + top_rel)"
  have arith: "wrap_add b l = b + l" "sat_add b l = b + l"
    using len by (simp_all add: wrap_add_def sat_add_def)
  show thesis
  proof (cases "b + l \<le> RAM_BASE \<or> RAM_BASE + top_rel \<le> b \<or> ?re \<le> ?rs")
    case True
    then have eq: "hole_step tot top_rel (b, l) c m = Val (m, max c 0)"
      using arith by (auto simp: hole_step_def Let_def)
    have "\<not> (b \<le> page_start q \<and> page_start (q + 1) \<le> b + l)" if "(q + 1) * PAGE_SIZE \<le> top_rel" for q
      using True that by (auto simp: page_start_def PAGE_SIZE_def max_def min_def split: if_splits)
    then show thesis using that [OF eq inv tot refl, of 0] by auto
  next
    case False
    define S where "S = div_ceil (?rs - RAM_BASE) PAGE_SIZE"
    define E where "E = (?re - RAM_BASE) div PAGE_SIZE"
    define ps where "ps = [c..<min S tot]"
    have eq: "hole_step tot top_rel (b, l) c m =
        obind (mark_pages ps m) (\<lambda>(m, n). Val (m, max c E))"
      using False arith by (simp add: hole_step_def Let_def S_def E_def ps_def)
    have "q < S \<longleftrightarrow> page_start q < b" for q
      using less_div_ceil [OF PAGE_SIZE_pos, of q "?rs - RAM_BASE"]
      by (auto simp: S_def page_start_def max_def)
    then have S: "S \<le> q \<longleftrightarrow> b \<le> page_start q" for q by (metis not_less)
    have E: "q < E \<longleftrightarrow> page_start (q + 1) \<le> b + l" if "(q + 1) * PAGE_SIZE \<le> top_rel" for q
      using less_div_page [OF PAGE_SIZE_pos, of q "?re - RAM_BASE"] that False
      by (auto simp: E_def page_start_def)
    obtain m' n where "mark_pages ps m = Val (m', n)" "pb_inv m'" "pb_total m' = tot"
        "pb_base m' = pb_base m"
        "\<And>q. q < tot \<Longrightarrow> page_busy m' q \<longleftrightarrow> page_busy m q \<or> q \<in> set ps"
        "\<And>q. q < tot \<Longrightarrow> refs_of m' q = refs_of m q"
      using mark_pages_ok [OF inv] unfolding tot by blast
    then show thesis using that [of m' E S] eq S E by (simp add: ps_def)
  qed
qed

lemma scan_holes_exact:
  assumes "pb_inv m" and "pb_total m = tot" and "regions_ok lo rs"
  shows "\<exists>m'. scan_holes tot top_rel rs c m = Val m' \<and> pb_inv m' \<and> pb_total m' = tot \<and>
    pb_base m' = pb_base m \<and> (\<forall>q < tot. refs_of m' q = refs_of m q) \<and>
    (\<forall>q < tot. page_busy m q \<longrightarrow> page_busy m' q) \<and>
    (\<forall>q < tot. (q + 1) * PAGE_SIZE \<le> top_rel \<longrightarrow>
       (page_busy m' q \<longleftrightarrow> page_busy m q \<or> (c \<le> q \<and> \<not> page_in rs q)))"
  using assms
proof (induction rs arbitrary: m c lo)
  case Nil
  define ps where "ps = [c..<tot]"
  obtain m' n where "mark_pages ps m = Val (m', n)" "pb_inv m'" "pb_total m' = tot"
      "pb_base m' = pb_base m"
      "\<And>q. q < tot \<Longrightarrow> page_busy m' q \<longleftrightarrow> page_busy m q \<or> q \<in> set ps"
      "\<And>q. q < tot \<Longrightarrow> refs_of m' q = refs_of m q"
    using mark_pages_ok [OF Nil(1), of ps] unfolding Nil(2) by blast
  moreover have "scan_holes tot top_rel [] c m = obind (mark_pages ps m) (\<lambda>(m, n). Val m)"
    by (simp add: ps_def)
  moreover have "q \<in> set ps \<longleftrightarrow> c \<le> q" if "q < tot" for q using that by (simp add: ps_def)
  ultimately show ?case by (intro exI [of _ m'] conjI allI impI) simp_all
next
  case (Cons r rs)
  obtain b l where r: "r = (b, l)" by (cases r)
  from Cons.prems(3) have ok: "b + l < 2 ^ 64" "regions_ok (b + l) rs" by (auto simp: r)
  obtain m1 S E where step: "hole_step tot top_rel (b, l) c m = Val (m1, max c E)" "pb_inv m1"
      "pb_total m1 = tot" "pb_base m1 = pb_base m"
    and refs1: "\<And>q. q < tot \<Longrightarrow> refs_of m1 q = refs_of m q"
    and busy1: "\<And>q. q < tot \<Longrightarrow> page_busy m1 q \<longleftrightarrow> page_busy m q \<or> (c \<le> q \<and> q < S)"
    and inr: "\<And>q. (q + 1) * PAGE_SIZE \<le> top_rel \<Longrightarrow>
       (b \<le> page_start q \<and> page_start (q + 1) \<le> b + l \<longleftrightarrow> S \<le> q \<and> q < E)"
    and low: "\<And>q. b \<le> page_start q \<Longrightarrow> S \<le> q"
    by (rule hole_step_ok [OF Cons.prems(1,2) ok(1), of top_rel c]) (rule that)
  have later: "S \<le> q" if "page_in rs q" for q
    using regions_ok_page_in [OF ok(2) that] low by simp
  obtain m' where m': "scan_holes tot top_rel rs (max c E) m1 = Val m'" "pb_inv m'" "pb_total m' = tot"
      "pb_base m' = pb_base m1" "\<And>q. q < tot \<Longrightarrow> refs_of m' q = refs_of m1 q"
      "\<And>q. q < tot \<Longrightarrow> page_busy m1 q \<Longrightarrow> page_busy m' q"
      "\<And>q. q < tot \<Longrightarrow> (q + 1) * PAGE_SIZE \<le> top_rel \<Longrightarrow>
         page_busy m' q \<longleftrightarrow> page_busy m1 q \<or> (max c E \<le> q \<and> \<not> page_in rs q)"
    using Cons.IH [OF step(2,3) ok(2), of "max c E"] by blast
  have main: "page_busy m' q \<longleftrightarrow> page_busy m q \<or> (c \<le> q \<and> \<not> page_in (r # rs) q)"
    if "q < tot" "(q + 1) * PAGE_SIZE \<le> top_rel" for q
  proof -
    have "page_in (r # rs) q \<longleftrightarrow> (S \<le> q \<and> q < E) \<or> page_in rs q"
      using inr [OF that(2)] by (simp add: r)
    then show ?thesis
      unfolding m'(7) [OF that] busy1 [OF that(1)] using later [of q] by fastforce
  qed
  have "scan_holes tot top_rel (r # rs) c m = Val m'" using step(1) m'(1) by (simp add: r)
  with m'(2,3) show ?case
    by (intro exI [of _ m'] conjI allI impI) (use m'(4-6) step(4) refs1 busy1 main in auto)
qed

section \<open>Both initialisation paths\<close>

lemma top_of_regions_le: "t \<le> MAX_PAGES * PAGE_SIZE \<Longrightarrow> top_of_regions rs t \<le> MAX_PAGES * PAGE_SIZE"
  by (induction rs t rule: top_of_regions.induct) simp_all

text \<open>The pages below the top: those that end inside or below a region that starts in RAM.\<close>

definition page_below :: "(nat \<times> nat) list \<Rightarrow> nat \<Rightarrow> bool" where
  "page_below rs q \<longleftrightarrow> (\<exists>(b, l) \<in> set rs. RAM_BASE \<le> b \<and> page_start (q + 1) \<le> b + l)"

lemma below_top:
  assumes "\<forall>(b, l) \<in> set rs. b + l < 2 ^ 64"
  shows "(q + 1) * PAGE_SIZE \<le> top_of_regions rs t \<longleftrightarrow> (q + 1) * PAGE_SIZE \<le> t \<or> q < MAX_PAGES \<and> page_below rs q"
  using assms
proof (induction rs t rule: top_of_regions.induct)
  case (2 b l rs t)
  have sat: "sat_add (b - RAM_BASE) l = b - RAM_BASE + l" using 2(2) by (auto simp: sat_add_def min_def)
  have cap: "(q + 1) * PAGE_SIZE \<le> MAX_PAGES * PAGE_SIZE \<longleftrightarrow> q < MAX_PAGES"
    unfolding mult_le_cancel2 using PAGE_SIZE_pos by linarith
  have reg: "(q + 1) * PAGE_SIZE \<le> b - RAM_BASE + l \<longleftrightarrow> page_start (q + 1) \<le> b + l" if "RAM_BASE \<le> b"
    using that by (auto simp: page_start_def)
  have IH: "(q + 1) * PAGE_SIZE \<le> top_of_regions rs t' \<longleftrightarrow> (q + 1) * PAGE_SIZE \<le> t' \<or> q < MAX_PAGES \<and> page_below rs q"
    if "t' = (if RAM_BASE \<le> b then max t (min (sat_add (b - RAM_BASE) l) (MAX_PAGES * PAGE_SIZE)) else t)" for t'
    using 2(1) 2(2) that by simp
  show ?case
  proof (cases "RAM_BASE \<le> b")
    case True
    have "(q + 1) * PAGE_SIZE \<le> max t (min (sat_add (b - RAM_BASE) l) (MAX_PAGES * PAGE_SIZE)) \<longleftrightarrow>
        (q + 1) * PAGE_SIZE \<le> t \<or> page_start (q + 1) \<le> b + l \<and> q < MAX_PAGES"
      unfolding le_max_iff_disj min.bounded_iff sat cap reg [OF True] ..
    then show ?thesis using IH [OF refl] True by (auto simp: page_below_def)
  next
    case False
    then show ?thesis using IH [OF refl] by (auto simp: page_below_def)
  qed
qed (simp add: page_below_def)

lemma storage_lengths:
  "length BITMAP_WORDS * 64 = MAX_PAGES" "length REF_COUNTS = MAX_PAGES"
  by (simp_all add: BITMAP_WORDS_def REF_COUNTS_def MAX_PAGES_def)

lemma pb_init_storage:
  assumes "0 < tot" "tot \<le> MAX_PAGES"
  obtains m where "pb_init BITMAP_WORDS REF_COUNTS RAM_BASE tot reserved m0 = Val m" "pb_inv m"
    "pb_total m = tot" "pb_base m = RAM_BASE"
    "\<And>p. p < tot \<Longrightarrow> page_busy m p \<longleftrightarrow> p < max reserved 1" "\<And>p. p < tot \<Longrightarrow> refs_of m p = 0"
proof -
  obtain m where m: "pb_init BITMAP_WORDS REF_COUNTS RAM_BASE tot reserved m0 = Val m"
    using assms by (auto simp: pb_init_def Let_def storage_lengths)
  from pb_init_inv [OF this assms(1)] show thesis using that [OF m] by auto
qed

text \<open>The state both paths reach from a fresh bitmap: counts are zero and the allocatable pages, below
  the total and not busy, are those the predicate \<open>ok\<close> admits.\<close>

definition inits_to :: "phys_bitmap outcome \<Rightarrow> (nat \<Rightarrow> bool) \<Rightarrow> bool" where
  "inits_to r ok \<longleftrightarrow> (\<exists>m. r = Val m \<and> pb_inv m \<and> pb_base m = RAM_BASE \<and>
     (\<forall>p < pb_total m. refs_of m p = 0) \<and> (\<forall>p. p < pb_total m \<and> \<not> page_busy m p \<longleftrightarrow> ok p))"

lemma init_from_regions_exact_ok:
  assumes ok: "regions_ok 0 regions" and len: "\<forall>(b, l) \<in> set regions. b + l < 2 ^ 64"
  shows "inits_to (init_from_regions_exact regions ks ke m0) (\<lambda>p. 0 < p \<and> p < MAX_PAGES \<and> page_below regions p \<and> page_in regions p \<and>
    \<not> page_meets ks ke p \<and> \<not> page_meets PSTORE_BASE (PSTORE_BASE + PSTORE_SIZE) p)"
proof -
  define top_rel where "top_rel = top_of_regions regions 0"
  define tot where "tot = max (top_rel div PAGE_SIZE) 1"
  have "top_rel \<le> MAX_PAGES * PAGE_SIZE" using top_of_regions_le [of 0 regions] by (simp add: top_rel_def)
  then have "top_rel div PAGE_SIZE \<le> MAX_PAGES" by (auto simp: div_le_page PAGE_SIZE_def)
  then have tot: "0 < tot" "tot \<le> MAX_PAGES" by (auto simp: tot_def MAX_PAGES_def)
  have inside: "(q + 1) * PAGE_SIZE \<le> top_rel" if "q < tot" "0 < q" for q
    using that less_div_page [OF PAGE_SIZE_pos, of q top_rel] by (auto simp: tot_def)
  obtain m1 where m1: "pb_init BITMAP_WORDS REF_COUNTS RAM_BASE tot 0 m0 = Val m1" "pb_inv m1"
      "pb_total m1 = tot" "pb_base m1 = RAM_BASE"
      "\<And>p. p < tot \<Longrightarrow> page_busy m1 p \<longleftrightarrow> p < max 0 1" "\<And>p. p < tot \<Longrightarrow> refs_of m1 p = 0"
    by (rule pb_init_storage [OF tot]) (rule that)
  obtain m2 n where m2: "mark_absolute_range_busy ks ke m1 = Val (m2, n)" "pb_inv m2"
      "pb_total m2 = tot" "pb_base m2 = pb_base m1"
      "\<And>q. q < tot \<Longrightarrow> page_busy m2 q \<longleftrightarrow> page_busy m1 q \<or> page_meets ks ke q"
      "\<And>q. q < tot \<Longrightarrow> refs_of m2 q = refs_of m1 q"
    by (rule mark_absolute_ok [of m1 ks ke]) (use m1(2) tot in \<open>auto simp: m1(3)\<close>)
  obtain m3 where m3: "mark_pstore_busy m2 = Val m3" "pb_inv m3" "pb_total m3 = tot"
      "pb_base m3 = pb_base m2"
      "\<And>q. q < tot \<Longrightarrow> page_busy m3 q \<longleftrightarrow>
         page_busy m2 q \<or> page_meets PSTORE_BASE (PSTORE_BASE + PSTORE_SIZE) q"
      "\<And>q. q < tot \<Longrightarrow> refs_of m3 q = refs_of m2 q"
    by (rule mark_pstore_ok [OF m2(2), unfolded m2(3)]) (rule that)
  obtain m where m: "scan_holes tot top_rel regions 0 m3 = Val m" "pb_inv m" "pb_total m = tot"
      "pb_base m = pb_base m3" "\<And>q. q < tot \<Longrightarrow> refs_of m q = refs_of m3 q"
      "\<And>q. q < tot \<Longrightarrow> page_busy m3 q \<Longrightarrow> page_busy m q"
      "\<And>q. q < tot \<Longrightarrow> (q + 1) * PAGE_SIZE \<le> top_rel \<Longrightarrow>
         page_busy m q \<longleftrightarrow> page_busy m3 q \<or> \<not> page_in regions q"
    using scan_holes_exact [OF m3(2,3) ok, of top_rel 0] by auto
  have eq: "init_from_regions_exact regions ks ke m0 = Val m"
    unfolding init_from_regions_exact_def Let_def top_rel_def [symmetric] tot_def [symmetric]
    by (simp add: m1(1) m2(1) m3(1) m(1))
  have busy: "\<not> page_busy m p \<longleftrightarrow> 0 < p \<and> page_in regions p \<and> \<not> page_meets ks ke p \<and>
      \<not> page_meets PSTORE_BASE (PSTORE_BASE + PSTORE_SIZE) p" if p: "p < tot" for p
  proof (cases "0 < p")
    case True
    then show ?thesis using m(7) [OF p inside [OF p True]] m1(5) m2(5) m3(5) p by auto
  next
    case False
    then show ?thesis using m(6) [OF p] m1(5) m2(5) m3(5) p by auto
  qed
  moreover have "p < tot \<longleftrightarrow> p < MAX_PAGES \<and> page_below regions p" if "0 < p" for p
    using that below_top [OF len, of p 0] less_div_page [OF PAGE_SIZE_pos, of p top_rel]
    by (auto simp: tot_def top_rel_def)
  ultimately have "p < pb_total m \<and> \<not> page_busy m p \<longleftrightarrow> 0 < p \<and> p < MAX_PAGES \<and> page_below regions p \<and> page_in regions p \<and>
      \<not> page_meets ks ke p \<and> \<not> page_meets PSTORE_BASE (PSTORE_BASE + PSTORE_SIZE) p" for p
    using m(3) by blast
  then show ?thesis unfolding inits_to_def using eq m m3 m2 m1 by auto
qed

lemma legacy_init_ok:
  assumes mem: "PAGE_SIZE \<le> memory_bytes"
  shows "inits_to (obind (legacy_init memory_bytes reserved_bytes m0) (\<lambda>m.
      obind (mark_absolute_range_busy ks ke m) (\<lambda>(m', n). Val m')))
    (\<lambda>p. 0 < p \<and> p < MAX_PAGES \<and> (p + 1) * PAGE_SIZE \<le> memory_bytes \<and> reserved_pages_for reserved_bytes \<le> p \<and>
      \<not> page_meets ks ke p \<and> \<not> page_meets PSTORE_BASE (PSTORE_BASE + PSTORE_SIZE) p)"
proof -
  define tot where "tot = min (memory_bytes div PAGE_SIZE) MAX_PAGES"
  define res where "res = max (min (reserved_pages_for reserved_bytes) tot) 1"
  have tot: "0 < tot" "tot \<le> MAX_PAGES"
    using mem by (auto simp: tot_def MAX_PAGES_def less_div_page)
  obtain m1 where m1: "pb_init BITMAP_WORDS REF_COUNTS RAM_BASE tot res m0 = Val m1" "pb_inv m1"
      "pb_total m1 = tot" "pb_base m1 = RAM_BASE"
      "\<And>p. p < tot \<Longrightarrow> page_busy m1 p \<longleftrightarrow> p < max res 1" "\<And>p. p < tot \<Longrightarrow> refs_of m1 p = 0"
    by (rule pb_init_storage [OF tot]) (rule that)
  obtain m2 where m2: "mark_pstore_busy m1 = Val m2" "pb_inv m2" "pb_total m2 = tot"
      "pb_base m2 = pb_base m1"
      "\<And>q. q < tot \<Longrightarrow> page_busy m2 q \<longleftrightarrow>
         page_busy m1 q \<or> page_meets PSTORE_BASE (PSTORE_BASE + PSTORE_SIZE) q"
      "\<And>q. q < tot \<Longrightarrow> refs_of m2 q = refs_of m1 q"
    by (rule mark_pstore_ok [OF m1(2), unfolded m1(3)]) (rule that)
  obtain m n where m: "mark_absolute_range_busy ks ke m2 = Val (m, n)" "pb_inv m"
      "pb_total m = tot" "pb_base m = pb_base m2"
      "\<And>q. q < tot \<Longrightarrow> page_busy m q \<longleftrightarrow> page_busy m2 q \<or> page_meets ks ke q"
      "\<And>q. q < tot \<Longrightarrow> refs_of m q = refs_of m2 q"
    by (rule mark_absolute_ok [of m2 ks ke]) (use m2(2) tot in \<open>auto simp: m2(3)\<close>)
  have "legacy_init memory_bytes reserved_bytes m0 = Val m2"
    unfolding legacy_init_def Let_def tot_def [symmetric] res_def [symmetric]
    by (simp add: m1(1) m2(1))
  moreover have "p < max res 1 \<longleftrightarrow> \<not> (0 < p \<and> reserved_pages_for reserved_bytes \<le> p)" if "p < tot" for p
    using that by (auto simp: res_def)
  moreover have "p < tot \<longleftrightarrow> p < MAX_PAGES \<and> (p + 1) * PAGE_SIZE \<le> memory_bytes" for p
    using less_div_page [OF PAGE_SIZE_pos, of p memory_bytes] by (auto simp: tot_def)
  ultimately show ?thesis unfolding inits_to_def using m m1 m2 by auto
qed

section \<open>Properties\<close>

text \<open>
  C6: boot-time initialisation makes exactly the usable pages allocatable, that is, counted in the
  total and not busy. On the memory-map path a page is allocatable iff it is not page 0, is below the
  capacity of the bitmap, lies wholly inside one of the regions the sink lists, ends no later than some
  region that starts in RAM (the total is computed from those), and meets neither the kernel image nor
  the crash-log window; on the fallback path iff it is not page 0, is below the capacity, lies above the
  reserved prefix and wholly inside the installed memory, and meets neither of the two. All reference
  counts are zero and the bitmap invariant holds. No region of the sink wraps around the address space,
  and on the fallback path there is at least one page of memory.
\<close>

theorem phys_init_exact:
  assumes fresh: "\<not> ps_initialised st"
    and input: "case read_memory_map_sink sink of
        Some regions \<Rightarrow> \<forall>(b, l) \<in> set regions. b + l < 2 ^ 64
      | None \<Rightarrow> PAGE_SIZE \<le> memory_bytes"
  shows "\<exists>m. init_with_kernel_range sink memory_bytes reserved_bytes ks ke st =
      Val (st\<lparr>ps_initialised := True, ps_mm := m\<rparr>) \<and>
    pb_inv m \<and> pb_base m = RAM_BASE \<and> (\<forall>p < pb_total m. refs_of m p = 0) \<and>
    (\<forall>p. p < pb_total m \<and> \<not> page_busy m p \<longleftrightarrow> 0 < p \<and> p < MAX_PAGES \<and>
        (case read_memory_map_sink sink of
           Some regions \<Rightarrow>
             (\<exists>(b, l) \<in> set regions. b \<le> page_start p \<and> page_start (p + 1) \<le> b + l) \<and>
             (\<exists>(b, l) \<in> set regions. RAM_BASE \<le> b \<and> page_start (p + 1) \<le> b + l)
         | None \<Rightarrow> reserved_bytes \<le> p * PAGE_SIZE \<and> (p + 1) * PAGE_SIZE \<le> memory_bytes) \<and>
        \<not> page_meets ks ke p \<and> \<not> page_meets PSTORE_BASE (PSTORE_BASE + PSTORE_SIZE) p)"
proof (cases "read_memory_map_sink sink")
  case None
  have res: "reserved_pages_for reserved_bytes \<le> p \<longleftrightarrow> reserved_bytes \<le> p * PAGE_SIZE" for p
    unfolding reserved_pages_for_def using less_div_ceil [OF PAGE_SIZE_pos, of p reserved_bytes]
    by (metis not_le)
  show ?thesis
    using legacy_init_ok [of memory_bytes reserved_bytes "ps_mm st" ks ke] None input fresh
    by (auto simp: inits_to_def init_with_kernel_range_def res)
next
  case (Some regions)
  then have "\<exists>n. read_entries sink n 0 0 [] = Some regions"
    by (auto simp: read_memory_map_sink_def Let_def split: if_splits)
  then have "regions_ok 0 regions" using read_entries_ok [of sink _ 0 0 "[]" regions] input Some by auto
  moreover have "\<forall>(b, l) \<in> set regions. b + l < 2 ^ 64" using input Some by simp
  ultimately have "inits_to (init_from_regions_exact regions ks ke (ps_mm st)) (\<lambda>p. 0 < p \<and> p < MAX_PAGES \<and> page_below regions p \<and>
      page_in regions p \<and> \<not> page_meets ks ke p \<and> \<not> page_meets PSTORE_BASE (PSTORE_BASE + PSTORE_SIZE) p)"
    by (rule init_from_regions_exact_ok)
  then obtain m where "init_from_regions_exact regions ks ke (ps_mm st) = Val m" "pb_inv m" "pb_base m = RAM_BASE"
      "\<forall>p < pb_total m. refs_of m p = 0"
      "\<And>p. p < pb_total m \<and> \<not> page_busy m p \<longleftrightarrow> 0 < p \<and> p < MAX_PAGES \<and> page_below regions p \<and> page_in regions p \<and>
        \<not> page_meets ks ke p \<and> \<not> page_meets PSTORE_BASE (PSTORE_BASE + PSTORE_SIZE) p"
    unfolding inits_to_def by blast
  then show ?thesis using Some fresh
    by (intro exI [of _ m] conjI allI) (auto simp: init_with_kernel_range_def page_in_def page_below_def)
qed

text \<open>A sink that lists one mebibyte at the start of RAM.\<close>

definition small_sink :: bytes where
  "small_sink = to_le 8 MEMMAP_MAGIC @ to_le 8 1 @ to_le 8 RAM_BASE @ to_le 8 0x100000 @ replicate 4064 0"

lemma small_sink_read: "read_memory_map_sink small_sink = Some [(RAM_BASE, 0x100000)]"
  by (simp add: read_memory_map_sink_def small_sink_def rd_u64_def MEMMAP_MAGIC_def Let_def
      MAX_MEMMAP_REGIONS_def MEMMAP_HEADER_def MEMMAP_ENTRY_def RAM_BASE_def)

theorem phys_init_exact_witness:
  "\<exists>m. init_with_kernel_range small_sink 0 0 0x40000000 0x40010000
      \<lparr>ps_mm = pb_empty, ps_initialised = False, ps_page_table_pages = 0\<rparr> =
      Val \<lparr>ps_mm = m, ps_initialised = True, ps_page_table_pages = 0\<rparr> \<and> pb_inv m \<and>
    (\<forall>p. p < pb_total m \<and> \<not> page_busy m p \<longrightarrow> 16 \<le> p \<and> p < 256)"
proof -
  let ?st = "\<lparr>ps_mm = pb_empty, ps_initialised = False, ps_page_table_pages = 0\<rparr> :: phys_state"
  have "16 \<le> p" if "\<not> page_meets 0x40000000 0x40010000 p" for p
    using that by (auto simp: page_meets_def ranges_overlap_def page_start_def RAM_BASE_def PAGE_SIZE_def)
  moreover have "p < 256" if "page_start (p + 1) \<le> RAM_BASE + 0x100000" for p
    using that by (simp add: page_start_def PAGE_SIZE_def)
  moreover have "\<not> ps_initialised ?st" by simp
  moreover have "case read_memory_map_sink small_sink of
        Some regions \<Rightarrow> \<forall>(b, l) \<in> set regions. b + l < 2 ^ 64
      | None \<Rightarrow> PAGE_SIZE \<le> 0"
    by (simp add: small_sink_read RAM_BASE_def)
  ultimately show ?thesis
    using phys_init_exact [where st = ?st and sink = small_sink and memory_bytes = 0
        and reserved_bytes = 0 and ks = "0x40000000" and ke = "0x40010000"]
    by (auto simp: small_sink_read)
qed

end
