(* ===== verification/Ring_Buffer.thy ===== *)
theory Ring_Buffer
  imports Zero_Prelude "HOL-Library.Multiset"
begin

text \<open>
  The kernel keeps its queues in fixed arrays used as rings (\<open>head\<close>, \<open>tail\<close>, \<open>len\<close>): the
  message queue of a channel in \<open>ipc.rs\<close> and each level of the run queue in \<open>scheduler.rs\<close>.
  This theory relates a ring to the list it holds, and states what the clients of such a queue
  rely on as the locale \<open>selective_queue\<close>: push appends if there is room, pop removes the first
  entry the consumer is eligible for and keeps the order of the rest.
\<close>

section \<open>Rings as lists\<close>

definition ring_items :: "'a list \<Rightarrow> nat \<Rightarrow> nat \<Rightarrow> 'a list" where
  "ring_items buf head len = map (\<lambda>i. buf ! ((head + i) mod length buf)) [0..<len]"

definition ring_wf :: "'a list \<Rightarrow> nat \<Rightarrow> nat \<Rightarrow> nat \<Rightarrow> bool" where
  "ring_wf buf head tail len \<longleftrightarrow>
     head < length buf \<and> len \<le> length buf \<and> tail = (head + len) mod length buf"

lemma length_ring_items [simp]: "length (ring_items buf head len) = len"
  by (simp add: ring_items_def)

lemma ring_items_nth: "i < len \<Longrightarrow> ring_items buf head len ! i = buf ! ((head + i) mod length buf)"
  by (simp add: ring_items_def)

lemma ring_index_le:
  fixes h i j n :: nat
  assumes "(h + i) mod n = (h + j) mod n" and "i \<le> j" and "j < n"
  shows "i = j"
proof -
  have "n dvd (h + j) - (h + i)"
    using assms(1,2) by (subst mod_eq_dvd_iff_nat [symmetric]) auto
  with assms(2,3) show ?thesis by (auto dest: dvd_imp_le)
qed

lemma ring_index_inj:
  fixes h i j n :: nat
  assumes "(h + i) mod n = (h + j) mod n" and "i < n" and "j < n"
  shows "i = j"
  using assms ring_index_le [of h i n j] ring_index_le [of h j n i] by (cases "i \<le> j") auto

lemma ring_push:
  assumes "ring_wf buf head tail len" and "len < length buf"
  shows "ring_items (buf[tail := x]) head (Suc len) = ring_items buf head len @ [x]"
    and "ring_wf (buf[tail := x]) head ((tail + 1) mod length buf) (Suc len)"
proof -
  have "tail \<noteq> (head + i) mod length buf" if "i < len" for i
    using ring_index_inj [of head i "length buf" len] that assms by (auto simp: ring_wf_def)
  moreover have "tail < length buf" using assms by (auto simp: ring_wf_def intro!: mod_less_divisor)
  ultimately show "ring_items (buf[tail := x]) head (Suc len) = ring_items buf head len @ [x]"
    by (simp add: ring_items_def) (use assms in \<open>simp add: ring_wf_def\<close>)
  show "ring_wf (buf[tail := x]) head ((tail + 1) mod length buf) (Suc len)"
    using assms by (simp add: ring_wf_def mod_Suc_eq)
qed

lemma ring_pop_front:
  assumes "ring_wf buf head tail len" and "0 < len"
  shows "ring_items buf head len = buf ! head # ring_items buf ((head + 1) mod length buf) (len - 1)"
    and "ring_wf buf ((head + 1) mod length buf) tail (len - 1)"
proof -
  obtain k where len: "len = Suc k" using assms(2) gr0_implies_Suc by blast
  have "ring_items buf head (Suc k) = buf ! (head mod length buf) #
      map (\<lambda>i. buf ! ((head + Suc i) mod length buf)) [0..<k]"
    by (simp add: ring_items_def upt_rec [of 0 "Suc k"] map_Suc_upt [symmetric] o_def del: upt_Suc)
  moreover have "head mod length buf = head" using assms(1) by (simp add: ring_wf_def)
  ultimately show "ring_items buf head len =
      buf ! head # ring_items buf ((head + 1) mod length buf) (len - 1)"
    by (simp add: len ring_items_def mod_add_left_eq)
  show "ring_wf buf ((head + 1) mod length buf) tail (len - 1)"
    using assms by (auto simp: ring_wf_def len mod_add_left_eq intro!: mod_less_divisor)
qed

text \<open>Writing a slot outside the live part does not change the list.\<close>

lemma ring_items_update_outside:
  assumes "\<And>i. i < len \<Longrightarrow> k \<noteq> (head + i) mod length buf"
  shows "ring_items (buf[k := x]) head len = ring_items buf head len"
  using assms by (simp add: ring_items_def)

text \<open>Compaction: entries behind offset \<open>off\<close> move one place towards the head.\<close>

definition ring_shift :: "nat \<Rightarrow> nat list \<Rightarrow> 'a list \<Rightarrow> 'a list" where
  "ring_shift head js buf =
     fold (\<lambda>j b. b[(head + j) mod length b := b ! ((head + j + 1) mod length b)]) js buf"

lemma length_ring_shift [simp]: "length (ring_shift head js buf) = length buf"
  unfolding ring_shift_def by (induction js arbitrary: buf) simp_all

lemma ring_shift_nth:
  assumes "off \<le> m" and "m < length buf" and "i < length buf"
  shows "ring_shift head [off..<m] buf ! ((head + i) mod length buf) =
    (if off \<le> i \<and> i < m then buf ! ((head + i + 1) mod length buf)
     else buf ! ((head + i) mod length buf))"
  using assms(1,2)
proof (induction m)
  case 0
  then show ?case by (simp add: ring_shift_def)
next
  case (Suc m)
  let ?n = "length buf"
  show ?case
  proof (cases "off \<le> m")
    case False
    with Suc.prems have "off = Suc m" by simp
    then have "\<not> (off \<le> i \<and> i < Suc m)" "[off..<Suc m] = []" by simp_all
    then show ?thesis by (simp only: ring_shift_def if_False fold.simps id_apply)
  next
    case True
    let ?b = "ring_shift head [off..<m] buf"
    have IH: "?b ! ((head + i) mod ?n) = (if off \<le> i \<and> i < m then buf ! ((head + i + 1) mod ?n)
        else buf ! ((head + i) mod ?n))"
      using Suc True by simp
    have step: "ring_shift head [off..<Suc m] buf =
        ?b[(head + m) mod ?n := ?b ! ((head + m + 1) mod ?n)]"
      using True length_ring_shift [of head "[off..<m]" buf] by (simp add: ring_shift_def)
    have next_nth: "?b ! ((head + m + 1) mod ?n) = buf ! ((head + m + 1) mod ?n)"
    proof -
      have ne: "(head + (m + 1)) mod ?n \<noteq> (head + j) mod ?n" if "j < m" for j
        using ring_index_inj [of head "m + 1" ?n j] that Suc.prems by auto
      have "ring_shift head [off..<k] buf ! ((head + (m + 1)) mod ?n) = buf ! ((head + (m + 1)) mod ?n)"
        if "k \<le> m" for k
        using that
      proof (induction k)
        case (Suc k)
        then show ?case
          using ne [of k] length_ring_shift [of head "[off..<k]" buf]
          by (cases "off \<le> k") (simp_all add: ring_shift_def)
      qed (simp add: ring_shift_def)
      then show ?thesis by (metis add.assoc order_refl)
    qed
    have eq: "(head + m) mod ?n = (head + i) mod ?n \<longleftrightarrow> i = m"
      using ring_index_inj [of head m ?n i] Suc.prems assms(3) by auto
    have "(head + i) mod ?n < ?n" using assms(3) by (intro mod_less_divisor) linarith
    then show ?thesis
      using True IH eq next_nth unfolding step by (cases "i = m") auto
  qed
qed

lemma ring_remove:
  assumes wf: "ring_wf buf head tail len" and off: "off < len"
  shows "ring_items (ring_shift head [off..<len - 1] buf) head (len - 1) =
      remove_nth off (ring_items buf head len)"
    and "ring_wf (ring_shift head [off..<len - 1] buf) head ((tail + length buf - 1) mod length buf) (len - 1)"
proof -
  let ?n = "length buf"
  have n: "len - 1 < ?n" "len \<le> ?n" using wf off by (auto simp: ring_wf_def)
  show "ring_items (ring_shift head [off..<len - 1] buf) head (len - 1) =
      remove_nth off (ring_items buf head len)"
  proof (rule nth_equalityI)
    fix i assume i: "i < length (ring_items (ring_shift head [off..<len - 1] buf) head (len - 1))"
    then have "i < ?n" using n by simp
    from ring_shift_nth [OF _ n(1) this, of off head] i off n show
        "ring_items (ring_shift head [off..<len - 1] buf) head (len - 1) ! i =
         remove_nth off (ring_items buf head len) ! i"
      by (auto simp: ring_items_nth remove_nth_def nth_append min_def)
  qed (use off in \<open>simp add: remove_nth_def\<close>)
  have "((head + len) mod ?n + (?n - 1)) mod ?n = (head + len + (?n - 1)) mod ?n"
    by (rule mod_add_left_eq)
  also have "head + len + (?n - 1) = head + (len - 1) + ?n" using n off by simp
  also have "\<dots> mod ?n = (head + (len - 1)) mod ?n" by (rule mod_add_self2)
  also have "(head + len) mod ?n + (?n - 1) = (head + len) mod ?n + ?n - 1" using n off by simp
  finally have "((head + len) mod ?n + ?n - 1) mod ?n = (head + (len - 1)) mod ?n" .
  then show "ring_wf (ring_shift head [off..<len - 1] buf) head ((tail + ?n - 1) mod ?n) (len - 1)"
    using wf off n by (simp add: ring_wf_def)
qed

section \<open>Selective queues\<close>

text \<open>An interleaving of producers and consumers: what was accepted and what was delivered to
  whom, in order.\<close>

datatype ('a, 'c) queue_op = Push 'a | Pop 'c

fun queue_run ::
    "('a \<Rightarrow> 'q \<Rightarrow> 'q option) \<Rightarrow> ('c \<Rightarrow> 'q \<Rightarrow> ('a \<times> 'q) option) \<Rightarrow> ('a, 'c) queue_op list \<Rightarrow> 'q
     \<Rightarrow> 'q \<times> 'a list \<times> ('c \<times> 'a) list" where
  "queue_run push pop [] q = (q, [], [])"
| "queue_run push pop (Push x # ops) q =
     (case push x q of
        None \<Rightarrow> queue_run push pop ops q
      | Some q' \<Rightarrow> let (qf, acc, del) = queue_run push pop ops q' in (qf, x # acc, del))"
| "queue_run push pop (Pop c # ops) q =
     (case pop c q of
        None \<Rightarrow> queue_run push pop ops q
      | Some (x, q') \<Rightarrow> let (qf, acc, del) = queue_run push pop ops q' in (qf, acc, (c, x) # del))"

text \<open>A class \<open>P\<close> of entries on which every consumer agrees: it may take all of them or none.\<close>

definition uniform_for :: "('c \<Rightarrow> 'a \<Rightarrow> bool) \<Rightarrow> ('a \<Rightarrow> bool) \<Rightarrow> bool" where
  "uniform_for elig P \<longleftrightarrow> (\<forall>c. (\<forall>x. P x \<longrightarrow> elig c x) \<or> (\<forall>x. P x \<longrightarrow> \<not> elig c x))"

locale selective_queue =
  fixes wf :: "'q \<Rightarrow> bool" and items :: "'q \<Rightarrow> 'a list" and cap :: nat
    and elig :: "'c \<Rightarrow> 'a \<Rightarrow> bool"
    and push :: "'a \<Rightarrow> 'q \<Rightarrow> 'q option" and pop :: "'c \<Rightarrow> 'q \<Rightarrow> ('a \<times> 'q) option"
  assumes push_full: "wf q \<Longrightarrow> push x q = None \<longleftrightarrow> cap \<le> length (items q)"
    and push_items: "wf q \<Longrightarrow> push x q = Some q' \<Longrightarrow> wf q' \<and> items q' = items q @ [x]"
    and pop_none: "wf q \<Longrightarrow> pop c q = None \<longleftrightarrow> (\<forall>x \<in> set (items q). \<not> elig c x)"
    and pop_items: "wf q \<Longrightarrow> pop c q = Some (x, q') \<Longrightarrow> wf q' \<and> elig c x \<and>
      (\<exists>us vs. items q = us @ x # vs \<and> items q' = us @ vs \<and> (\<forall>u \<in> set us. \<not> elig c u))"
begin

lemma pop_class:
  assumes "wf q" and "pop c q = Some (x, q')" and "uniform_for elig P"
  shows "filter P (items q) = filter P [x] @ filter P (items q')"
proof -
  obtain us vs where iq: "elig c x" "items q = us @ x # vs" "items q' = us @ vs"
      "\<forall>u \<in> set us. \<not> elig c u"
    using pop_items [OF assms(1,2)] by blast
  show ?thesis
  proof (cases "P x")
    case True
    then have "\<forall>y. P y \<longrightarrow> elig c y" using iq(1) assms(3) by (auto simp: uniform_for_def)
    then have "filter P us = []" using iq(4) by (auto simp: filter_empty_conv)
    with iq True show ?thesis by simp
  qed (simp add: iq)
qed

lemma run_main:
  assumes "wf q" and "queue_run push pop ops q = (q', acc, del)"
  shows "wf q' \<and> (\<forall>(c, x) \<in> set del. elig c x) \<and>
    mset (items q) + mset acc = mset (map snd del) + mset (items q') \<and>
    (\<forall>P. uniform_for elig P \<longrightarrow>
       filter P (map snd del) @ filter P (items q') = filter P (items q) @ filter P acc)"
  using assms
proof (induction ops arbitrary: q acc del)
  case (Cons op ops)
  show ?case
  proof (cases op)
    case (Push x)
    show ?thesis
    proof (cases "push x q")
      case None
      with Cons Push show ?thesis by simp
    next
      case (Some q1)
      with push_items [OF Cons.prems(1)] have q1: "wf q1" "items q1 = items q @ [x]" by auto
      obtain acc' where "acc = x # acc'" "queue_run push pop ops q1 = (q', acc', del)"
        using Cons.prems(2) Push Some by (auto split: prod.splits)
      with Cons.IH [OF q1(1)] q1(2) show ?thesis by simp
    qed
  next
    case (Pop c)
    show ?thesis
    proof (cases "pop c q")
      case None
      with Cons Pop show ?thesis by simp
    next
      case (Some r)
      then obtain x q1 where r: "pop c q = Some (x, q1)" by (cases r) auto
      from pop_items [OF Cons.prems(1) r] have q1: "wf q1" "elig c x"
          "mset (items q) = add_mset x (mset (items q1))" by auto
      obtain del' where "del = (c, x) # del'" "queue_run push pop ops q1 = (q', acc, del')"
        using Cons.prems(2) Pop r by (auto split: prod.splits)
      with Cons.IH [OF q1(1)] q1 pop_class [OF Cons.prems(1) r] show ?thesis by auto
    qed
  qed
qed simp

end

end
