(* ===== verification/Ipc.thy ===== *)
theory Ipc
  imports Ring_Buffer
begin

text \<open>
  \<open>microkernel/src/ipc.rs\<close>: the channel table, its message queues and the waiter slots of the
  blocking receive. Results are \<open>ipc_error + 'a\<close>; an operation that fails has not written the
  table, so only successes return a new one. The caller's effective capabilities, computed by
  \<open>security::effective_caps\<close>, are the argument \<open>caps\<close>.
\<close>

section \<open>Data\<close>

definition MAX_CHANNELS :: nat where "MAX_CHANNELS = 32"
definition MAX_QUEUE :: nat where "MAX_QUEUE = 16"
definition WAITERS_PER_CHANNEL :: nat where "WAITERS_PER_CHANNEL = 4"

datatype ipc_error = NotReady | ChannelBusy | Invalid | Empty | AccessDenied | PolicyDenied

record channel_desc =
  cd_id :: u32
  cd_capacity :: u32
  cd_tx_groups :: u32
  cd_rx_groups :: u32

record message =
  msg_code :: u32
  msg_payload :: bytes

definition message_empty :: message where
  "message_empty = \<lparr>msg_code = 0, msg_payload = replicate 128 0\<rparr>"

record envelope =
  env_sender :: pid
  env_target :: pid
  env_message :: message

definition envelope_EMPTY :: envelope where
  "envelope_EMPTY = \<lparr>env_sender = 0, env_target = 0, env_message = message_empty\<rparr>"

record message_queue =
  mq_buf :: "envelope list"
  mq_head :: nat
  mq_tail :: nat
  mq_len :: nat

record channel =
  ch_in_use :: bool
  ch_id :: u32
  ch_capacity :: nat
  ch_owner :: "pid option"
  ch_tx_groups :: u32
  ch_rx_groups :: u32
  ch_queue :: message_queue
  ch_waiters :: "pid option list"

type_synonym channel_table = "channel list"

section \<open>Message queue\<close>

definition mq_new :: message_queue where
  "mq_new = \<lparr>mq_buf = replicate MAX_QUEUE envelope_EMPTY, mq_head = 0, mq_tail = 0, mq_len = 0\<rparr>"

definition mq_reset :: "message_queue \<Rightarrow> message_queue" where
  "mq_reset q = q\<lparr>mq_head := 0, mq_tail := 0, mq_len := 0\<rparr>"

definition mq_push :: "envelope \<Rightarrow> nat \<Rightarrow> message_queue \<Rightarrow> ipc_error + message_queue" where
  "mq_push msg capacity q =
     (if mq_len q = capacity then Inl ChannelBusy
      else Inr (q\<lparr>mq_buf := (mq_buf q)[mq_tail q := msg],
                  mq_tail := (mq_tail q + 1) mod MAX_QUEUE, mq_len := mq_len q + 1\<rparr>))"

definition takes_envelope :: "pid \<Rightarrow> envelope \<Rightarrow> bool" where
  "takes_envelope caller e \<longleftrightarrow> env_target e = 0 \<or> (caller \<noteq> 0 \<and> env_target e = caller)"

definition mq_pop_for :: "pid \<Rightarrow> message_queue \<Rightarrow> ipc_error + (envelope \<times> message_queue)" where
  "mq_pop_for caller q =
     (if mq_len q = 0 then Inl Empty
      else
        case find (\<lambda>off. takes_envelope caller (mq_buf q ! ((mq_head q + off) mod MAX_QUEUE)))
               [0..<mq_len q] of
          None \<Rightarrow> Inl Empty
        | Some off \<Rightarrow>
            let out = mq_buf q ! ((mq_head q + off) mod MAX_QUEUE);
                buf = fold (\<lambda>j b. b[(mq_head q + j) mod MAX_QUEUE :=
                                     b ! ((mq_head q + j + 1) mod MAX_QUEUE)])
                        [off..<mq_len q - 1] (mq_buf q)
            in Inr (out, q\<lparr>mq_buf := buf, mq_tail := (mq_tail q + MAX_QUEUE - 1) mod MAX_QUEUE,
                          mq_len := mq_len q - 1\<rparr>))"

definition mq_pop :: "message_queue \<Rightarrow> ipc_error + (envelope \<times> message_queue)" where
  "mq_pop q = mq_pop_for 0 q"

section \<open>Channels\<close>

definition channel_new :: channel where
  "channel_new = \<lparr>ch_in_use = False, ch_id = 0, ch_capacity = 0, ch_owner = None,
     ch_tx_groups = 0, ch_rx_groups = 0, ch_queue = mq_new,
     ch_waiters = replicate WAITERS_PER_CHANNEL None\<rparr>"

definition channel_reset :: "channel \<Rightarrow> channel" where
  "channel_reset c = c\<lparr>ch_in_use := False, ch_id := 0, ch_capacity := 0, ch_owner := None,
     ch_tx_groups := 0, ch_rx_groups := 0, ch_queue := mq_reset (ch_queue c),
     ch_waiters := replicate WAITERS_PER_CHANNEL None\<rparr>"

definition channel_configure :: "channel_desc \<Rightarrow> pid option \<Rightarrow> channel \<Rightarrow> channel" where
  "channel_configure desc owner c = c\<lparr>ch_in_use := True, ch_id := cd_id desc,
     ch_capacity := max (min (unat (cd_capacity desc)) MAX_QUEUE) 1, ch_owner := owner,
     ch_tx_groups := cd_tx_groups desc, ch_rx_groups := cd_rx_groups desc,
     ch_queue := mq_reset (ch_queue c), ch_waiters := replicate WAITERS_PER_CHANNEL None\<rparr>"

definition pop_waiter_for :: "pid option \<Rightarrow> channel \<Rightarrow> channel \<times> pid option" where
  "pop_waiter_for target c =
     (case target of
        Some t \<Rightarrow>
          (case position (\<lambda>w. w = Some t) (ch_waiters c) of
             Some i \<Rightarrow> (c\<lparr>ch_waiters := (ch_waiters c)[i := None]\<rparr>, ch_waiters c ! i)
           | None \<Rightarrow> (c, None))
      | None \<Rightarrow>
          (case position (\<lambda>w. w \<noteq> None) (ch_waiters c) of
             Some i \<Rightarrow> (c\<lparr>ch_waiters := (ch_waiters c)[i := None]\<rparr>, ch_waiters c ! i)
           | None \<Rightarrow> (c, None)))"

definition ensure_access :: "pid \<Rightarrow> channel \<Rightarrow> ipc_error option" where
  "ensure_access caller c =
     (case ch_owner c of
        Some owner \<Rightarrow> if owner \<noteq> caller then Some AccessDenied else None
      | None \<Rightarrow> None)"

definition group_allows :: "u32 \<Rightarrow> u32 \<Rightarrow> bool" where
  "group_allows grp caller_caps \<longleftrightarrow> grp = 0 \<or> caller_caps AND grp \<noteq> 0"

definition ensure_groups :: "u32 \<Rightarrow> u32 \<Rightarrow> ipc_error option" where
  "ensure_groups grp caps = (if group_allows grp caps then None else Some PolicyDenied)"

section \<open>Channel table\<close>

definition ct_new :: channel_table where
  "ct_new = replicate MAX_CHANNELS channel_new"

definition ct_reset :: "channel_table \<Rightarrow> channel_table" where
  "ct_reset t = map channel_reset t"

definition ct_create :: "channel_desc \<Rightarrow> pid option \<Rightarrow> channel_table \<Rightarrow> ipc_error + channel_table" where
  "ct_create desc owner t =
     (if \<exists>c \<in> set t. ch_in_use c \<and> ch_id c = cd_id desc then Inl Invalid
      else
        case position (\<lambda>c. \<not> ch_in_use c) t of
          Some i \<Rightarrow> Inr (t[i := channel_configure desc owner (t ! i)])
        | None \<Rightarrow> Inl ChannelBusy)"

text \<open>The common head of the four handlers: look the channel up, then the two access gates.
  \<open>groups\<close> selects the mask.\<close>

definition ct_gate ::
    "(channel \<Rightarrow> u32) \<Rightarrow> u32 \<Rightarrow> pid \<Rightarrow> u32 \<Rightarrow> channel_table \<Rightarrow> ipc_error + nat" where
  "ct_gate groups caps caller chan t =
     (case position (\<lambda>c. ch_in_use c \<and> ch_id c = chan) t of
        None \<Rightarrow> Inl Invalid
      | Some i \<Rightarrow>
          (case ensure_access caller (t ! i) of
             Some e \<Rightarrow> Inl e
           | None \<Rightarrow>
               (case ensure_groups (groups (t ! i)) caps of
                  Some e \<Rightarrow> Inl e
                | None \<Rightarrow> Inr i)))"

definition ct_send ::
    "u32 \<Rightarrow> pid \<Rightarrow> pid option \<Rightarrow> u32 \<Rightarrow> message \<Rightarrow> channel_table \<Rightarrow> ipc_error + (channel_table \<times> pid option)"
  where
  "ct_send caps caller target chan msg t =
     (case ct_gate ch_tx_groups caps caller chan t of
        Inl e \<Rightarrow> Inl e
      | Inr i \<Rightarrow>
          let c = t ! i;
              env = \<lparr>env_sender = caller,
                     env_target = (case target of Some p \<Rightarrow> p | None \<Rightarrow> 0), env_message = msg\<rparr>
          in case mq_push env (ch_capacity c) (ch_queue c) of
               Inl e \<Rightarrow> Inl e
             | Inr q \<Rightarrow>
                 let (c', w) = pop_waiter_for target (c\<lparr>ch_queue := q\<rparr>) in Inr (t[i := c'], w))"

definition ct_receive ::
    "u32 \<Rightarrow> pid \<Rightarrow> u32 \<Rightarrow> channel_table \<Rightarrow> ipc_error + (channel_table \<times> pid \<times> message)" where
  "ct_receive caps caller chan t =
     (case ct_gate ch_rx_groups caps caller chan t of
        Inl e \<Rightarrow> Inl e
      | Inr i \<Rightarrow>
          (case mq_pop_for caller (ch_queue (t ! i)) of
             Inl e \<Rightarrow> Inl e
           | Inr (env, q) \<Rightarrow>
               Inr (t[i := (t ! i)\<lparr>ch_queue := q\<rparr>], env_sender env, env_message env)))"

text \<open>Installing a waiter: already registered is fine, otherwise the first empty slot is used.\<close>

definition add_waiter :: "pid \<Rightarrow> channel \<Rightarrow> ipc_error + channel" where
  "add_waiter caller c =
     (if Some caller \<in> set (ch_waiters c) then Inr c
      else
        case position (\<lambda>w. w = None) (ch_waiters c) of
          Some k \<Rightarrow> Inr (c\<lparr>ch_waiters := (ch_waiters c)[k := Some caller]\<rparr>)
        | None \<Rightarrow> Inl ChannelBusy)"

definition ct_receive_or_register_waiter ::
    "u32 \<Rightarrow> pid \<Rightarrow> u32 \<Rightarrow> channel_table \<Rightarrow> ipc_error + (channel_table \<times> (pid \<times> message) option)" where
  "ct_receive_or_register_waiter caps caller chan t =
     (case ct_gate ch_rx_groups caps caller chan t of
        Inl e \<Rightarrow> Inl e
      | Inr i \<Rightarrow>
          (case mq_pop_for caller (ch_queue (t ! i)) of
             Inr (env, q) \<Rightarrow>
               Inr (t[i := (t ! i)\<lparr>ch_queue := q\<rparr>], Some (env_sender env, env_message env))
           | Inl Empty \<Rightarrow>
               (case add_waiter caller (t ! i) of
                  Inl e \<Rightarrow> Inl e
                | Inr c \<Rightarrow> Inr (t[i := c], None))
           | Inl e \<Rightarrow> Inl e))"

definition ct_register_waiter ::
    "u32 \<Rightarrow> pid \<Rightarrow> u32 \<Rightarrow> channel_table \<Rightarrow> ipc_error + channel_table" where
  "ct_register_waiter caps caller chan t =
     (case ct_gate ch_rx_groups caps caller chan t of
        Inl e \<Rightarrow> Inl e
      | Inr i \<Rightarrow>
          (case add_waiter caller (t ! i) of
             Inl e \<Rightarrow> Inl e
           | Inr c \<Rightarrow> Inr (t[i := c])))"

definition ct_unregister_waiter :: "pid \<Rightarrow> u32 \<Rightarrow> channel_table \<Rightarrow> channel_table" where
  "ct_unregister_waiter caller chan t =
     (case position (\<lambda>c. ch_in_use c \<and> ch_id c = chan) t of
        None \<Rightarrow> t
      | Some i \<Rightarrow>
          t[i := (t ! i)\<lparr>ch_waiters :=
                   map (\<lambda>w. if w = Some caller then None else w) (ch_waiters (t ! i))\<rparr>])"

section \<open>Queue correctness\<close>

definition mq_items :: "message_queue \<Rightarrow> envelope list" where
  "mq_items q = ring_items (mq_buf q) (mq_head q) (mq_len q)"

definition mq_wf :: "nat \<Rightarrow> message_queue \<Rightarrow> bool" where
  "mq_wf capacity q \<longleftrightarrow> length (mq_buf q) = MAX_QUEUE \<and> capacity \<le> MAX_QUEUE \<and>
     mq_len q \<le> capacity \<and> ring_wf (mq_buf q) (mq_head q) (mq_tail q) (mq_len q)"

lemma length_mq_items [simp]: "length (mq_items q) = mq_len q"
  by (simp add: mq_items_def)

lemma mq_reset_wf: "length (mq_buf q) = MAX_QUEUE \<Longrightarrow> c \<le> MAX_QUEUE \<Longrightarrow>
    mq_wf c (mq_reset q) \<and> mq_items (mq_reset q) = []"
  by (simp add: mq_wf_def mq_reset_def ring_wf_def mq_items_def ring_items_def MAX_QUEUE_def)

lemma mq_push_Inr:
  assumes "mq_wf c q" and "mq_push x c q = Inr q'"
  shows "mq_wf c q' \<and> mq_items q' = mq_items q @ [x]"
  using assms ring_push [of "mq_buf q" "mq_head q" "mq_tail q" "mq_len q" x]
  by (auto simp: mq_push_def mq_wf_def mq_items_def split: if_splits)

lemma mq_push_Inl: "mq_push x c q = Inl e \<longleftrightarrow> mq_len q = c \<and> e = ChannelBusy"
  by (auto simp: mq_push_def)

lemma ring_shift_queue:
  "length b = MAX_QUEUE \<Longrightarrow>
   fold (\<lambda>j b. b[(h + j) mod MAX_QUEUE := b ! (Suc (h + j) mod MAX_QUEUE)]) js b = ring_shift h js b"
  unfolding ring_shift_def by (induction js arbitrary: b) simp_all

lemma mq_pop_for_Inl:
  assumes "mq_wf c q"
  shows "mq_pop_for p q = Inl e \<longleftrightarrow> e = Empty \<and> (\<forall>x \<in> set (mq_items q). \<not> takes_envelope p x)"
proof -
  have n: "length (mq_buf q) = MAX_QUEUE" using assms by (simp add: mq_wf_def)
  have "(\<forall>x \<in> set (mq_items q). \<not> takes_envelope p x) \<longleftrightarrow>
    find (\<lambda>off. takes_envelope p (mq_buf q ! ((mq_head q + off) mod MAX_QUEUE))) [0..<mq_len q] = None"
    by (auto simp: mq_items_def ring_items_def n find_None_iff)
  then show ?thesis
    by (auto simp: mq_pop_for_def Let_def split: option.splits)
qed

lemma mq_pop_for_Inr:
  assumes wf: "mq_wf c q" and pop: "mq_pop_for p q = Inr (x, q')"
  shows "mq_wf c q' \<and> takes_envelope p x \<and>
    (\<exists>us vs. mq_items q = us @ x # vs \<and> mq_items q' = us @ vs \<and> (\<forall>u \<in> set us. \<not> takes_envelope p u))"
proof -
  let ?n = MAX_QUEUE and ?h = "mq_head q" and ?l = "mq_len q"
  have n: "length (mq_buf q) = ?n" and ring: "ring_wf (mq_buf q) ?h (mq_tail q) ?l"
    using wf by (simp_all add: mq_wf_def)
  from pop obtain off where off: "off < ?l" "takes_envelope p (mq_buf q ! ((?h + off) mod ?n))"
      "\<forall>j<off. \<not> takes_envelope p (mq_buf q ! ((?h + j) mod ?n))"
    and x: "x = mq_buf q ! ((?h + off) mod ?n)"
    and q': "q' = q\<lparr>mq_buf := ring_shift ?h [off..<?l - 1] (mq_buf q),
               mq_tail := (mq_tail q + ?n - 1) mod ?n, mq_len := ?l - 1\<rparr>"
    by (auto simp: mq_pop_for_def Let_def find_Some_iff ring_shift_queue n split: option.splits if_splits)
  have items': "mq_items q' = remove_nth off (mq_items q)"
    using ring_remove(1) [OF ring off(1)] by (simp add: q' mq_items_def)
  have nth: "mq_items q ! j = mq_buf q ! ((?h + j) mod ?n)" if "j < ?l" for j
    using that by (simp add: mq_items_def ring_items_nth n)
  have "mq_items q = take off (mq_items q) @ x # drop (Suc off) (mq_items q)"
    using off(1) x nth [OF off(1)] id_take_nth_drop [of off "mq_items q"] by simp
  moreover have "\<forall>u \<in> set (take off (mq_items q)). \<not> takes_envelope p u"
    using off nth by (auto simp: in_set_conv_nth)
  moreover have "mq_wf c q'"
    using wf ring_remove(2) [OF ring off(1)] n by (auto simp: mq_wf_def q')
  ultimately show ?thesis using off(2) x items' by (metis remove_nth_def)
qed

lemma mq_full_iff: "mq_wf c q \<Longrightarrow> c \<le> mq_len q \<longleftrightarrow> mq_len q = c"
  by (auto simp: mq_wf_def)

text \<open>The interface of the queue, for every capacity, on the code's own operations.\<close>

interpretation mq: selective_queue "mq_wf cap" mq_items cap takes_envelope
    "\<lambda>x q. result_ok (mq_push x cap q)" "\<lambda>p q. result_ok (mq_pop_for p q)" for cap
  by unfold_locales
    (auto simp: result_ok_eq mq_push_Inl mq_pop_for_Inl mq_full_iff dest: mq_pop_for_Inr mq_push_Inr)

section \<open>Well-formed tables\<close>

definition ch_wf :: "channel \<Rightarrow> bool" where
  "ch_wf c \<longleftrightarrow> mq_wf (ch_capacity c) (ch_queue c) \<and> (ch_in_use c \<longrightarrow> 0 < ch_capacity c) \<and>
     length (ch_waiters c) = WAITERS_PER_CHANNEL \<and> distinct (filter (\<lambda>w. w \<noteq> None) (ch_waiters c))"

definition ct_wf :: "channel_table \<Rightarrow> bool" where
  "ct_wf t \<longleftrightarrow> length t = MAX_CHANNELS \<and> (\<forall>c \<in> set t. ch_wf c) \<and>
     (\<forall>i < length t. \<forall>j < length t. ch_in_use (t ! i) \<and> ch_in_use (t ! j) \<and> ch_id (t ! i) = ch_id (t ! j)
        \<longrightarrow> i = j)"

definition chan_at :: "channel_table \<Rightarrow> u32 \<Rightarrow> channel option" where
  "chan_at t chan = map_option (nth t) (position (\<lambda>c. ch_in_use c \<and> ch_id c = chan) t)"

text \<open>Writing back a channel that keeps its identity.\<close>

lemma chan_at_update:
  assumes "position (\<lambda>c. ch_in_use c \<and> ch_id c = chan) t = Some i"
    and "ch_in_use c'" "ch_id c' = chan"
  shows "chan_at (t[i := c']) x = (if x = chan then Some c' else chan_at t x)"
proof -
  from assms(1) have i: "i < length t" "ch_in_use (t ! i)" "ch_id (t ! i) = chan"
    by (auto simp: position_Some_iff)
  have pos: "position (\<lambda>c. ch_in_use c \<and> ch_id c = x) (t[i := c']) =
      position (\<lambda>c. ch_in_use c \<and> ch_id c = x) t"
    using assms i by (intro position_update) auto
  show ?thesis
  proof (cases "x = chan")
    case True
    then show ?thesis using assms(1) i pos by (simp add: chan_at_def)
  next
    case False
    have "map_option ((!) (t[i := c'])) (position (\<lambda>c. ch_in_use c \<and> ch_id c = x) t) =
        map_option ((!) t) (position (\<lambda>c. ch_in_use c \<and> ch_id c = x) t)"
    proof (cases "position (\<lambda>c. ch_in_use c \<and> ch_id c = x) t")
      case (Some a)
      then have "a \<noteq> i" using i False by (auto simp: position_Some_iff)
      with Some show ?thesis by simp
    qed simp
    then show ?thesis using False pos by (simp add: chan_at_def)
  qed
qed

lemma ct_wf_update:
  assumes "ct_wf t" and "i < length t" and "ch_wf c'"
    and "ch_in_use c' = ch_in_use (t ! i)" "ch_id c' = ch_id (t ! i)"
  shows "ct_wf (t[i := c'])"
proof -
  have "ch_in_use (t[i := c'] ! k) = ch_in_use (t ! k) \<and> ch_id (t[i := c'] ! k) = ch_id (t ! k)" for k
    using assms by (cases "k = i") auto
  then show ?thesis using assms set_update_subset_insert [of t i c'] by (auto simp: ct_wf_def)
qed

lemma ct_gate_cases:
  "ct_gate g caps caller chan t =
     (case chan_at t chan of
        None \<Rightarrow> Inl Invalid
      | Some c \<Rightarrow>
          if ch_owner c \<noteq> None \<and> ch_owner c \<noteq> Some caller then Inl AccessDenied
          else if \<not> group_allows (g c) caps then Inl PolicyDenied
          else Inr (the (position (\<lambda>c. ch_in_use c \<and> ch_id c = chan) t)))"
  by (auto simp: ct_gate_def chan_at_def ensure_access_def ensure_groups_def split: option.splits)

lemma ct_gate_Inr:
  assumes "ct_gate g caps caller chan t = Inr i"
  shows "position (\<lambda>c. ch_in_use c \<and> ch_id c = chan) t = Some i" "i < length t"
    "ch_in_use (t ! i)" "ch_id (t ! i) = chan" "chan_at t chan = Some (t ! i)"
    "ch_owner (t ! i) = None \<or> ch_owner (t ! i) = Some caller" "group_allows (g (t ! i)) caps"
proof -
  show pos: "position (\<lambda>c. ch_in_use c \<and> ch_id c = chan) t = Some i"
    and "ch_owner (t ! i) = None \<or> ch_owner (t ! i) = Some caller" "group_allows (g (t ! i)) caps"
    using assms by (auto simp: ct_gate_cases chan_at_def split: option.splits if_splits)
  then show "i < length t" "ch_in_use (t ! i)" "ch_id (t ! i) = chan" "chan_at t chan = Some (t ! i)"
    by (auto simp: position_Some_iff chan_at_def)
qed

section \<open>Waiters\<close>

definition waiting :: "channel \<Rightarrow> pid set" where
  "waiting c = {p. Some p \<in> set (ch_waiters c)}"

lemma waiting_queue [simp]: "waiting (c\<lparr>ch_queue := q\<rparr>) = waiting c"
  by (simp add: waiting_def)

lemma set_update_distinct:
  assumes "distinct (filter (\<lambda>w. w \<noteq> None) ws)" and "k < length ws"
  shows "{p. Some p \<in> set (ws[k := None])} = {p. Some p \<in> set ws \<and> Some p \<noteq> ws ! k} \<and>
    distinct (filter (\<lambda>w. w \<noteq> None) (ws[k := None]))"
proof -
  have split: "ws = take k ws @ ws ! k # drop (Suc k) ws" using assms(2) by (simp add: id_take_nth_drop)
  have upd: "ws[k := None] = take k ws @ None # drop (Suc k) ws" using assms(2) by (rule upd_conv_take_nth_drop)
  have d: "distinct (filter (\<lambda>w. w \<noteq> None) (take k ws @ ws ! k # drop (Suc k) ws))"
    using assms(1) split by simp
  have "set ws = insert (ws ! k) (set (take k ws) \<union> set (drop (Suc k) ws))"
    by (subst split) auto
  with d show ?thesis unfolding upd by (cases "ws ! k") auto
qed

lemma pop_waiter_for_spec:
  assumes wf: "ch_wf c"
  obtains c' w where "pop_waiter_for target c = (c', w)" "ch_wf c'" "ch_queue c' = ch_queue c"
    "ch_in_use c' = ch_in_use c" "ch_id c' = ch_id c"
    "ch_owner c' = ch_owner c" "ch_tx_groups c' = ch_tx_groups c" "ch_rx_groups c' = ch_rx_groups c"
    "ch_capacity c' = ch_capacity c"
    "waiting c' = (case w of None \<Rightarrow> waiting c | Some p \<Rightarrow> waiting c - {p})"
    "case w of None \<Rightarrow> (case target of None \<Rightarrow> waiting c = {} | Some t \<Rightarrow> t \<notin> waiting c)
       | Some p \<Rightarrow> p \<in> waiting c \<and> (target = None \<or> target = Some p)"
proof -
  let ?P = "\<lambda>w. case target of Some t \<Rightarrow> w = Some t | None \<Rightarrow> w \<noteq> None"
  have eq: "pop_waiter_for target c = (case position ?P (ch_waiters c) of
      Some i \<Rightarrow> (c\<lparr>ch_waiters := (ch_waiters c)[i := None]\<rparr>, ch_waiters c ! i) | None \<Rightarrow> (c, None))"
    by (cases target) (simp_all add: pop_waiter_for_def)
  show thesis
  proof (cases "position ?P (ch_waiters c)")
    case None
    then have "case target of None \<Rightarrow> waiting c = {} | Some t \<Rightarrow> t \<notin> waiting c"
      by (cases target) (auto simp: position_None_iff waiting_def)
    with None eq that [of c None] wf show thesis by simp
  next
    case (Some k)
    then have k: "k < length (ch_waiters c)" "?P (ch_waiters c ! k)" by (auto simp: position_Some_iff)
    then obtain p where p: "ch_waiters c ! k = Some p" by (cases target) auto
    have upd: "{q. Some q \<in> set ((ch_waiters c)[k := None])} = waiting c - {p}"
        "distinct (filter (\<lambda>w. w \<noteq> None) ((ch_waiters c)[k := None]))"
      using set_update_distinct [OF _ k(1)] wf p by (auto simp: ch_wf_def waiting_def)
    have "p \<in> waiting c" using k p by (force simp: waiting_def in_set_conv_nth)
    with k p upd wf Some eq that [of "c\<lparr>ch_waiters := (ch_waiters c)[k := None]\<rparr>" "Some p"]
    show thesis by (cases target) (auto simp: ch_wf_def waiting_def)
  qed
qed

lemma add_waiter_spec:
  assumes wf: "ch_wf c" and ok: "add_waiter p c = Inr c'"
  shows "ch_wf c' \<and> ch_queue c' = ch_queue c \<and> ch_in_use c' = ch_in_use c \<and> ch_id c' = ch_id c \<and>
    ch_owner c' = ch_owner c \<and> ch_tx_groups c' = ch_tx_groups c \<and> ch_rx_groups c' = ch_rx_groups c \<and>
    ch_capacity c' = ch_capacity c \<and> waiting c' = insert p (waiting c)"
proof (cases "Some p \<in> set (ch_waiters c)")
  case True
  with wf ok show ?thesis by (auto simp: add_waiter_def waiting_def)
next
  case False
  with ok obtain k where k: "k < length (ch_waiters c)" "ch_waiters c ! k = None"
    and c': "c' = c\<lparr>ch_waiters := (ch_waiters c)[k := Some p]\<rparr>"
    by (auto simp: add_waiter_def position_Some_iff split: option.splits)
  let ?a = "take k (ch_waiters c)" and ?b = "drop (Suc k) (ch_waiters c)"
  have split: "ch_waiters c = ?a @ None # ?b" using k by (metis id_take_nth_drop)
  have upd: "(ch_waiters c)[k := Some p] = ?a @ Some p # ?b" using k(1) by (rule upd_conv_take_nth_drop)
  have s: "set (ch_waiters c) = insert None (set ?a \<union> set ?b)" by (subst split) auto
  have "distinct (filter (\<lambda>w. w \<noteq> None) (?a @ None # ?b))" using wf split by (simp add: ch_wf_def)
  then have "distinct (filter (\<lambda>w. w \<noteq> None) (?a @ Some p # ?b))" using False s by auto
  then show ?thesis using wf s k(1) unfolding c' by (auto simp: ch_wf_def waiting_def upd)
qed

section \<open>Effects of the handlers\<close>

text \<open>\<open>chan_becomes t chan c' t'\<close>: the table is well formed again and exactly the entry of
  channel \<open>chan\<close> changed, to \<open>c'\<close>, which keeps the identity and policy of the old one.\<close>

definition chan_becomes :: "channel_table \<Rightarrow> u32 \<Rightarrow> channel \<Rightarrow> channel \<Rightarrow> channel_table \<Rightarrow> bool" where
  "chan_becomes t chan c c' t' \<longleftrightarrow> chan_at t chan = Some c \<and> ct_wf t' \<and>
     (\<forall>x. chan_at t' x = (if x = chan then Some c' else chan_at t x)) \<and>
     ch_owner c' = ch_owner c \<and> ch_tx_groups c' = ch_tx_groups c \<and>
     ch_rx_groups c' = ch_rx_groups c \<and> ch_capacity c' = ch_capacity c"

lemma chan_becomesI:
  assumes "ct_wf t" and "ct_gate g caps caller chan t = Inr i"
    and "ch_wf c'" "ch_in_use c' = ch_in_use (t ! i)" "ch_id c' = ch_id (t ! i)"
    and "ch_owner c' = ch_owner (t ! i)" "ch_tx_groups c' = ch_tx_groups (t ! i)"
    "ch_rx_groups c' = ch_rx_groups (t ! i)" "ch_capacity c' = ch_capacity (t ! i)"
  shows "chan_becomes t chan (t ! i) c' (t[i := c'])"
  unfolding chan_becomes_def
  using assms ct_gate_Inr [OF assms(2)] ct_wf_update [of t i c'] chan_at_update [of chan t i c']
  by simp

lemma ct_wf_nth: "ct_wf t \<Longrightarrow> i < length t \<Longrightarrow> ch_wf (t ! i)"
  by (simp add: ct_wf_def)

lemma ct_send_Inr:
  assumes wf: "ct_wf t" and ok: "ct_send caps caller target chan msg t = Inr (t', w)"
  obtains c c' where "chan_becomes t chan c c' t'"
    "mq_items (ch_queue c') = mq_items (ch_queue c) @
       [\<lparr>env_sender = caller, env_target = (case target of Some p \<Rightarrow> p | None \<Rightarrow> 0), env_message = msg\<rparr>]"
    "waiting c' = (case w of None \<Rightarrow> waiting c | Some p \<Rightarrow> waiting c - {p})"
    "case w of None \<Rightarrow> (case target of None \<Rightarrow> waiting c = {} | Some t \<Rightarrow> t \<notin> waiting c)
       | Some p \<Rightarrow> p \<in> waiting c \<and> (target = None \<or> target = Some p)"
proof -
  let ?env = "\<lparr>env_sender = caller, env_target = (case target of Some p \<Rightarrow> p | None \<Rightarrow> 0), env_message = msg\<rparr>"
  obtain i q where i: "ct_gate ch_tx_groups caps caller chan t = Inr i"
    and q: "mq_push ?env (ch_capacity (t ! i)) (ch_queue (t ! i)) = Inr q"
    and t': "t' = t[i := fst (pop_waiter_for target ((t ! i)\<lparr>ch_queue := q\<rparr>))]"
      "w = snd (pop_waiter_for target ((t ! i)\<lparr>ch_queue := q\<rparr>))"
    using ok by (auto simp: ct_send_def Let_def split: sum.splits prod.splits)
  note gate = ct_gate_Inr [OF i]
  have c: "ch_wf (t ! i)" using wf gate(2) by (rule ct_wf_nth)
  with q have q': "mq_wf (ch_capacity (t ! i)) q" "mq_items q = mq_items (ch_queue (t ! i)) @ [?env]"
    using mq_push_Inr by (auto simp: ch_wf_def)
  with c have "ch_wf ((t ! i)\<lparr>ch_queue := q\<rparr>)" by (simp add: ch_wf_def)
  then obtain c' w' where *: "pop_waiter_for target ((t ! i)\<lparr>ch_queue := q\<rparr>) = (c', w')" "ch_wf c'"
      "ch_queue c' = q" "ch_in_use c' = ch_in_use (t ! i)" "ch_id c' = ch_id (t ! i)"
      "ch_owner c' = ch_owner (t ! i)" "ch_tx_groups c' = ch_tx_groups (t ! i)"
      "ch_rx_groups c' = ch_rx_groups (t ! i)" "ch_capacity c' = ch_capacity (t ! i)"
      "waiting c' = (case w' of None \<Rightarrow> waiting (t ! i) | Some p \<Rightarrow> waiting (t ! i) - {p})"
      "case w' of None \<Rightarrow> (case target of None \<Rightarrow> waiting (t ! i) = {} | Some x \<Rightarrow> x \<notin> waiting (t ! i))
         | Some p \<Rightarrow> p \<in> waiting (t ! i) \<and> (target = None \<or> target = Some p)"
    by (rule pop_waiter_for_spec [where target = target]) (rule that, assumption, auto split: option.splits)
  have "chan_becomes t chan (t ! i) c' t'"
    unfolding t' * fst_conv by (rule chan_becomesI [OF wf i]) (use * in auto)
  then show thesis using that [of "t ! i" c'] * q' t' by simp
qed

text \<open>Taking an envelope out of the queue of a channel.\<close>

definition takes_first :: "pid \<Rightarrow> envelope \<Rightarrow> channel \<Rightarrow> channel \<Rightarrow> bool" where
  "takes_first p e c c' \<longleftrightarrow> takes_envelope p e \<and> waiting c' = waiting c \<and>
     (\<exists>us vs. mq_items (ch_queue c) = us @ e # vs \<and> mq_items (ch_queue c') = us @ vs \<and>
       (\<forall>u \<in> set us. \<not> takes_envelope p u))"

lemma ct_pop_becomes:
  assumes wf: "ct_wf t" and i: "ct_gate g caps caller chan t = Inr i"
    and pop: "mq_pop_for caller (ch_queue (t ! i)) = Inr (e, q)"
  shows "chan_becomes t chan (t ! i) ((t ! i)\<lparr>ch_queue := q\<rparr>) (t[i := (t ! i)\<lparr>ch_queue := q\<rparr>]) \<and>
    takes_first caller e (t ! i) ((t ! i)\<lparr>ch_queue := q\<rparr>)"
proof -
  have c: "ch_wf (t ! i)" using wf ct_gate_Inr(2) [OF i] by (rule ct_wf_nth)
  have q: "mq_wf (ch_capacity (t ! i)) q"
    "takes_first caller e (t ! i) ((t ! i)\<lparr>ch_queue := q\<rparr>)"
    using mq_pop_for_Inr [OF _ pop, of "ch_capacity (t ! i)"] c
    by (auto simp: ch_wf_def takes_first_def waiting_def)
  with c show ?thesis by (auto intro!: chan_becomesI [OF wf i] simp: ch_wf_def)
qed

lemma ct_receive_Inr:
  assumes wf: "ct_wf t" and ok: "ct_receive caps caller chan t = Inr (t', sender, msg)"
  obtains c c' e where "chan_becomes t chan c c' t'" "takes_first caller e c c'"
    "sender = env_sender e" "msg = env_message e"
proof -
  obtain i e q where i: "ct_gate ch_rx_groups caps caller chan t = Inr i"
    and pop: "mq_pop_for caller (ch_queue (t ! i)) = Inr (e, q)"
    and r: "t' = t[i := (t ! i)\<lparr>ch_queue := q\<rparr>]" "sender = env_sender e" "msg = env_message e"
    using ok by (auto simp: ct_receive_def split: sum.splits prod.splits)
  from ct_pop_becomes [OF wf i pop] r show thesis using that by blast
qed

lemma add_waiter_becomes:
  assumes wf: "ct_wf t" and i: "ct_gate g caps caller chan t = Inr i"
    and c': "add_waiter caller (t ! i) = Inr c'"
  shows "chan_becomes t chan (t ! i) c' (t[i := c']) \<and>
    waiting c' = insert caller (waiting (t ! i)) \<and> ch_queue c' = ch_queue (t ! i)"
  using add_waiter_spec [OF ct_wf_nth [OF wf ct_gate_Inr(2) [OF i]] c']
  by (auto intro!: chan_becomesI [OF wf i])

lemma ct_receive_or_register_waiter_Inr:
  assumes wf: "ct_wf t" and ok: "ct_receive_or_register_waiter caps caller chan t = Inr (t', r)"
  obtains (got) c c' e where "chan_becomes t chan c c' t'" "takes_first caller e c c'"
      "r = Some (env_sender e, env_message e)"
  | (wait) c c' where "chan_becomes t chan c c' t'" "r = None"
      "waiting c' = insert caller (waiting c)" "ch_queue c' = ch_queue c"
      "\<forall>e \<in> set (mq_items (ch_queue c)). \<not> takes_envelope caller e"
proof -
  obtain i where i: "ct_gate ch_rx_groups caps caller chan t = Inr i"
    using ok by (auto simp: ct_receive_or_register_waiter_def split: sum.splits)
  have "ch_wf (t ! i)" using wf ct_gate_Inr(2) [OF i] by (rule ct_wf_nth)
  then have q: "mq_wf (ch_capacity (t ! i)) (ch_queue (t ! i))" by (simp add: ch_wf_def)
  show thesis
  proof (cases "mq_pop_for caller (ch_queue (t ! i))")
    case (Inr eq)
    then obtain e q where "mq_pop_for caller (ch_queue (t ! i)) = Inr (e, q)" by (cases eq) auto
    with ct_pop_becomes [OF wf i this] ok i show thesis
      by (auto simp: ct_receive_or_register_waiter_def intro!: got)
  next
    case (Inl err)
    with mq_pop_for_Inl [OF q] have err: "err = Empty"
      "\<forall>e \<in> set (mq_items (ch_queue (t ! i))). \<not> takes_envelope caller e" by auto
    then obtain c' where "add_waiter caller (t ! i) = Inr c'" "t' = t[i := c']" "r = None"
      using ok i Inl by (auto simp: ct_receive_or_register_waiter_def split: sum.splits)
    with add_waiter_becomes [OF wf i this(1)] err show thesis by (auto intro!: wait)
  qed
qed

lemma ct_create_Inr:
  assumes wf: "ct_wf t" and ok: "ct_create desc owner t = Inr t'"
  shows "ct_wf t' \<and> chan_at t (cd_id desc) = None \<and>
    (\<exists>c. chan_at t' (cd_id desc) = Some c \<and> mq_items (ch_queue c) = [] \<and> waiting c = {} \<and>
       ch_owner c = owner \<and> ch_tx_groups c = cd_tx_groups desc \<and> ch_rx_groups c = cd_rx_groups desc \<and>
       ch_capacity c = max (min (unat (cd_capacity desc)) MAX_QUEUE) 1) \<and>
    (\<forall>x. x \<noteq> cd_id desc \<longrightarrow> chan_at t' x = chan_at t x)"
proof -
  let ?P = "\<lambda>x c. ch_in_use c \<and> ch_id c = x"
  obtain i where i: "i < length t" "\<not> ch_in_use (t ! i)"
    and fresh: "\<forall>c \<in> set t. \<not> ?P (cd_id desc) c"
    and t': "t' = t[i := channel_configure desc owner (t ! i)]"
    using ok by (auto simp: ct_create_def position_Some_iff split: if_splits option.splits)
  let ?c = "channel_configure desc owner (t ! i)"
  have ci: "ch_wf (t ! i)" using wf i(1) by (rule ct_wf_nth)
  then have "length (mq_buf (ch_queue (t ! i))) = MAX_QUEUE" by (simp add: ch_wf_def mq_wf_def)
  with mq_reset_wf have q: "mq_wf (max (min (unat (cd_capacity desc)) MAX_QUEUE) 1) (mq_reset (ch_queue (t ! i)))"
      "mq_items (mq_reset (ch_queue (t ! i))) = []"
    by (auto simp: MAX_QUEUE_def)
  have c: "ch_wf ?c" "mq_items (ch_queue ?c) = []" "waiting ?c = {}" "ch_owner ?c = owner"
      "ch_in_use ?c" "ch_id ?c = cd_id desc" "ch_tx_groups ?c = cd_tx_groups desc"
      "ch_rx_groups ?c = cd_rx_groups desc"
      "ch_capacity ?c = max (min (unat (cd_capacity desc)) MAX_QUEUE) 1"
    using q by (auto simp: channel_configure_def ch_wf_def waiting_def WAITERS_PER_CHANNEL_def)
  have "position (?P (cd_id desc)) t' = Some i"
    using i fresh c by (auto simp: t' position_Some_iff nth_list_update)
  then have new: "chan_at t' (cd_id desc) = Some ?c" using i by (simp add: chan_at_def t')
  have "chan_at t' x = chan_at t x" if "x \<noteq> cd_id desc" for x
  proof -
    have pos: "position (?P x) t' = position (?P x) t"
      unfolding t' using i c that by (intro position_update) auto
    show ?thesis
    proof (cases "position (?P x) t")
      case (Some k)
      then have "k \<noteq> i" using i by (auto simp: position_Some_iff)
      with Some pos show ?thesis by (simp add: chan_at_def t')
    qed (use pos in \<open>simp add: chan_at_def\<close>)
  qed
  moreover have "ct_wf t'"
    unfolding ct_wf_def
  proof (intro conjI allI impI)
    show "\<forall>c \<in> set t'. ch_wf c"
      using wf c(1) set_update_subset_insert [of t i ?c] by (auto simp: ct_wf_def t')
    fix a b
    assume "a < length t'" "b < length t'"
      "ch_in_use (t' ! a) \<and> ch_in_use (t' ! b) \<and> ch_id (t' ! a) = ch_id (t' ! b)"
    then show "a = b" using wf fresh c i by (auto simp: ct_wf_def t' nth_list_update split: if_splits)
  qed (use wf in \<open>simp add: ct_wf_def t'\<close>)
  moreover have "chan_at t (cd_id desc) = None" using fresh by (simp add: chan_at_def position_None_iff)
  ultimately show ?thesis using new c by blast
qed

lemma ct_new_wf: "ct_wf ct_new"
proof -
  have "ch_wf channel_new"
    by (simp add: ch_wf_def channel_new_def mq_wf_def mq_new_def ring_wf_def MAX_QUEUE_def)
  then show ?thesis by (auto simp: ct_wf_def ct_new_def channel_new_def)
qed

section \<open>Interleavings of the handlers\<close>

datatype ipc_op =
    OpSend u32 pid "pid option" u32 message
  | OpReceive u32 pid u32
  | OpReceiveOrWait u32 pid u32
  | OpRegister u32 pid u32
  | OpCreate channel_desc "pid option"

text \<open>The table after one call and the processes it woke.\<close>

fun ipc_step :: "ipc_op \<Rightarrow> channel_table \<Rightarrow> channel_table \<times> pid list" where
  "ipc_step (OpSend caps caller target chan msg) t =
     (case ct_send caps caller target chan msg t of
        Inl e \<Rightarrow> (t, [])
      | Inr (t', w) \<Rightarrow> (t', case w of None \<Rightarrow> [] | Some p \<Rightarrow> [p]))"
| "ipc_step (OpReceive caps caller chan) t =
     (case ct_receive caps caller chan t of Inl e \<Rightarrow> (t, []) | Inr (t', r) \<Rightarrow> (t', []))"
| "ipc_step (OpReceiveOrWait caps caller chan) t =
     (case ct_receive_or_register_waiter caps caller chan t of
        Inl e \<Rightarrow> (t, []) | Inr (t', r) \<Rightarrow> (t', []))"
| "ipc_step (OpRegister caps caller chan) t =
     (case ct_register_waiter caps caller chan t of Inl e \<Rightarrow> (t, []) | Inr t' \<Rightarrow> (t', []))"
| "ipc_step (OpCreate desc owner) t =
     (case ct_create desc owner t of Inl e \<Rightarrow> (t, []) | Inr t' \<Rightarrow> (t', []))"

fun ipc_run :: "ipc_op list \<Rightarrow> channel_table \<Rightarrow> channel_table \<times> pid list" where
  "ipc_run [] t = (t, [])"
| "ipc_run (op # ops) t =
     (let (t', ws) = ipc_step op t; (t'', ws') = ipc_run ops t' in (t'', ws @ ws'))"

text \<open>\<open>p\<close> waits on \<open>chan\<close> and nothing addressed to it is queued there.\<close>

definition parked :: "pid \<Rightarrow> u32 \<Rightarrow> channel_table \<Rightarrow> bool" where
  "parked p chan t \<longleftrightarrow> (\<exists>c. chan_at t chan = Some c \<and> p \<in> waiting c \<and>
     (\<forall>e \<in> set (mq_items (ch_queue c)). env_target e \<noteq> p))"

lemma parked_other: "chan_at t' chan = chan_at t chan \<Longrightarrow> parked p chan t \<Longrightarrow> parked p chan t'"
  by (simp add: parked_def)

lemma parked_becomes:
  assumes "chan_becomes t x c c' t'" and "parked p chan t"
    and "\<And>e. e \<in> set (mq_items (ch_queue c')) \<Longrightarrow> e \<in> set (mq_items (ch_queue c))"
    and "waiting c \<subseteq> waiting c'"
  shows "parked p chan t'"
  using assms by (cases "x = chan") (auto simp: chan_becomes_def parked_def)

lemma ipc_step_parked:
  assumes wf: "ct_wf t" and p: "p \<noteq> 0" and parked: "parked p chan t"
    and step: "ipc_step op t = (t', ws)"
  shows "ct_wf t' \<and> (p \<in> set ws \<or> parked p chan t')"
proof (cases op)
  case (OpSend caps caller target x msg)
  show ?thesis
  proof (cases "ct_send caps caller target x msg t")
    case (Inr r)
    then obtain w where r: "ct_send caps caller target x msg t = Inr (t', w)"
      "ws = (case w of None \<Rightarrow> [] | Some p \<Rightarrow> [p])"
      using step OpSend by (cases r) auto
    from wf r(1) show ?thesis
    proof (cases rule: ct_send_Inr)
      case (1 c c')
      have "parked p chan t'" if "p \<notin> set ws"
      proof (cases "x = chan")
        case True
        from parked 1(1) True have c: "p \<in> waiting c"
            "\<forall>e \<in> set (mq_items (ch_queue c)). env_target e \<noteq> p"
          by (auto simp: parked_def chan_becomes_def)
        have "w \<noteq> Some p" using that r(2) by auto
        with 1(3) c(1) have "p \<in> waiting c'" by (cases w) auto
        moreover have "target \<noteq> Some p" using 1(4) c(1) \<open>w \<noteq> Some p\<close> by (cases w) auto
        then have "(case target of Some p \<Rightarrow> p | None \<Rightarrow> 0) \<noteq> p" using p by (cases target) auto
        ultimately show ?thesis using 1(1,2) c(2) True by (auto simp: chan_becomes_def parked_def)
      next
        case False
        with 1(1) parked show ?thesis by (auto simp: chan_becomes_def parked_def)
      qed
      then show ?thesis using 1(1) by (auto simp: chan_becomes_def)
    qed
  qed (use step OpSend wf parked in auto)
next
  case (OpReceive caps caller x)
  show ?thesis
  proof (cases "ct_receive caps caller x t")
    case (Inr r)
    then obtain sender msg where r: "ct_receive caps caller x t = Inr (t', sender, msg)"
      using step OpReceive by (cases r) auto
    from wf r show ?thesis
      by (cases rule: ct_receive_Inr)
        (auto simp: chan_becomes_def takes_first_def intro: parked_becomes [OF _ parked])
  qed (use step OpReceive wf parked in auto)
next
  case (OpReceiveOrWait caps caller x)
  show ?thesis
  proof (cases "ct_receive_or_register_waiter caps caller x t")
    case (Inr r)
    then obtain v where r: "ct_receive_or_register_waiter caps caller x t = Inr (t', v)"
      using step OpReceiveOrWait by (cases r) auto
    from wf r show ?thesis
      by (cases rule: ct_receive_or_register_waiter_Inr)
        (auto simp: chan_becomes_def takes_first_def intro: parked_becomes [OF _ parked])
  qed (use step OpReceiveOrWait wf parked in auto)
next
  case (OpRegister caps caller x)
  show ?thesis
  proof (cases "ct_register_waiter caps caller x t")
    case (Inr r)
    then obtain i c' where "ct_gate ch_rx_groups caps caller x t = Inr i"
        "add_waiter caller (t ! i) = Inr c'" "t' = t[i := c']"
      using step OpRegister by (auto simp: ct_register_waiter_def split: sum.splits)
    with add_waiter_becomes [OF wf this(1,2)] show ?thesis
      by (auto simp: chan_becomes_def intro: parked_becomes [OF _ parked])
  qed (use step OpRegister wf parked in auto)
next
  case (OpCreate desc owner)
  show ?thesis
  proof (cases "ct_create desc owner t")
    case (Inr r)
    then have r: "ct_create desc owner t = Inr t'" using step OpCreate by auto
    have "chan \<noteq> cd_id desc" using ct_create_Inr [OF wf r] parked by (auto simp: parked_def)
    then show ?thesis using ct_create_Inr [OF wf r] parked parked_other by metis
  qed (use step OpCreate wf parked in auto)
qed

lemma ipc_step_wf: "ct_wf t \<Longrightarrow> ipc_step op t = (t', ws) \<Longrightarrow> ct_wf t'"
  by (cases op)
    (auto simp: chan_becomes_def ct_register_waiter_def split: sum.splits
      dest: ct_create_Inr add_waiter_becomes
      elim: ct_send_Inr ct_receive_Inr ct_receive_or_register_waiter_Inr)

lemma ipc_run_parked:
  assumes "ct_wf t" and "p \<noteq> 0" and "ipc_run ops t = (t', ws)"
  shows "ct_wf t' \<and> (parked p chan t \<longrightarrow> p \<in> set ws \<or> parked p chan t')"
  using assms(1,3)
proof (induction ops arbitrary: t t' ws)
  case (Cons op ops)
  obtain t1 ws1 ws2 where step: "ipc_step op t = (t1, ws1)" "ipc_run ops t1 = (t', ws2)" "ws = ws1 @ ws2"
    using Cons.prems(2) by (auto simp: Let_def split: prod.splits)
  from Cons.IH [OF ipc_step_wf [OF Cons.prems(1) step(1)] step(2)]
    ipc_step_parked [OF Cons.prems(1) assms(2) _ step(1)] step(3)
  show ?case by auto
qed simp

section \<open>Properties\<close>

text \<open>
  C8: whatever the interleaving of senders and receivers on a queue, every delivered envelope was
  addressed to its receiver or to everyone; nothing is lost or duplicated; and the envelopes of
  each address (the broadcast address included) are delivered in the order they were accepted.
\<close>

theorem message_delivery:
  assumes "mq_wf cap q"
    and "queue_run (\<lambda>x q. result_ok (mq_push x cap q)) (\<lambda>p q. result_ok (mq_pop_for p q)) ops q =
      (q', accepted, delivered)"
  shows "(\<forall>(p, e) \<in> set delivered. env_target e = 0 \<or> env_target e = p) \<and>
    mset (mq_items q) + mset accepted = mset (map snd delivered) + mset (mq_items q') \<and>
    (\<forall>t. filter (\<lambda>e. env_target e = t) (map snd delivered @ mq_items q') =
         filter (\<lambda>e. env_target e = t) (mq_items q @ accepted)) \<and> mq_wf cap q'"
proof -
  have uniform: "uniform_for takes_envelope (\<lambda>e. env_target e = t)" for t
    by (auto simp: uniform_for_def takes_envelope_def)
  show ?thesis
    using mq.run_main [OF assms] uniform by (auto simp: takes_envelope_def)
qed

definition envelope_to :: "pid \<Rightarrow> envelope" where
  "envelope_to p = \<lparr>env_sender = 9, env_target = p, env_message = message_empty\<rparr>"

theorem message_delivery_witness:
  "\<exists>q' acc. queue_run (\<lambda>x q. result_ok (mq_push x 2 q)) (\<lambda>p q. result_ok (mq_pop_for p q))
       [Push (envelope_to 5), Push (envelope_to 6), Push (envelope_to 0), Pop 6, Pop 7] mq_new =
     (q', acc, [(6, envelope_to 6)]) \<and> mset acc = mset [envelope_to 6] + mset (mq_items q')"
proof -
  have wf: "mq_wf 2 mq_new" "mq_items mq_new = []"
    by (simp_all add: mq_wf_def mq_new_def ring_wf_def mq_items_def ring_items_def MAX_QUEUE_def)
  have "snd (snd (queue_run (\<lambda>x q. result_ok (mq_push x 2 q)) (\<lambda>p q. result_ok (mq_pop_for p q))
       [Push (envelope_to 5), Push (envelope_to 6), Push (envelope_to 0), Pop 6, Pop 7] mq_new)) =
     [(6, envelope_to 6)]"
    by code_simp
  then obtain q' acc where run: "queue_run (\<lambda>x q. result_ok (mq_push x 2 q)) (\<lambda>p q. result_ok (mq_pop_for p q))
       [Push (envelope_to 5), Push (envelope_to 6), Push (envelope_to 0), Pop 6, Pop 7] mq_new =
     (q', acc, [(6, envelope_to 6)])"
    by (metis prod.collapse)
  from message_delivery [OF wf(1) run] show ?thesis using run wf(2) by auto
qed

text \<open>
  C19: \<open>send\<close> decides in the order channel lookup, owner gate, transmit-group gate, queue room, with
  one error each and the table untouched. Otherwise it appends the envelope at the end of exactly
  that channel's queue; a targeted send wakes the target if it waits there, an untargeted one wakes
  some waiter if there is any, and only the woken process stops waiting.
\<close>

theorem ct_send_spec:
  assumes wf: "ct_wf t"
  shows "case chan_at t chan of
      None \<Rightarrow> ct_send caps caller target chan msg t = Inl Invalid
    | Some c \<Rightarrow>
        if ch_owner c \<noteq> None \<and> ch_owner c \<noteq> Some caller
        then ct_send caps caller target chan msg t = Inl AccessDenied
        else if \<not> group_allows (ch_tx_groups c) caps
        then ct_send caps caller target chan msg t = Inl PolicyDenied
        else if length (mq_items (ch_queue c)) = ch_capacity c
        then ct_send caps caller target chan msg t = Inl ChannelBusy
        else \<exists>t' w c'. ct_send caps caller target chan msg t = Inr (t', w) \<and>
          chan_becomes t chan c c' t' \<and>
          mq_items (ch_queue c') = mq_items (ch_queue c) @
            [\<lparr>env_sender = caller, env_target = (case target of Some p \<Rightarrow> p | None \<Rightarrow> 0),
              env_message = msg\<rparr>] \<and>
          waiting c' = waiting c - set_option w \<and>
          (case target of
             Some p \<Rightarrow> w = (if p \<in> waiting c then Some p else None)
           | None \<Rightarrow> (if waiting c = {} then w = None else \<exists>p \<in> waiting c. w = Some p))"
proof (cases "ct_send caps caller target chan msg t")
  case (Inl e)
  then show ?thesis
    by (auto simp: ct_send_def ct_gate_cases chan_at_def mq_push_Inl Let_def
        split: option.splits if_splits sum.splits prod.splits)
next
  case (Inr r)
  obtain t' w where r: "ct_send caps caller target chan msg t = Inr (t', w)" using Inr by (cases r) auto
  then obtain i where i: "ct_gate ch_tx_groups caps caller chan t = Inr i"
      "mq_len (ch_queue (t ! i)) \<noteq> ch_capacity (t ! i)"
    by (auto simp: ct_send_def mq_push_def Let_def split: sum.splits if_splits)
  note gate = ct_gate_Inr [OF i(1)]
  from wf r show ?thesis
  proof (cases rule: ct_send_Inr)
    case (1 c c')
    then have c: "c = t ! i" using gate(5) by (simp add: chan_becomes_def)
    have "case target of
             Some p \<Rightarrow> w = (if p \<in> waiting c then Some p else None)
           | None \<Rightarrow> (if waiting c = {} then w = None else \<exists>p \<in> waiting c. w = Some p)"
      using 1(4) by (cases target; cases w) auto
    moreover have "waiting c' = waiting c - set_option w" using 1(3) by (cases w) auto
    moreover have "\<not> (ch_owner c \<noteq> None \<and> ch_owner c \<noteq> Some caller)" "group_allows (ch_tx_groups c) caps"
        "length (mq_items (ch_queue c)) \<noteq> ch_capacity c" "chan_at t chan = Some c"
      using gate(5-7) i(2) c by auto
    ultimately show ?thesis using 1(1,2) r
      by (simp only: option.case if_False if_True not_True_eq_False) blast
  qed
qed

text \<open>A table with one open channel 7 of capacity 2.\<close>

definition one_channel :: channel_desc where
  "one_channel = \<lparr>cd_id = 7, cd_capacity = 2, cd_tx_groups = 0, cd_rx_groups = 0\<rparr>"

definition ipc_demo :: channel_table where
  "ipc_demo = (case ct_create one_channel None ct_new of Inr t \<Rightarrow> t | Inl e \<Rightarrow> [])"

lemma ipc_demo_create: "ct_create one_channel None ct_new = Inr ipc_demo"
  by (simp add: ipc_demo_def ct_create_def ct_new_def MAX_CHANNELS_def channel_new_def numeral_eq_Suc)

lemma ipc_demo_at: "ct_wf ipc_demo \<and> (\<exists>c. chan_at ipc_demo 7 = Some c \<and> mq_items (ch_queue c) = [] \<and>
    waiting c = {} \<and> ch_owner c = None \<and> ch_tx_groups c = 0 \<and> ch_rx_groups c = 0 \<and> ch_capacity c = 2)"
  using ct_create_Inr [OF ct_new_wf ipc_demo_create] by (auto simp: one_channel_def MAX_QUEUE_def)

theorem ct_send_spec_witness:
  "\<exists>t' c'. ct_send 0 3 (Some 5) 7 message_empty ipc_demo = Inr (t', None) \<and> chan_at t' 7 = Some c' \<and>
     mq_items (ch_queue c') = [\<lparr>env_sender = 3, env_target = 5, env_message = message_empty\<rparr>]"
proof -
  from ipc_demo_at obtain c where c: "ct_wf ipc_demo" "chan_at ipc_demo 7 = Some c"
      "mq_items (ch_queue c) = []" "waiting c = {}" "ch_owner c = None" "ch_tx_groups c = 0"
      "ch_capacity c = 2" by blast
  show ?thesis
    using ct_send_spec [OF c(1), where chan = 7 and caps = 0 and caller = 3 and target = "Some 5"
        and msg = message_empty] c
    by (auto simp: group_allows_def chan_becomes_def)
qed

text \<open>
  C9: no wakeup is lost. Once \<open>receive_or_register_waiter\<close> answers that the caller has to wait, any
  sequence of further calls by anyone leaves the caller registered with nothing addressed to it in
  the queue, unless one of these calls woke it; so a message addressed to a process never stays
  queued while the process sleeps.
\<close>

theorem no_lost_wakeup:
  assumes wf: "ct_wf t" and p: "p \<noteq> 0"
    and wait: "ct_receive_or_register_waiter caps p chan t = Inr (t1, None)"
    and run: "ipc_run ops t1 = (t2, wakes)"
  shows "ct_wf t2 \<and> (p \<in> set wakes \<or> (\<exists>c. chan_at t2 chan = Some c \<and> p \<in> waiting c \<and>
    (\<forall>e \<in> set (mq_items (ch_queue c)). env_target e \<noteq> p)))"
proof -
  have start: "ct_wf t1 \<and> parked p chan t1"
    using wf wait
  proof (cases rule: ct_receive_or_register_waiter_Inr)
    case (wait c c')
    then show ?thesis using p by (auto simp: chan_becomes_def parked_def takes_envelope_def)
  qed auto
  then show ?thesis using ipc_run_parked [OF _ p run, of chan] by (auto simp: parked_def)
qed

theorem no_lost_wakeup_witness:
  "\<exists>t1 t2. ct_receive_or_register_waiter 0 5 7 ipc_demo = Inr (t1, None) \<and>
     ipc_run [OpSend 0 3 (Some 6) 7 message_empty, OpReceive 0 6 7,
       OpSend 0 3 (Some 5) 7 message_empty] t1 = (t2, [5]) \<and> ct_wf t2"
proof -
  define ops where "ops = [OpSend 0 3 (Some 6) 7 message_empty, OpReceive 0 6 7,
       OpSend 0 3 (Some 5) 7 message_empty]"
  have "(case ct_receive_or_register_waiter 0 5 7 ipc_demo of
      Inr (t1, None) \<Rightarrow> snd (ipc_run ops t1) = [5] | _ \<Rightarrow> False)"
    unfolding ops_def by code_simp
  then obtain t1 t2 where run: "ct_receive_or_register_waiter 0 5 7 ipc_demo = Inr (t1, None)"
      "ipc_run ops t1 = (t2, [5])"
    by (auto split: sum.splits prod.splits option.splits) (metis prod.collapse)
  from no_lost_wakeup [OF conjunct1 [OF ipc_demo_at] _ run] run show ?thesis
    unfolding ops_def by auto
qed

end
