(* ===== verification/Abi.thy ===== *)
theory Abi
  imports Zero_Prelude Byte_Codec
begin

text \<open>
  The binary contracts between kernel and user space: system-call results
  (\<open>libs/abi/src/lib.rs\<close> module \<open>syscall\<close>, \<open>microkernel/src/trap.rs\<close>, \<open>userland/userlib/src/lib.rs\<close>),
  signal encodings, the argument validation layer (module \<open>validate\<close>), the header sector of the
  user database (module \<open>userdb\<close>) and the text protocol of the security service
  (module \<open>protocol::security\<close>).
\<close>

section \<open>System-call results\<close>

datatype sys_error =
    InvalidArgument | PermissionDenied | ChannelUnavailable | NotFound | NoMemory | WouldBlock
  | DeviceError | Busy | NotSupported

fun se_disc :: "sys_error \<Rightarrow> u64" where
  "se_disc InvalidArgument = 0"
| "se_disc PermissionDenied = 1"
| "se_disc ChannelUnavailable = 2"
| "se_disc NotFound = 3"
| "se_disc NoMemory = 4"
| "se_disc WouldBlock = 5"
| "se_disc DeviceError = 6"
| "se_disc Busy = 7"
| "se_disc NotSupported = 8"

fun se_as_str :: "sys_error \<Rightarrow> string" where
  "se_as_str InvalidArgument = ''invalid argument''"
| "se_as_str PermissionDenied = ''permission denied''"
| "se_as_str ChannelUnavailable = ''channel unavailable''"
| "se_as_str NotFound = ''not found''"
| "se_as_str NoMemory = ''no memory''"
| "se_as_str WouldBlock = ''would block''"
| "se_as_str DeviceError = ''device error''"
| "se_as_str Busy = ''busy''"
| "se_as_str NotSupported = ''not supported''"

text \<open>\<open>u64::MAX\<close> is \<open>- 1\<close>.\<close>

definition se_code :: "sys_error \<Rightarrow> u64" where
  "se_code e = - 1 - se_disc e"

definition abi_decode :: "u64 \<Rightarrow> sys_error + u64" where
  "abi_decode val =
    (if val = se_code InvalidArgument then Inl InvalidArgument
     else if val = se_code PermissionDenied then Inl PermissionDenied
     else if val = se_code ChannelUnavailable then Inl ChannelUnavailable
     else if val = se_code NotFound then Inl NotFound
     else if val = se_code NoMemory then Inl NoMemory
     else if val = se_code WouldBlock then Inl WouldBlock
     else if val = se_code DeviceError then Inl DeviceError
     else if val = se_code Busy then Inl Busy
     else if val = se_code NotSupported then Inl NotSupported
     else Inr val)"

definition ERROR_INTERVAL_LEN :: u64 where "ERROR_INTERVAL_LEN = 9"

fun abi_encode_result :: "sys_error + u64 \<Rightarrow> u64" where
  "abi_encode_result (Inr v) = v"
| "abi_encode_result (Inl e) = se_code e"

definition is_error_encoded :: "u64 \<Rightarrow> bool" where
  "is_error_encoded v \<longleftrightarrow> v \<ge> - 1 - (ERROR_INTERVAL_LEN - 1)"

text \<open>The kernel keeps its own copy of the encoding; the user library decodes with the shared one.\<close>

fun trap_encode_result :: "sys_error + u64 \<Rightarrow> u64" where
  "trap_encode_result (Inr v) = v"
| "trap_encode_result (Inl e) = (case e of
      InvalidArgument \<Rightarrow> - 1
    | PermissionDenied \<Rightarrow> - 1 - 1
    | ChannelUnavailable \<Rightarrow> - 1 - 2
    | NotFound \<Rightarrow> - 1 - 3
    | NoMemory \<Rightarrow> - 1 - 4
    | WouldBlock \<Rightarrow> - 1 - 5
    | DeviceError \<Rightarrow> - 1 - 6
    | Busy \<Rightarrow> - 1 - 7
    | NotSupported \<Rightarrow> - 1 - 8)"

definition decode_result :: "u64 \<Rightarrow> sys_error + u64" where
  "decode_result v = abi_decode v"

definition WAIT_NOHANG :: u64 where "WAIT_NOHANG = 2 ^ 0"

text \<open>An \<open>i32\<close> exit code is its 32-bit pattern.\<close>

definition pack_wait_result :: "pid \<Rightarrow> u32 \<Rightarrow> u64" where
  "pack_wait_result p code = push_bit 32 p OR ucast code"

definition unpack_wait_result :: "u64 \<Rightarrow> sys_error + (u64 \<times> u32)" where
  "unpack_wait_result v = Inr (drop_bit 32 v, ucast v)"

definition map_wait_value :: "u64 \<Rightarrow> u64 \<Rightarrow> sys_error + (u64 \<times> u32) option" where
  "map_wait_value v flags =
    (if v = 0 \<and> flags AND WAIT_NOHANG \<noteq> 0 then Inr None
     else case unpack_wait_result v of Inl e \<Rightarrow> Inl e | Inr x \<Rightarrow> Inr (Some x))"

section \<open>Signals\<close>

definition SIGILL :: u8 where "SIGILL = 4"
definition SIGTRAP :: u8 where "SIGTRAP = 5"
definition SIGBUS :: u8 where "SIGBUS = 7"
definition SIGFPE :: u8 where "SIGFPE = 8"
definition SIGSEGV :: u8 where "SIGSEGV = 11"

text \<open>
  A release build drops the \<open>debug_assert\<close> that \<open>sig\<close> is between 1 and 16 and masks the shift amount to the
  width of the operand; the kernel passes only the constants above.
\<close>

definition signal_bit :: "u8 \<Rightarrow> u16" where
  "signal_bit sig = push_bit (unat (sig - 1) mod 16) 1"

definition fatal_exit_code :: "u8 \<Rightarrow> u32" where
  "fatal_exit_code sig = - ucast sig"

section \<open>Argument validation\<close>

definition USER_VA_LO :: u64 where "USER_VA_LO = 0x200000"
definition KERNEL_REGION_START :: u64 where "KERNEL_REGION_START = 0x40000000"
definition KERNEL_REGION_END :: u64 where "KERNEL_REGION_END = 0x80000000"
definition USER_VA_MAX :: u64 where "USER_VA_MAX = 0xFFFFF000"
definition DEVICE_MMIO_LO :: u64 where "DEVICE_MMIO_LO = 0x8000000"
definition DEVICE_MMIO_HI :: u64 where "DEVICE_MMIO_HI = 0x10000000"
definition MESSAGE_ALIGN :: u64 where "MESSAGE_ALIGN = 4"

definition validate_user_ptr :: "u64 \<Rightarrow> u64 \<Rightarrow> sys_error + unit" where
  "validate_user_ptr addr sz =
    (if addr = 0 then Inl InvalidArgument
     else if addr < USER_VA_LO then Inl InvalidArgument
     else if addr \<ge> KERNEL_REGION_START \<and> addr < KERNEL_REGION_END then Inl InvalidArgument
     else case checked_add addr sz of
       None \<Rightarrow> Inl InvalidArgument
     | Some stop \<Rightarrow> if stop > USER_VA_MAX then Inl InvalidArgument else Inr ())"

definition validate_mmio_region :: "u64 \<Rightarrow> u64 \<Rightarrow> sys_error + unit" where
  "validate_mmio_region base len =
    (if len = 0 \<or> base < DEVICE_MMIO_LO then Inl InvalidArgument
     else case checked_add base len of
       None \<Rightarrow> Inl InvalidArgument
     | Some stop \<Rightarrow> if stop > DEVICE_MMIO_HI then Inl InvalidArgument else Inr ())"

definition message_ptr_aligned :: "u64 \<Rightarrow> bool" where
  "message_ptr_aligned addr \<longleftrightarrow> addr mod MESSAGE_ALIGN = 0"

section \<open>The header sector of the user database\<close>

definition HDR_LBA :: u64 where "HDR_LBA = 4096"
definition SECTOR :: nat where "SECTOR = 512"
definition SUD_MAGIC :: bytes where "SUD_MAGIC = [0x53, 0x55, 0x44, 0x31]"
definition SUD_VERSION :: u32 where "SUD_VERSION = 1"

text \<open>\<open>copy_from_slice\<close> into a range that fits.\<close>

definition copy_at :: "nat \<Rightarrow> 'a list \<Rightarrow> 'a list \<Rightarrow> 'a list" where
  "copy_at off src dst = take off dst @ src @ drop (off + length src) dst"

definition put_u32 :: "bytes \<Rightarrow> nat \<Rightarrow> u32 \<Rightarrow> bytes" where
  "put_u32 buf off v = copy_at off (to_le 4 (unat v)) buf"

definition get_u32 :: "bytes \<Rightarrow> nat \<Rightarrow> u32" where
  "get_u32 buf off = of_nat (from_le (take 4 (drop off buf)))"

definition encode_header :: "u32 \<Rightarrow> bytes outcome" where
  "encode_header sectors =
    (if sectors \<ge> 1 \<and> sectors \<le> 4095
     then Val (put_u32 (put_u32 (copy_at 0 SUD_MAGIC (replicate SECTOR 0)) 4 SUD_VERSION) 8 sectors)
     else Panic)"

definition parse_header :: "bytes \<Rightarrow> u32 option" where
  "parse_header buf =
    (if take 4 buf \<noteq> SUD_MAGIC then None
     else if get_u32 buf 4 \<noteq> SUD_VERSION then None
     else let sectors = get_u32 buf 8 in
       if sectors = 0 \<or> sectors > 4095 then None else Some sectors)"

section \<open>The text protocol of the security service\<close>

record cap_issue_request =
  ci_target_pid :: u64
  ci_caps :: u32
  ci_ttl :: u64

definition HEX :: bytes where
  "HEX = [0x30, 0x31, 0x32, 0x33, 0x34, 0x35, 0x36, 0x37, 0x38, 0x39,
          0x61, 0x62, 0x63, 0x64, 0x65, 0x66]"

text \<open>The digit loops fill a scratch buffer from the least significant digit and reverse it.\<close>

function hex_digits :: "u32 \<Rightarrow> bytes" where
  "hex_digits v = (if v = 0 then [] else HEX ! unat (v AND 0xF) # hex_digits (drop_bit 4 v))"
  by auto
termination
proof (relation "measure unat", goal_cases)
  case (2 v)
  then have "0 < unat v" by (simp add: unat_gt_0)
  then show ?case by (simp add: drop_bit_eq_div unat_div)
qed simp

declare hex_digits.simps [simp del]

definition write_u32_hex :: "u32 \<Rightarrow> bytes" where
  "write_u32_hex v = (if v = 0 then [0x30] else rev (hex_digits v))"

function dec_digits :: "u64 \<Rightarrow> bytes" where
  "dec_digits v = (0x30 + ucast (v mod 10)) # (if v div 10 = 0 then [] else dec_digits (v div 10))"
  by auto
termination
proof (relation "measure unat", goal_cases)
  case (2 v)
  then have "0 < unat (v div 10)" by (simp add: unat_gt_0)
  then show ?case by (simp add: unat_div)
qed simp


declare dec_digits.simps [simp del]

definition u64_dec :: "u64 \<Rightarrow> bytes" where
  "u64_dec v = rev (dec_digits v)"

primrec write_fields_at :: "nat \<Rightarrow> bytes list \<Rightarrow> bytes \<Rightarrow> bytes" where
  "write_fields_at off [] payload = payload"
| "write_fields_at off (f # fs) payload =
    write_fields_at (off + length f + 1) fs ((copy_at off f payload)[off + length f := 0])"

definition write_fields :: "bytes \<Rightarrow> bytes list \<Rightarrow> bytes \<times> bool" where
  "write_fields payload fs =
    (if sum_list (map (\<lambda>f. length f + 1) fs) > length payload then (payload, False)
     else (write_fields_at 0 fs payload, True))"

definition encode_cap_issue :: "bytes \<Rightarrow> cap_issue_request \<Rightarrow> bytes \<times> bool" where
  "encode_cap_issue payload req = write_fields payload
    [u64_dec (ci_target_pid req), write_u32_hex (ci_caps req), u64_dec (ci_ttl req)]"

definition encode_token :: "bytes \<Rightarrow> u64 \<Rightarrow> bytes \<times> bool" where
  "encode_token payload token = write_fields payload [u64_dec token]"

text \<open>The field cursor: the unread rest of the payload and the number of fields taken.\<close>

record fields3 =
  f_rest :: bytes
  f_taken :: nat

definition FIELDS_MAX :: nat where "FIELDS_MAX = 8"

definition fields_split :: "bytes \<Rightarrow> fields3" where
  "fields_split payload = \<lparr>f_rest = payload, f_taken = 0\<rparr>"

definition next_raw :: "fields3 \<Rightarrow> fields3 \<times> bytes option" where
  "next_raw s =
    (if f_taken s \<ge> FIELDS_MAX \<or> f_rest s = [] then (s, None)
     else let stop = (case position (\<lambda>b. b = 0) (f_rest s) of Some i \<Rightarrow> i | None \<Rightarrow> length (f_rest s));
              field = take stop (f_rest s);
              rest = (if stop < length (f_rest s) then drop (stop + 1) (f_rest s) else drop stop (f_rest s));
              s' = \<lparr>f_rest = rest, f_taken = f_taken s + 1\<rparr>
          in (s', if field = [] then None else Some field))"

definition checked_mul :: "'a :: len word \<Rightarrow> 'a word \<Rightarrow> 'a word option" where
  "checked_mul a b = (if unat a * unat b < 2 ^ LENGTH('a) then Some (a * b) else None)"

definition checked_plus :: "'a :: len word \<Rightarrow> 'a word \<Rightarrow> 'a word option" where
  "checked_plus a b = (if unat a + unat b < 2 ^ LENGTH('a) then Some (a + b) else None)"

definition dec_step :: "u64 \<Rightarrow> u8 \<Rightarrow> u64 option" where
  "dec_step acc b =
    (if \<not> (0x30 \<le> b \<and> b \<le> 0x39) then None
     else Option.bind (checked_mul acc 10) (\<lambda>m. checked_plus m (ucast (b - 0x30))))"

definition hex_step :: "u32 \<Rightarrow> u8 \<Rightarrow> u32 option" where
  "hex_step acc b =
    Option.bind (if 0x30 \<le> b \<and> b \<le> 0x39 then Some (ucast (b - 0x30))
                 else if 0x61 \<le> b \<and> b \<le> 0x66 then Some (ucast (b - 0x61) + 10) else None)
      (\<lambda>d. Option.bind (checked_mul acc 16) (\<lambda>m. checked_plus m d))"

primrec digits_value :: "('w \<Rightarrow> u8 \<Rightarrow> 'w option) \<Rightarrow> 'w \<Rightarrow> bytes \<Rightarrow> 'w option" where
  "digits_value step acc [] = Some acc"
| "digits_value step acc (b # bs) = Option.bind (step acc b) (\<lambda>acc'. digits_value step acc' bs)"

definition next_u64 :: "fields3 \<Rightarrow> fields3 \<times> u64 option" where
  "next_u64 s = (case next_raw s of (s', r) \<Rightarrow> (s', Option.bind r (digits_value dec_step 0)))"

definition next_hex_u32 :: "fields3 \<Rightarrow> fields3 \<times> u32 option" where
  "next_hex_u32 s = (case next_raw s of (s', r) \<Rightarrow>
    (s', Option.bind r (\<lambda>t. if t = [] \<or> length t > 8 then None else digits_value hex_step 0 t)))"

definition parse_cap_issue :: "bytes \<Rightarrow> cap_issue_request option" where
  "parse_cap_issue payload =
    (case next_u64 (fields_split payload) of
       (_, None) \<Rightarrow> None
     | (s1, Some p) \<Rightarrow> (case next_hex_u32 s1 of
         (_, None) \<Rightarrow> None
       | (s2, Some c) \<Rightarrow> (case next_u64 s2 of
           (_, None) \<Rightarrow> None
         | (_, Some t) \<Rightarrow> Some \<lparr>ci_target_pid = p, ci_caps = c, ci_ttl = t\<rparr>)))"

definition parse_token :: "bytes \<Rightarrow> u64 option" where
  "parse_token payload = snd (next_u64 (fields_split payload))"

section \<open>Lemmas\<close>

subsection \<open>Digits\<close>

lemma digits_value_append:
  "digits_value step acc (xs @ ys) = Option.bind (digits_value step acc xs) (\<lambda>a. digits_value step a ys)"
  by (induction xs arbitrary: acc) (simp_all add: Option.bind_assoc)

lemma mod_10_digit:
  fixes v :: u64
  defines "d \<equiv> 0x30 + ucast (v mod 10) :: u8"
  shows "unat d = 48 + unat v mod 10" and "0x30 \<le> d" and "d \<le> 0x39" and "d \<noteq> 0"
    and "unat (ucast (d - 0x30) :: u64) = unat v mod 10"
proof -
  have m: "unat (v mod 10) = unat v mod 10" by (simp add: unat_mod)
  have u: "unat (ucast (v mod 10) :: u8) = unat v mod 10"
    using mod_less_divisor [of 10 "unat v"] by (simp add: unsigned_ucast_eq m take_bit_eq_mod)
  show d: "unat d = 48 + unat v mod 10"
    unfolding d_def by (subst unat_word_ariths, subst u) (use mod_less_divisor [of 10 "unat v"] in simp)
  then show "0x30 \<le> d" "d \<le> 0x39" "d \<noteq> 0"
    using mod_less_divisor [of 10 "unat v"] by (auto simp: word_le_nat_alt)
  have "d - 0x30 = ucast (v mod 10)" unfolding d_def by simp
  then show "unat (ucast (d - 0x30) :: u64) = unat v mod 10"
    using u by (simp add: unsigned_ucast_eq take_bit_eq_mod unat_mod)
qed

lemma dec_step_digit:
  "dec_step (v div 10) (0x30 + ucast (v mod 10)) = Some v"
proof -
  note d = mod_10_digit [of v]
  have q: "unat (v div 10) = unat v div 10" by (simp add: unat_div)
  have lt: "unat v < 2 ^ 64" using unsigned_less [of v] by simp
  have le: "unat v div 10 * 10 + unat v mod 10 = unat v" by simp
  have mul: "checked_mul (v div 10) 10 = Some (v div 10 * 10)"
    using lt le q by (simp add: checked_mul_def del: div_mult_mod_eq)
  have um: "unat (v div 10 * 10) = unat v div 10 * 10"
    using lt le q by (simp add: unat_word_ariths del: div_mult_mod_eq)
  have add: "checked_plus (v div 10 * 10) (ucast (0x30 + ucast (v mod 10) - 0x30 :: u8)) = Some v"
    using lt le um d(5) unfolding checked_plus_def
    by (auto simp: word_unat_eq_iff unat_word_ariths simp del: div_mult_mod_eq)
  show ?thesis using d(2,3) mul add unfolding dec_step_def by simp
qed

lemma dec_step_first: "v div 10 = 0 \<Longrightarrow> dec_step 0 (0x30 + ucast (v mod 10)) = Some v"
  using dec_step_digit [of v] by simp

lemma dec_value_u64_dec: "digits_value dec_step 0 (u64_dec v) = Some v"
proof (induction v rule: dec_digits.induct)
  case (1 v)
  show ?case
  proof (cases "v div 10 = 0")
    case True
    then have "u64_dec v = [0x30 + ucast (v mod 10)]"
      unfolding u64_dec_def by (subst dec_digits.simps) simp
    then show ?thesis using dec_step_first [OF True] by simp
  next
    case False
    then have "u64_dec v = u64_dec (v div 10) @ [0x30 + ucast (v mod 10)]"
      unfolding u64_dec_def by (subst dec_digits.simps) simp
    then show ?thesis using 1 [OF False] dec_step_digit [of v] by (simp add: digits_value_append)
  qed
qed

lemma HEX_digit:
  assumes "n < 16"
  shows "HEX ! n \<noteq> 0"
    and "(if 0x30 \<le> HEX ! n \<and> HEX ! n \<le> 0x39 then Some (ucast (HEX ! n - 0x30) :: u32)
          else if 0x61 \<le> HEX ! n \<and> HEX ! n \<le> 0x66 then Some (ucast (HEX ! n - 0x61) + 10) else None)
         = Some (of_nat n)"
proof -
  have "n \<in> {0, 1, 2, 3, 4, 5, 6, 7, 8, 9, 10, 11, 12, 13, 14, 15}" using assms by (simp; arith)
  then show "HEX ! n \<noteq> 0"
    and "(if 0x30 \<le> HEX ! n \<and> HEX ! n \<le> 0x39 then Some (ucast (HEX ! n - 0x30) :: u32)
          else if 0x61 \<le> HEX ! n \<and> HEX ! n \<le> 0x66 then Some (ucast (HEX ! n - 0x61) + 10) else None)
         = Some (of_nat n)"
    by (elim insertE emptyE; simp add: HEX_def)+
qed

lemma nibble: "unat ((v :: u32) AND 0xF) = unat v mod 16" "unat (drop_bit 4 v) = unat v div 16"
proof -
  have "v AND 0xF = v AND mask 4" by (simp add: mask_eq_exp_minus_1)
  then have "v AND 0xF = v mod 16" by (simp add: take_bit_eq_mask [symmetric] take_bit_eq_mod)
  then show "unat (v AND 0xF) = unat v mod 16" by (simp add: unat_mod)
  show "unat (drop_bit 4 v) = unat v div 16" by (simp add: drop_bit_eq_div unat_div)
qed

lemma hex_step_digit: "hex_step (drop_bit 4 v) (HEX ! unat (v AND 0xF)) = Some v"
proof -
  let ?q = "drop_bit 4 v" and ?n = "unat (v AND 0xF)"
  have n: "?n < 16" by (simp add: nibble)
  have lt: "unat v < 2 ^ 32" using unsigned_less [of v] by simp
  have le: "unat v div 16 * 16 + unat v mod 16 = unat v" by simp
  have mul: "checked_mul ?q 16 = Some (?q * 16)"
    using lt le nibble(2) [of v] by (simp add: checked_mul_def del: div_mult_mod_eq)
  have um: "unat (?q * 16) = unat v div 16 * 16"
    using lt le nibble(2) [of v] by (simp add: unat_word_ariths del: div_mult_mod_eq)
  define d where "d = (of_nat ?n :: u32)"
  have un: "unat d = unat v mod 16"
    using nibble(1) [of v] unfolding d_def by (metis of_nat_unat ucast_id)
  have add: "checked_plus (?q * 16) d = Some v"
    using lt le um un unfolding checked_plus_def
    by (auto simp: word_unat_eq_iff unat_word_ariths simp del: div_mult_mod_eq)
  show ?thesis unfolding hex_step_def HEX_digit(2) [OF n] d_def [symmetric] using mul add by simp
qed

lemma hex_value_digits: "digits_value hex_step 0 (rev (hex_digits v)) = Some v"
proof (induction v rule: hex_digits.induct)
  case (1 v)
  show ?case
  proof (cases "v = 0")
    case True
    then show ?thesis by (simp add: hex_digits.simps)
  next
    case False
    then have "rev (hex_digits v) = rev (hex_digits (drop_bit 4 v)) @ [HEX ! unat (v AND 0xF)]"
      by (subst hex_digits.simps) simp
    then show ?thesis using 1 [OF False] hex_step_digit [of v] by (simp add: digits_value_append)
  qed
qed

lemma hex_value_write: "digits_value hex_step 0 (write_u32_hex v) = Some v"
proof (cases "v = 0")
  case True
  then show ?thesis
    by (simp add: write_u32_hex_def hex_step_def checked_mul_def checked_plus_def)
next
  case False
  then show ?thesis by (simp add: write_u32_hex_def hex_value_digits)
qed

lemma length_hex_digits: "unat v < 16 ^ k \<Longrightarrow> length (hex_digits v) \<le> k"
proof (induction k arbitrary: v)
  case 0
  then have "v = 0" by (simp add: unat_eq_zero)
  then show ?case by (simp add: hex_digits.simps)
next
  case (Suc k)
  have "length (hex_digits (drop_bit 4 v)) \<le> k"
    using Suc.prems by (intro Suc.IH) (simp add: nibble less_mult_imp_div_less mult.commute)
  then show ?case by (subst hex_digits.simps) simp
qed

lemma length_dec_digits: "unat v < 10 ^ Suc k \<Longrightarrow> length (dec_digits v) \<le> Suc k"
proof (induction k arbitrary: v)
  case 0
  then have "v div 10 = 0" by (simp add: unat_div unat_eq_zero [symmetric] word_unat_eq_iff)
  then show ?case by (subst dec_digits.simps) simp
next
  case (Suc k)
  have "length (dec_digits (v div 10)) \<le> Suc k"
    using Suc.prems by (intro Suc.IH) (simp add: unat_div less_mult_imp_div_less mult.commute)
  then show ?case by (subst dec_digits.simps) simp
qed

lemma u64_dec_field: "u64_dec v \<noteq> []" "0 \<notin> set (u64_dec v)" "length (u64_dec v) \<le> 20"
proof -
  show "u64_dec v \<noteq> []" unfolding u64_dec_def by (subst dec_digits.simps) simp
  have "0 \<notin> set (dec_digits v)"
  proof (induction v rule: dec_digits.induct)
    case (1 v)
    show ?case
      using 1 mod_10_digit(4) [of v] by (subst dec_digits.simps) (auto split: if_splits)
  qed
  then show "0 \<notin> set (u64_dec v)" by (simp add: u64_dec_def)
  have "unat v < 10 ^ Suc 19" using unsigned_less [of v, where 'a = nat] by simp
  then show "length (u64_dec v) \<le> 20" using length_dec_digits [of v 19] by (simp add: u64_dec_def)
qed

lemma write_u32_hex_field:
  "write_u32_hex v \<noteq> []" "0 \<notin> set (write_u32_hex v)" "length (write_u32_hex v) \<le> 8"
proof -
  show "write_u32_hex v \<noteq> []"
    unfolding write_u32_hex_def by (subst hex_digits.simps) simp
  have "0 \<notin> set (hex_digits v)"
  proof (induction v rule: hex_digits.induct)
    case (1 v)
    show ?case
      using 1 HEX_digit(1) [of "unat (v AND 0xF)"]
      by (subst hex_digits.simps) (auto simp: nibble split: if_splits)
  qed
  then show "0 \<notin> set (write_u32_hex v)" by (simp add: write_u32_hex_def)
  have "unat v < 16 ^ 8" using unsigned_less [of v] by simp
  then show "length (write_u32_hex v) \<le> 8"
    using length_hex_digits [of v 8] by (simp add: write_u32_hex_def)
qed

subsection \<open>Fields\<close>

lemma length_copy_at [simp]: "off + length src \<le> length dst \<Longrightarrow> length (copy_at off src dst) = length dst"
  by (simp add: copy_at_def)

lemma take_copy_at: "off \<le> length dst \<Longrightarrow> take off (copy_at off src dst) = take off dst"
  by (simp add: copy_at_def)

lemma write_one_field:
  assumes "off + length f < length p"
  shows "(copy_at off f p)[off + length f := b] = take off p @ f @ b # drop (off + length f + 1) p"
  using assms by (simp add: copy_at_def list_update_append Cons_nth_drop_Suc [symmetric])

lemma write_fields_at_eq:
  assumes "off + sum_list (map (\<lambda>f. length f + 1) fs) \<le> length p"
  shows "write_fields_at off fs p =
    take off p @ concat (map (\<lambda>f. f @ [0]) fs) @ drop (off + sum_list (map (\<lambda>f. length f + 1) fs)) p"
  using assms
proof (induction fs arbitrary: off p)
  case Nil
  then show ?case by simp
next
  case (Cons f fs)
  let ?p = "take off p @ f @ 0 # drop (off + length f + 1) p"
  have one: "(copy_at off f p)[off + length f := 0] = ?p"
    using Cons.prems by (intro write_one_field) simp
  define n where "n = off + length f + 1"
  have n: "n \<le> length p" using Cons.prems by (simp add: n_def)
  have "write_fields_at n fs ?p = take n ?p @ concat (map (\<lambda>f. f @ [0]) fs) @
    drop (n + sum_list (map (\<lambda>f. length f + 1) fs)) ?p"
    using Cons.prems by (intro Cons.IH) (simp add: n_def)
  moreover have "take n ?p = take off p @ f @ [0]"
    using n by (simp add: n_def)
  moreover have "drop (n + k) ?p = drop (n + k) p" for k
    using n by (simp add: n_def drop_Cons' add.commute)
  ultimately have "write_fields_at n fs ?p = (take off p @ f @ [0]) @ concat (map (\<lambda>f. f @ [0]) fs) @
    drop (n + sum_list (map (\<lambda>f. length f + 1) fs)) p" by presburger
  then show ?case using one by (simp add: n_def add.assoc add.left_commute)
qed

lemma next_raw_field:
  assumes "f \<noteq> []" and "0 \<notin> set f" and "n < FIELDS_MAX"
  shows "next_raw \<lparr>f_rest = f @ 0 # tail, f_taken = n\<rparr> = (\<lparr>f_rest = tail, f_taken = n + 1\<rparr>, Some f)"
proof -
  have "position (\<lambda>b. b = 0) (f @ 0 # tail) = Some (length f)"
    using assms(2) by (auto simp: position_Some_iff nth_append dest: nth_mem)
  then show ?thesis using assms by (simp add: next_raw_def)
qed

lemma next_u64_field:
  "n < FIELDS_MAX \<Longrightarrow> next_u64 \<lparr>f_rest = u64_dec v @ 0 # tail, f_taken = n\<rparr>
    = (\<lparr>f_rest = tail, f_taken = n + 1\<rparr>, Some v)"
  by (simp add: next_u64_def next_raw_field u64_dec_field dec_value_u64_dec)

lemma next_hex_u32_field:
  "n < FIELDS_MAX \<Longrightarrow> next_hex_u32 \<lparr>f_rest = write_u32_hex v @ 0 # tail, f_taken = n\<rparr>
    = (\<lparr>f_rest = tail, f_taken = n + 1\<rparr>, Some v)"
  using write_u32_hex_field [of v]
  by (simp add: next_hex_u32_def next_raw_field hex_value_write)

lemma write_fields_Val:
  "write_fields payload fs = (p, ok) \<Longrightarrow>
    (if ok then sum_list (map (\<lambda>f. length f + 1) fs) \<le> length payload \<and>
        p = concat (map (\<lambda>f. f @ [0]) fs) @ drop (sum_list (map (\<lambda>f. length f + 1) fs)) payload
     else p = payload \<and> length payload < sum_list (map (\<lambda>f. length f + 1) fs))"
  using write_fields_at_eq [of 0 fs payload] by (auto simp: write_fields_def split: if_splits)

subsection \<open>Result words\<close>

lemma se_code_inj: "se_code e = se_code e' \<longleftrightarrow> e = e'"
  by (cases e; cases e') (simp_all add: se_code_def)

lemma trap_encode_abi: "trap_encode_result r = abi_encode_result r"
proof (cases r)
  case (Inl e)
  then show ?thesis by (cases e) (simp_all add: se_code_def)
qed simp

lemma error_band: "is_error_encoded v \<longleftrightarrow> v \<in> se_code ` UNIV"
proof -
  have codes: "se_code ` UNIV = {-1, -2, -3, -4, -5, -6, -7, -8, -9}" (is "_ = ?C")
  proof
    show "se_code ` UNIV \<subseteq> ?C"
    proof
      fix w assume "w \<in> se_code ` UNIV"
      then obtain e where "w = se_code e" by auto
      then show "w \<in> ?C" by (cases e) (simp_all add: se_code_def)
    qed
    have "se_code e \<in> se_code ` UNIV" for e by simp
    from this [of InvalidArgument] this [of PermissionDenied] this [of ChannelUnavailable]
      this [of NotFound] this [of NoMemory] this [of WouldBlock] this [of DeviceError]
      this [of Busy] this [of NotSupported]
    show "?C \<subseteq> se_code ` UNIV" by (simp add: se_code_def)
  qed
  have band: "is_error_encoded v \<longleftrightarrow> 18446744073709551607 \<le> unat v"
    by (simp add: is_error_encoded_def ERROR_INTERVAL_LEN_def word_le_nat_alt)
  have lt: "unat v < 18446744073709551616" using unsigned_less [of v, where 'a = nat] by simp
  have "v \<in> ?C" if "18446744073709551607 \<le> unat v"
  proof -
    have "unat v = 18446744073709551607 \<or> unat v = 18446744073709551608 \<or> unat v = 18446744073709551609
      \<or> unat v = 18446744073709551610 \<or> unat v = 18446744073709551611 \<or> unat v = 18446744073709551612
      \<or> unat v = 18446744073709551613 \<or> unat v = 18446744073709551614 \<or> unat v = 18446744073709551615"
      using that lt by arith
    then show ?thesis
      by (elim disjE) (simp_all add: word_unat_eq_iff unsigned_minus_1_eq_mask mask_eq_exp_minus_1)
  qed
  moreover have "18446744073709551607 \<le> unat v" if "v \<in> ?C"
    using that by (elim insertE emptyE) (simp_all add: unsigned_minus_1_eq_mask mask_eq_exp_minus_1)
  ultimately show ?thesis unfolding band codes by blast
qed

lemma abi_decode_eq: "abi_decode v = (if is_error_encoded v then Inl (inv se_code v) else Inr v)"
proof (cases "is_error_encoded v")
  case True
  then obtain e where e: "v = se_code e" by (auto simp: error_band)
  have "inv se_code v = e" using e se_code_inj by (auto intro: inv_f_eq injI)
  then show ?thesis using True e by (cases e) (simp_all add: abi_decode_def se_code_inj)
next
  case False
  then have "v \<noteq> se_code e" for e by (auto simp: error_band)
  then show ?thesis using False by (simp add: abi_decode_def)
qed

lemma unat_pack_wait:
  assumes "unat p < 2 ^ 32"
  shows "unat (pack_wait_result p code) = unat p * 2 ^ 32 + unat code"
proof -
  let ?c = "ucast code :: u64"
  have lt: "unat code < 2 ^ 32" using unsigned_less [of code, where 'a = nat] by simp
  have c: "unat ?c = unat code" using lt by (simp add: unsigned_ucast_eq take_bit_eq_mod)
  have dis: "push_bit 32 p AND ?c = 0"
    by (rule bit_word_eqI) (auto simp: bit_and_iff bit_push_bit_iff bit_unsigned_iff dest: bit_imp_le_length)
  have "pack_wait_result p code = push_bit 32 p + ?c"
    unfolding pack_wait_result_def using disjunctive_add_eq_or [OF dis] by simp
  moreover have "unat (push_bit 32 p) = unat p * 2 ^ 32"
    using assms by (simp add: push_bit_eq_mult unat_word_ariths)
  ultimately show ?thesis using assms lt c by (simp add: unat_word_ariths)
qed

lemma ucast_low_word: "(ucast (v :: u64) :: u32) = of_nat (unat v)"
  by (simp add: word_unat_eq_iff unsigned_ucast_eq take_bit_eq_mod unsigned_of_nat)

lemma unpack_pack_wait:
  assumes "unat p < 2 ^ 32"
  shows "unpack_wait_result (pack_wait_result p code) = Inr (p, code)"
proof -
  have lt: "unat code < 2 ^ 32" using unsigned_less [of code, where 'a = nat] by simp
  have u: "unat (pack_wait_result p code) = unat p * 2 ^ 32 + unat code"
    by (rule unat_pack_wait [OF assms])
  have "drop_bit 32 (pack_wait_result p code) = p"
    using lt by (simp add: word_unat_eq_iff drop_bit_eq_div unat_div u)
  moreover have "ucast (pack_wait_result p code) = code"
    unfolding ucast_low_word u using lt
    by (simp add: word_unat_eq_iff unsigned_of_nat take_bit_eq_mod del: of_nat_add of_nat_mult)
  ultimately show ?thesis by (simp add: unpack_wait_result_def)
qed

subsection \<open>The header sector\<close>

definition header_prefix :: "u32 \<Rightarrow> bytes" where
  "header_prefix n = SUD_MAGIC @ to_le 4 (unat SUD_VERSION) @ to_le 4 (unat n)"

lemma encode_header_Val:
  assumes "1 \<le> n" and "n \<le> 4095"
  shows "encode_header n = Val (header_prefix n @ replicate 500 0)"
  using assms by (simp add: encode_header_def put_u32_def copy_at_def SUD_MAGIC_def header_prefix_def SECTOR_def)

lemma get_u32_eq:
  assumes "off + 4 \<le> length buf"
  shows "get_u32 buf off = v \<longleftrightarrow> take 4 (drop off buf) = to_le 4 (unat v)"
proof -
  let ?b = "take 4 (drop off buf)"
  have len: "length ?b = 4" using assms by simp
  have lt: "from_le ?b < 2 ^ 32" using from_le_less [of ?b] len by simp
  have "get_u32 buf off = v \<longleftrightarrow> from_le ?b = unat v"
    using lt unsigned_less [of v, where 'a = nat]
    by (auto simp: get_u32_def word_unat_eq_iff unsigned_of_nat take_bit_eq_mod)
  also have "\<dots> \<longleftrightarrow> ?b = to_le 4 (unat v)"
  proof
    assume "from_le ?b = unat v"
    then show "?b = to_le 4 (unat v)" using to_from_le [OF len] by argo
  next
    assume "?b = to_le 4 (unat v)"
    then show "from_le ?b = unat v" using unsigned_less [of v, where 'a = nat] by simp
  qed
  finally show ?thesis .
qed

section \<open>Properties\<close>

text \<open>
  C22: a system-call result survives the kernel's encoding and the user library's decoding: every
  error, and every value outside the nine reserved words, comes back as it was; and the decoder
  reports an error exactly on the reserved words.
\<close>

theorem syscall_result_roundtrip:
  "(decode_result (trap_encode_result r) = r \<longleftrightarrow> (case r of Inl e \<Rightarrow> True | Inr v \<Rightarrow> v < - 9)) \<and>
   (\<exists>e. decode_result v = Inl e) = is_error_encoded v"
proof
  have band: "is_error_encoded w \<longleftrightarrow> \<not> w < - 9" for w
    by (simp add: is_error_encoded_def ERROR_INTERVAL_LEN_def not_less)
  show "decode_result (trap_encode_result r) = r \<longleftrightarrow> (case r of Inl e \<Rightarrow> True | Inr v \<Rightarrow> v < - 9)"
  proof (cases r)
    case (Inl e)
    have "is_error_encoded (se_code e)" by (auto simp: error_band)
    moreover have "inv se_code (se_code e) = e" using se_code_inj by (auto intro: inv_f_eq injI)
    ultimately show ?thesis using Inl by (simp add: decode_result_def trap_encode_abi abi_decode_eq)
  next
    case (Inr w)
    then show ?thesis by (simp add: decode_result_def trap_encode_abi abi_decode_eq band)
  qed
  show "(\<exists>e. decode_result v = Inl e) = is_error_encoded v"
    by (simp add: decode_result_def abi_decode_eq)
qed

text \<open>
  C23: what a parent learns from \<open>wait_pid\<close> is what the child's exit recorded. For a process
  identifier that fits the 32 bits the packing gives it (and is not the all-ones one), the packed
  word passes the kernel's encoding, the user library's decoding and the non-blocking test
  unharmed, negative codes included, and unpacks to the same identifier and code.
\<close>

theorem wait_result_roundtrip:
  assumes "0 < p" and "p < 2 ^ 32 - 1"
  shows "\<exists>v. decode_result (trap_encode_result (Inr (pack_wait_result p code))) = Inr v \<and>
    map_wait_value v flags = Inr (Some (p, code))"
proof -
  have p: "0 < unat p" "unat p < 2 ^ 32 - 1"
    using assms by (simp_all add: word_less_nat_alt)
  let ?v = "pack_wait_result p code"
  have lt: "unat code < 2 ^ 32" using unsigned_less [of code, where 'a = nat] by simp
  have u: "unat ?v = unat p * 2 ^ 32 + unat code" using p by (intro unat_pack_wait) simp
  have "?v \<noteq> 0" using p u by (auto simp: word_unat_eq_iff)
  moreover have "\<not> is_error_encoded ?v"
    using p lt u by (simp add: is_error_encoded_def ERROR_INTERVAL_LEN_def word_le_nat_alt)
  ultimately show ?thesis
    using unpack_pack_wait [of p code] p
    by (simp add: decode_result_def trap_encode_abi abi_decode_eq map_wait_value_def)
qed

theorem wait_result_roundtrip_witness:
  "\<exists>v. decode_result (trap_encode_result (Inr (pack_wait_result 7 (fatal_exit_code SIGSEGV)))) = Inr v \<and>
    map_wait_value v WAIT_NOHANG = Inr (Some (7, - 11))"
  using wait_result_roundtrip [of 7 "fatal_exit_code SIGSEGV" WAIT_NOHANG]
  by (simp add: fatal_exit_code_def SIGSEGV_def)

text \<open>
  C24: a capability request written by a client is read back unchanged by the security service.
  The encoder refuses, leaving the payload alone, only if the text does not fit; 51 bytes always
  suffice, so every request fits the 128-byte message payload.
\<close>

theorem cap_issue_roundtrip:
  assumes "encode_cap_issue payload req = (p, fits)"
  shows "(if fits then length p = length payload \<and> parse_cap_issue p = Some req else p = payload)
    \<and> (51 \<le> length payload \<longrightarrow> fits)"
proof -
  let ?a = "u64_dec (ci_target_pid req)" and ?b = "write_u32_hex (ci_caps req)" and ?c = "u64_dec (ci_ttl req)"
  let ?n = "length ?a + 1 + (length ?b + 1 + (length ?c + 1))"
  have len: "?n \<le> 51"
    using u64_dec_field(3) [of "ci_target_pid req"] u64_dec_field(3) [of "ci_ttl req"]
      write_u32_hex_field(3) [of "ci_caps req"] by simp
  note w = write_fields_Val [OF assms [unfolded encode_cap_issue_def], simplified]
  show ?thesis
  proof (cases fits)
    case True
    then have p: "p = ?a @ 0 # ?b @ 0 # ?c @ 0 # drop ?n payload" and le: "?n \<le> length payload"
      using w by simp_all
    have "parse_cap_issue p = Some req"
      unfolding parse_cap_issue_def fields_split_def p
      by (simp add: next_u64_field next_hex_u32_field FIELDS_MAX_def)
    moreover have "length p = length payload" using p le by simp
    ultimately show ?thesis using True by simp
  next
    case False
    then show ?thesis using w len by simp
  qed
qed

theorem cap_issue_roundtrip_witness:
  "let req = \<lparr>ci_target_pid = 42, ci_caps = 0x50, ci_ttl = 1000000\<rparr>;
       (p, fits) = encode_cap_issue (replicate 128 0) req
   in fits \<and> parse_cap_issue p = Some req"
proof -
  let ?req = "\<lparr>ci_target_pid = 42, ci_caps = 0x50, ci_ttl = 1000000\<rparr>"
  obtain p fits where e: "encode_cap_issue (replicate 128 0) ?req = (p, fits)" by fastforce
  show ?thesis using cap_issue_roundtrip [OF e] e by simp
qed

text \<open>
  C25: the header sector of the user database is accepted exactly when its first twelve bytes are
  those the encoder writes for that sector count; so an encoded header parses to its count, and a
  blank or torn sector, a wrong version or an out-of-range count is refused.
\<close>

theorem userdb_header_exact:
  assumes "length buf = SECTOR"
  shows "parse_header buf = Some n \<longleftrightarrow> (\<exists>sector. encode_header n = Val sector \<and> take 12 buf = take 12 sector)"
proof -
  have len: "length buf = 512" using assms by (simp add: SECTOR_def)
  have cut: "take 12 buf = take 4 buf @ take 4 (drop 4 buf) @ take 4 (drop 8 buf)"
    using take_add [of 4 8 buf] take_add [of 4 4 "drop 4 buf"] by simp
  have pre: "take 12 buf = header_prefix n \<longleftrightarrow>
      take 4 buf = SUD_MAGIC \<and> get_u32 buf 4 = SUD_VERSION \<and> get_u32 buf 8 = n"
  proof -
    have "length (take 4 buf) = length SUD_MAGIC" using len by (simp add: SUD_MAGIC_def)
    then show ?thesis using len by (simp add: cut header_prefix_def get_u32_eq append_eq_append_conv)
  qed
  have rng: "\<not> (n = 0 \<or> 4095 < n) \<longleftrightarrow> 1 \<le> n \<and> n \<le> 4095"
    by (auto simp: word_le_nat_alt word_less_nat_alt unat_gt_0 Suc_le_eq)
  have "parse_header buf = Some n \<longleftrightarrow> take 12 buf = header_prefix n \<and> 1 \<le> n \<and> n \<le> 4095"
    unfolding pre rng [symmetric] by (auto simp: parse_header_def Let_def)
  also have "\<dots> \<longleftrightarrow> (\<exists>sector. encode_header n = Val sector \<and> take 12 buf = take 12 sector)"
  proof (cases "1 \<le> n \<and> n \<le> 4095")
    case True
    have "length (header_prefix n) = 12" by (simp add: header_prefix_def SUD_MAGIC_def)
    then show ?thesis using True by (auto simp: encode_header_Val)
  next
    case False
    then show ?thesis by (auto simp: encode_header_def)
  qed
  finally show ?thesis .
qed

theorem userdb_header_exact_witness:
  "\<exists>sector. encode_header 8 = Val sector \<and> parse_header sector = Some 8 \<and> parse_header (replicate 512 0) = None"
proof -
  let ?s = "header_prefix 8 @ replicate 500 0"
  have e: "encode_header 8 = Val ?s" by (rule encode_header_Val) simp_all
  have "length ?s = SECTOR" by (simp add: header_prefix_def SUD_MAGIC_def SECTOR_def)
  then have "parse_header ?s = Some 8" using userdb_header_exact [of ?s 8] e by blast
  moreover have "parse_header (replicate 512 0) = None"  by code_simp
  ultimately show ?thesis using e by blast
qed

end
