(* ===== verification/Grants.thy ===== *)
theory Grants
  imports Zero_Prelude
begin

text \<open>
  \<open>GrantBook\<close> of \<open>microkernel/src/security.rs\<close>: dynamically issued capability grants with an
  expiry time and an optional session binding, one-time login tokens, and the live sessions.
  \<open>now\<close> is the caller's monotonic millisecond reading. A process's effective capabilities are
  evaluated from its static bitmap and the grants that cover it.
\<close>

section \<open>Capability bits\<close>

definition CAP_MMIO :: u32 where "CAP_MMIO = 2 ^ 0"
definition CAP_BLOCK_DEV :: u32 where "CAP_BLOCK_DEV = 2 ^ 1"
definition CAP_SPAWN_SVC :: u32 where "CAP_SPAWN_SVC = 2 ^ 2"
definition CAP_ISSUER :: u32 where "CAP_ISSUER = 2 ^ 5"
definition CAP_SESSION :: u32 where "CAP_SESSION = 2 ^ 6"
definition CAP_ALL :: u32 where "CAP_ALL = CAP_MMIO OR CAP_BLOCK_DEV OR CAP_SPAWN_SVC"

section \<open>State and operations\<close>

definition MAX_GRANTS :: nat where "MAX_GRANTS = 16"
definition MAX_SESSIONS :: nat where "MAX_SESSIONS = 8"

datatype issue_error = InvalidScope | NoSuchProcess | IssueTableFull
datatype session_error = NoSuchToken | NotYours | Expired | SessionTableFull

record grant =
  g_token :: u64
  g_pid :: pid
  g_caps :: u32
  g_expires_at :: u64
  g_session :: u64
  g_login_once :: bool

record session_record =
  s_id :: u64
  s_leader :: pid

record grant_book =
  gb_grants :: "grant list"
  gb_sessions :: "session_record list"
  gb_next_token :: u64
  gb_next_session :: u64

definition covers :: "grant \<Rightarrow> pid \<Rightarrow> u64 \<Rightarrow> u64 \<Rightarrow> bool" where
  "covers g p session now \<longleftrightarrow>
     g_pid g = p \<and> now < g_expires_at g \<and> (g_session g = 0 \<or> g_session g = session)"

definition gb_new :: grant_book where
  "gb_new = \<lparr>gb_grants = [], gb_sessions = [], gb_next_token = 1, gb_next_session = 1\<rparr>"

definition sweep :: "u64 \<Rightarrow> grant_book \<Rightarrow> grant_book" where
  "sweep now b = b\<lparr>gb_grants := filter (\<lambda>g. now < g_expires_at g) (gb_grants b)\<rparr>"

text \<open>\<open>issue\<close> returns the swept book also when it fails for lack of room.\<close>

definition issue ::
    "pid \<Rightarrow> u32 \<Rightarrow> u64 \<Rightarrow> u64 \<Rightarrow> u64 \<Rightarrow> grant_book \<Rightarrow> grant_book \<times> (issue_error + u64)" where
  "issue target caps ttl target_session now b =
     (if caps = 0 \<or> caps AND CAP_ISSUER \<noteq> 0 then (b, Inl InvalidScope)
      else
        let b1 = sweep now b in
        if MAX_GRANTS \<le> length (gb_grants b1) then (b1, Inl IssueTableFull)
        else
          let token = gb_next_token b1;
              g = \<lparr>g_token = token, g_pid = target, g_caps = caps,
                   g_expires_at = (if ttl = 0 then - 1 else saturating_add now ttl),
                   g_session = target_session, g_login_once = caps AND CAP_SESSION \<noteq> 0\<rparr>
          in (b1\<lparr>gb_next_token := token + 1, gb_grants := gb_grants b1 @ [g]\<rparr>, Inr token))"

definition revoke :: "u64 \<Rightarrow> grant_book \<Rightarrow> grant_book \<times> bool" where
  "revoke token b =
     (let gs = filter (\<lambda>g. g_token g \<noteq> token) (gb_grants b)
      in (b\<lparr>gb_grants := gs\<rparr>, length (gb_grants b) \<noteq> length gs))"

definition effective :: "pid \<Rightarrow> u32 \<Rightarrow> u64 \<Rightarrow> u64 \<Rightarrow> grant_book \<Rightarrow> u32" where
  "effective p base session now b =
     foldl (\<lambda>caps g. if covers g p session now then caps OR g_caps g else caps) base (gb_grants b)"

definition purge_session_book :: "u64 \<Rightarrow> grant_book \<Rightarrow> grant_book" where
  "purge_session_book sid b =
     (if sid = 0 then b
      else b\<lparr>gb_grants := filter (\<lambda>g. g_session g \<noteq> sid) (gb_grants b),
             gb_sessions := filter (\<lambda>s. s_id s \<noteq> sid) (gb_sessions b)\<rparr>)"

definition begin_session ::
    "pid \<Rightarrow> u64 \<Rightarrow> u64 \<Rightarrow> grant_book \<Rightarrow> session_error + (grant_book \<times> u64 \<times> u64 option)" where
  "begin_session caller token now b =
     (case position (\<lambda>g. g_token g = token) (gb_grants b) of
        None \<Rightarrow> Inl NoSuchToken
      | Some idx \<Rightarrow>
          let g = gb_grants b ! idx in
          if g_pid g \<noteq> caller \<or> \<not> g_login_once g then Inl NotYours
          else if g_expires_at g \<le> now then Inl Expired
          else if \<not> (\<exists>s \<in> set (gb_sessions b). s_leader s = caller)
                  \<and> MAX_SESSIONS \<le> length (gb_sessions b) then Inl SessionTableFull
          else
            let b1 = b\<lparr>gb_grants := remove_nth idx (gb_grants b)\<rparr>;
                (b2, dead_sid) =
                  (case position (\<lambda>s. s_leader s = caller) (gb_sessions b1) of
                     Some pos \<Rightarrow>
                       (purge_session_book (s_id (gb_sessions b1 ! pos)) b1,
                        Some (s_id (gb_sessions b1 ! pos)))
                   | None \<Rightarrow> (b1, None));
                sid = gb_next_session b2
            in Inr (b2\<lparr>gb_next_session := sid + 1,
                       gb_sessions := gb_sessions b2 @ [\<lparr>s_id = sid, s_leader = caller\<rparr>]\<rparr>,
                    sid, dead_sid))"

definition gb_process_gone :: "pid \<Rightarrow> grant_book \<Rightarrow> grant_book \<times> u64 option" where
  "gb_process_gone p b =
     (let b1 = b\<lparr>gb_grants := filter (\<lambda>g. g_pid g \<noteq> p) (gb_grants b)\<rparr>
      in case position (\<lambda>s. s_leader s = p) (gb_sessions b1) of
           None \<Rightarrow> (b1, None)
         | Some pos \<Rightarrow>
             let sid = s_id (gb_sessions b1 ! pos) in (purge_session_book sid b1, Some sid))"

definition sessions_snapshot :: "grant_book \<Rightarrow> (u64 \<times> pid) list" where
  "sessions_snapshot b = map (\<lambda>s. (s_id s, s_leader s)) (gb_sessions b)"

section \<open>Effective capabilities\<close>

lemma effective_bit:
  "bit (effective p base session now b) i \<longleftrightarrow>
   bit base i \<or> (\<exists>g \<in> set (gb_grants b). covers g p session now \<and> bit (g_caps g) i)"
proof -
  have "bit (foldl (\<lambda>caps g. if covers g p session now then caps OR g_caps g else caps) base gs) i \<longleftrightarrow>
      bit base i \<or> (\<exists>g \<in> set gs. covers g p session now \<and> bit (g_caps g) i)" for gs
    by (induction gs arbitrary: base) (auto simp: bit_or_iff)
  then show ?thesis by (simp add: effective_def)
qed

lemma issuer_bit: "w AND CAP_ISSUER = 0 \<longleftrightarrow> \<not> bit w 5"
  unfolding CAP_ISSUER_def by (rule word_mask_test)

lemma issuer_mask_bit: "bit CAP_ISSUER n \<longleftrightarrow> n = 5"
  by (subst CAP_ISSUER_def, subst bit_exp_iff) (auto simp: possible_bit_def)

section \<open>Invariant\<close>

text \<open>Tokens and session identifiers are drawn from counters that start at one, so they are distinct,
  nonzero and below the counter; the issuing right is never on the books; there is one live session per leader.\<close>

definition gb_inv :: "grant_book \<Rightarrow> bool" where
  "gb_inv b \<longleftrightarrow>
     length (gb_grants b) \<le> MAX_GRANTS \<and> length (gb_sessions b) \<le> MAX_SESSIONS \<and>
     distinct (map g_token (gb_grants b)) \<and> (\<forall>g \<in> set (gb_grants b). 0 < g_token g \<and> g_token g < gb_next_token b) \<and>
     0 < gb_next_token b \<and>
     (\<forall>g \<in> set (gb_grants b). g_caps g \<noteq> 0 \<and> g_caps g AND CAP_ISSUER = 0 \<and>
        g_login_once g = (g_caps g AND CAP_SESSION \<noteq> 0)) \<and>
     distinct (map s_id (gb_sessions b)) \<and> distinct (map s_leader (gb_sessions b)) \<and>
     (\<forall>s \<in> set (gb_sessions b). 0 < s_id s \<and> s_id s < gb_next_session b) \<and> 0 < gb_next_session b"

text \<open>Dropping grants and sessions keeps the invariant.\<close>

lemma gb_inv_filter:
  assumes "gb_inv b"
  shows "gb_inv (b\<lparr>gb_grants := filter P (gb_grants b), gb_sessions := filter Q (gb_sessions b)\<rparr>)"
proof -
  have "length (filter P (gb_grants b)) \<le> MAX_GRANTS" "length (filter Q (gb_sessions b)) \<le> MAX_SESSIONS"
    using assms length_filter_le [of P "gb_grants b"] length_filter_le [of Q "gb_sessions b"]
    unfolding gb_inv_def by linarith+
  with assms show ?thesis by (simp add: gb_inv_def distinct_map_filter)
qed

lemma gb_inv_filter_grants: "gb_inv b \<Longrightarrow> gb_inv (b\<lparr>gb_grants := filter P (gb_grants b)\<rparr>)"
  using gb_inv_filter [where b = b and P = P and Q = "\<lambda>_. True"] by simp

lemma remove_nth_token:
  assumes "distinct (map g_token gs)" and "position (\<lambda>g. g_token g = t) gs = Some i"
  shows "remove_nth i gs = filter (\<lambda>g. g_token g \<noteq> t) gs"
proof -
  from assms(2) have i: "i < length gs" "g_token (gs ! i) = t" by (auto simp: position_Some_iff)
  define us x vs where "us = take i gs" and "x = gs ! i" and "vs = drop (Suc i) gs"
  then have gs: "gs = us @ x # vs" "length us = i" "g_token x = t"
    using id_take_nth_drop [OF i(1)] i by simp_all
  have "distinct (map g_token (us @ x # vs))" using assms(1) by (simp only: gs(1))
  then have "t \<notin> g_token ` set us" "t \<notin> g_token ` set vs" using gs(3) by simp_all
  then have "\<forall>g \<in> set us \<union> set vs. g_token g \<noteq> t" by blast
  then have "filter (\<lambda>g. g_token g \<noteq> t) (us @ x # vs) = us @ vs" using gs(3) by (simp add: filter_id_conv)
  then show ?thesis using gs(2) unfolding gs(1) by (simp add: remove_nth_def)
qed

text \<open>What \<open>begin_session\<close> does on success: the token is consumed, the caller's former session
  (if any) is purged and a fresh session is recorded.\<close>

lemma begin_session_Inr:
  assumes inv: "gb_inv b" and ok: "begin_session caller token now b = Inr (b', sid, dead)"
  obtains P Q where
    "b' = b\<lparr>gb_grants := filter P (gb_grants b), gb_next_session := sid + 1,
            gb_sessions := filter Q (gb_sessions b) @ [\<lparr>s_id = sid, s_leader = caller\<rparr>]\<rparr>"
    "sid = gb_next_session b"
    "\<And>g. P g \<longleftrightarrow> g_token g \<noteq> token \<and> (\<forall>d. dead = Some d \<longrightarrow> g_session g \<noteq> d)"
    "\<And>s. Q s \<longleftrightarrow> (\<forall>d. dead = Some d \<longrightarrow> s_id s \<noteq> d)"
    "dead = None \<longrightarrow> length (gb_sessions b) < MAX_SESSIONS"
    "case dead of None \<Rightarrow> caller \<notin> s_leader ` set (gb_sessions b)
       | Some d \<Rightarrow> \<exists>s \<in> set (gb_sessions b). s_leader s = caller \<and> s_id s = d"
    "\<exists>g \<in> set (gb_grants b). g_token g = token \<and> g_pid g = caller \<and> g_login_once g \<and> now < g_expires_at g"
proof -
  obtain i where i: "position (\<lambda>g. g_token g = token) (gb_grants b) = Some i"
    and g: "g_pid (gb_grants b ! i) = caller" "g_login_once (gb_grants b ! i)" "now < g_expires_at (gb_grants b ! i)"
    and room: "(\<exists>s \<in> set (gb_sessions b). s_leader s = caller) \<or> length (gb_sessions b) < MAX_SESSIONS"
    using ok by (auto simp: begin_session_def Let_def not_le split: option.splits if_splits)
  have rm: "remove_nth i (gb_grants b) = filter (\<lambda>g. g_token g \<noteq> token) (gb_grants b)"
    using inv i by (intro remove_nth_token) (auto simp: gb_inv_def)
  have tok: "\<exists>g \<in> set (gb_grants b). g_token g = token \<and> g_pid g = caller \<and> g_login_once g \<and> now < g_expires_at g"
    using i g by (auto simp: position_Some_iff intro!: bexI [of _ "gb_grants b ! i"])
  show thesis
  proof (cases "position (\<lambda>s. s_leader s = caller) (gb_sessions b)")
    case None
    then have fresh: "caller \<notin> s_leader ` set (gb_sessions b)" by (auto simp: position_None_iff)
    with room have "length (gb_sessions b) < MAX_SESSIONS" by auto
    moreover have "b' = b\<lparr>gb_grants := filter (\<lambda>g. g_token g \<noteq> token) (gb_grants b),
        gb_next_session := sid + 1, gb_sessions := gb_sessions b @ [\<lparr>s_id = sid, s_leader = caller\<rparr>]\<rparr>"
        "sid = gb_next_session b" "dead = None"
      using None i g rm ok by (auto simp: begin_session_def Let_def split: if_splits)
    ultimately show thesis using fresh tok
      by (intro that [where P = "\<lambda>g. g_token g \<noteq> token" and Q = "\<lambda>s. True"]) simp_all
  next
    case (Some k)
    then have k: "gb_sessions b ! k \<in> set (gb_sessions b)" "s_leader (gb_sessions b ! k) = caller"
      by (auto simp: position_Some_iff)
    let ?d = "s_id (gb_sessions b ! k)"
    have "?d \<noteq> 0" using inv k by (auto simp: gb_inv_def)
    then have "b' = b\<lparr>gb_grants := filter (\<lambda>g. g_token g \<noteq> token \<and> g_session g \<noteq> ?d) (gb_grants b),
        gb_next_session := sid + 1,
        gb_sessions := filter (\<lambda>s. s_id s \<noteq> ?d) (gb_sessions b) @ [\<lparr>s_id = sid, s_leader = caller\<rparr>]\<rparr>"
        "sid = gb_next_session b" "dead = Some ?d"
      using Some i g rm ok by (auto simp: begin_session_def purge_session_book_def Let_def split: if_splits)
    then show thesis using k tok
      by (intro that [where P = "\<lambda>g. g_token g \<noteq> token \<and> g_session g \<noteq> ?d" and Q = "\<lambda>s. s_id s \<noteq> ?d"])
        auto
  qed
qed

section \<open>Histories\<close>

datatype gb_op =
    OpIssue pid u32 u64 u64 u64
  | OpRevoke u64
  | OpBegin pid u64 u64
  | OpGone pid

fun gb_step :: "gb_op \<Rightarrow> grant_book \<Rightarrow> grant_book" where
  "gb_step (OpIssue target caps ttl session now) b = fst (issue target caps ttl session now b)"
| "gb_step (OpRevoke token) b = fst (revoke token b)"
| "gb_step (OpBegin caller token now) b =
     (case begin_session caller token now b of Inl e \<Rightarrow> b | Inr (b', r) \<Rightarrow> b')"
| "gb_step (OpGone p) b = fst (gb_process_gone p b)"

text \<open>Grants only enter the book through \<open>issue\<close>, which refuses the issuing right.\<close>

lemma gb_step_grants:
  "set (gb_grants (gb_step op b)) \<subseteq> set (gb_grants b) \<union> {g. g_caps g \<noteq> 0 \<and> g_caps g AND CAP_ISSUER = 0}"
proof (cases op)
  case (OpBegin caller token now)
  show ?thesis
    using set_remove_nth_subset [of _ "gb_grants b"]
    by (auto simp: OpBegin begin_session_def Let_def purge_session_book_def
        split: option.splits sum.splits prod.splits if_splits)
qed (auto simp: issue_def revoke_def gb_process_gone_def sweep_def purge_session_book_def Let_def
    split: option.splits)

lemma gb_history_no_issuer: "\<forall>g \<in> set (gb_grants (fold gb_step ops gb_new)). g_caps g AND CAP_ISSUER = 0"
proof -
  have "\<forall>g \<in> set (gb_grants (fold gb_step ops b)). g_caps g AND CAP_ISSUER = 0"
    if "\<forall>g \<in> set (gb_grants b). g_caps g AND CAP_ISSUER = 0" for b
    using that
  proof (induction ops arbitrary: b)
    case (Cons op ops)
    then show ?case using gb_step_grants [of op b] by (auto intro!: Cons.IH)
  qed simp
  from this [of gb_new] show ?thesis by (simp add: gb_new_def)
qed

lemma issue_inv:
  assumes inv: "gb_inv b" and ctr: "gb_next_token b \<noteq> - 1"
  shows "gb_inv (fst (issue target caps ttl session now b))"
proof -
  have sw: "gb_inv (sweep now b)" unfolding sweep_def by (rule gb_inv_filter_grants [OF inv])
  define b1 where "b1 = sweep now b"
  have b1: "gb_inv b1" "gb_next_token b1 \<noteq> - 1" using sw ctr by (simp_all add: b1_def sweep_def)
  have "gb_inv (b1\<lparr>gb_next_token := gb_next_token b1 + 1, gb_grants := gb_grants b1 @
      [\<lparr>g_token = gb_next_token b1, g_pid = target, g_caps = caps, g_expires_at = e,
        g_session = session, g_login_once = caps AND CAP_SESSION \<noteq> 0\<rparr>]\<rparr>)"
    if "caps \<noteq> 0" "caps AND CAP_ISSUER = 0" "length (gb_grants b1) < MAX_GRANTS" for e
  proof -
    have lt: "\<forall>g \<in> set (gb_grants b1). g_token g < gb_next_token b1" using b1(1) by (simp add: gb_inv_def)
    then have fresh: "gb_next_token b1 \<notin> g_token ` set (gb_grants b1)" by auto
    have up: "gb_next_token b1 < gb_next_token b1 + 1"
        "\<forall>g \<in> set (gb_grants b1). g_token g < gb_next_token b1 + 1"
      using less_succ(2) [OF b1(2)] lt by (auto intro: less_trans)
    have pos: "0 < gb_next_token b1" "0 < gb_next_token b1 + 1"
      using b1(1) up(1) by (auto simp: gb_inv_def intro: less_trans)
    show ?thesis using b1(1) that up fresh pos by (simp add: gb_inv_def Suc_le_eq)
  qed
  then show ?thesis using inv b1(1) unfolding issue_def b1_def [symmetric]
    by (simp add: Let_def)
qed

lemma begin_session_inv:
  assumes inv: "gb_inv b" and ctr: "gb_next_session b \<noteq> - 1"
    and ok: "begin_session caller token now b = Inr (b', sid, dead)"
  shows "gb_inv b'"
  using inv ok
proof (cases rule: begin_session_Inr)
  case (1 P Q)
  let ?ss = "filter Q (gb_sessions b)"
  have f: "gb_inv (b\<lparr>gb_grants := filter P (gb_grants b), gb_sessions := ?ss\<rparr>)"
    by (rule gb_inv_filter [OF inv])
  have leaders: "caller \<notin> s_leader ` set ?ss"
  proof (cases dead)
    case None
    then show ?thesis using 1(6) by auto
  next
    case (Some d)
    then obtain s where s: "s \<in> set (gb_sessions b)" "s_leader s = caller" "s_id s = d" using 1(6) by auto
    have "s' = s" if "s' \<in> set (gb_sessions b)" "s_leader s' = caller" for s'
      using that s(1,2) inv by (auto simp: gb_inv_def distinct_map inj_on_def)
    then show ?thesis using s(3) Some 1(4) by auto
  qed
  have room: "length ?ss < MAX_SESSIONS"
  proof (cases dead)
    case None
    then show ?thesis using 1(5) by (meson length_filter_le le_less_trans)
  next
    case (Some d)
    then obtain s where "s \<in> set (gb_sessions b)" "\<not> Q s" using 1(4,6) by auto
    then have "length ?ss < length (gb_sessions b)" by (rule length_filter_less)
    then show ?thesis using inv by (simp add: gb_inv_def)
  qed
  have ids: "\<forall>s \<in> set ?ss. 0 < s_id s \<and> s_id s < sid" "0 < sid" using inv 1(2) by (auto simp: gb_inv_def)
  then have fresh: "sid \<notin> s_id ` set ?ss" by auto
  have succ: "sid < sid + 1" "\<forall>s \<in> set ?ss. s_id s < sid + 1" "0 < sid + 1"
    using ids less_succ(2) [of sid] ctr 1(2) by (auto intro: less_trans)
  show ?thesis
    using f leaders room ids fresh succ unfolding 1(1) by (simp add: gb_inv_def)
qed

lemma gone_inv: "gb_inv b \<Longrightarrow> gb_inv (fst (gb_process_gone p b))"
proof -
  assume inv: "gb_inv b"
  define b1 where "b1 = b\<lparr>gb_grants := filter (\<lambda>g. g_pid g \<noteq> p) (gb_grants b)\<rparr>"
  have "gb_inv b1" unfolding b1_def by (rule gb_inv_filter_grants [OF inv])
  then show ?thesis
    unfolding gb_process_gone_def b1_def [symmetric]
    by (auto simp: Let_def purge_session_book_def gb_inv_filter split: option.splits)
qed

text \<open>Every operation keeps the invariant as long as the counters do not wrap, and advances them
  by at most one.\<close>

lemma gb_step_inv:
  assumes "gb_inv b" and "gb_next_token b \<noteq> - 1" "gb_next_session b \<noteq> - 1"
  shows "gb_inv (gb_step op b) \<and>
    gb_next_token (gb_step op b) \<in> {gb_next_token b, gb_next_token b + 1} \<and>
    gb_next_session (gb_step op b) \<in> {gb_next_session b, gb_next_session b + 1}"
proof (cases op)
  case (OpIssue target caps ttl session now)
  then show ?thesis using issue_inv [OF assms(1,2)]
    by (auto simp: issue_def sweep_def Let_def)
next
  case (OpRevoke token)
  then show ?thesis using gb_inv_filter_grants [OF assms(1)] by (simp add: revoke_def Let_def)
next
  case (OpBegin caller token now)
  show ?thesis
  proof (cases "begin_session caller token now b")
    case (Inr r)
    then obtain b' sid dead where r: "begin_session caller token now b = Inr (b', sid, dead)" by (cases r) auto
    have "gb_next_token b' = gb_next_token b \<and> gb_next_session b' = gb_next_session b + 1"
      by (rule begin_session_Inr [OF assms(1) r]) simp
    then show ?thesis using OpBegin r begin_session_inv [OF assms(1,3) r] by simp
  qed (use OpBegin assms in simp)
next
  case (OpGone p)
  then show ?thesis using gone_inv [OF assms(1), of p]
    by (auto simp: gb_process_gone_def purge_session_book_def Let_def split: option.splits)
qed

lemma gb_new_inv: "gb_inv gb_new"
  by (simp add: gb_inv_def gb_new_def)

lemma gb_fold_inv:
  assumes "gb_inv b" and "unat (gb_next_token b) + length ops < 2 ^ 64"
    and "unat (gb_next_session b) + length ops < 2 ^ 64"
  shows "gb_inv (fold gb_step ops b) \<and>
    unat (gb_next_token (fold gb_step ops b)) \<in> {unat (gb_next_token b) .. unat (gb_next_token b) + length ops} \<and>
    unat (gb_next_session (fold gb_step ops b)) \<in>
      {unat (gb_next_session b) .. unat (gb_next_session b) + length ops}"
  using assms
proof (induction ops arbitrary: b)
  case (Cons op ops)
  have max: "w \<noteq> - 1" if "unat w + Suc (length ops) < 2 ^ 64" for w :: u64
    using that by (auto simp: unsigned_minus_1_eq_mask mask_eq_exp_minus_1)
  have nt: "gb_next_token b \<noteq> - 1" "gb_next_session b \<noteq> - 1"
    by (rule max, use Cons.prems in simp)+
  note step = gb_step_inv [OF Cons.prems(1) nt, of op]
  have "unat (gb_next_token (gb_step op b)) \<in> {unat (gb_next_token b), unat (gb_next_token b) + 1}"
    "unat (gb_next_session (gb_step op b)) \<in> {unat (gb_next_session b), unat (gb_next_session b) + 1}"
    using step nt by (auto simp: unat_succ)
  with Cons.IH [of "gb_step op b"] Cons.prems step show ?case by auto
qed simp

text \<open>A consumed or revoked token does not come back.\<close>

lemma gb_step_tokens:
  "g_token ` set (gb_grants (gb_step op b)) \<subseteq> insert (gb_next_token b) (g_token ` set (gb_grants b))"
proof (cases op)
  case (OpBegin caller token now)
  show ?thesis
    using set_remove_nth_subset [of _ "gb_grants b"]
    by (auto simp: OpBegin begin_session_def Let_def purge_session_book_def
        split: option.splits sum.splits prod.splits if_splits)
qed (auto simp: issue_def revoke_def gb_process_gone_def sweep_def purge_session_book_def Let_def
    split: option.splits)

lemma gb_fold_spent:
  assumes "gb_inv b" and "unat (gb_next_token b) + length ops < 2 ^ 64"
    and "unat (gb_next_session b) + length ops < 2 ^ 64"
    and "t < gb_next_token b" and "t \<notin> g_token ` set (gb_grants b)"
  shows "t \<notin> g_token ` set (gb_grants (fold gb_step ops b))"
  using assms
proof (induction ops arbitrary: b)
  case (Cons op ops)
  note one = gb_fold_inv [of b "[op]", simplified]
  have inv: "gb_inv (gb_step op b)"
    "unat (gb_next_token b) \<le> unat (gb_next_token (gb_step op b))"
    "unat (gb_next_token (gb_step op b)) \<le> Suc (unat (gb_next_token b))"
    "unat (gb_next_session (gb_step op b)) \<le> Suc (unat (gb_next_session b))"
    using one Cons.prems by simp_all
  have "t < gb_next_token (gb_step op b)"
    using Cons.prems(4) inv(2) by (simp add: word_less_nat_alt)
  moreover have "t \<notin> g_token ` set (gb_grants (gb_step op b))"
    using gb_step_tokens [of op b] Cons.prems(4,5) by auto
  ultimately show ?case using Cons.IH [OF inv(1)] inv Cons.prems(2,3) by simp
qed simp

section \<open>Properties\<close>

text \<open>
  C11: the issuing right cannot be delegated. After any history of issues, revocations, logins and
  process deaths, the effective capabilities of a process contain \<open>CAP_ISSUER\<close> exactly when its
  static bitmap does, whatever its session and the time.
\<close>

theorem issuer_not_delegable:
  "effective p base session now (fold gb_step ops gb_new) AND CAP_ISSUER = base AND CAP_ISSUER"
proof -
  have "\<not> bit (g_caps g) 5" if "g \<in> set (gb_grants (fold gb_step ops gb_new))" for g
    using gb_history_no_issuer that by (simp add: issuer_bit)
  then have "bit (effective p base session now (fold gb_step ops gb_new)) 5 = bit base 5"
    by (auto simp: effective_bit)
  then show ?thesis
    by (intro bit_word_eqI) (auto simp: bit_and_iff issuer_mask_bit)
qed

text \<open>
  C20: an accepted grant adds exactly its bits, to exactly its target, until it expires and only
  under the session it is bound to (any session if unbound). Sweeping expired rows on the way
  changes nobody's effective capabilities at any later time.
\<close>

theorem issue_effect:
  assumes "issue target caps ttl tsession now b = (b', Inr token)" and "now \<le> now'"
  shows "bit (effective p base session now' b') i \<longleftrightarrow>
    bit (effective p base session now' b) i \<or>
    (p = target \<and> now' < (if ttl = 0 then - 1 else saturating_add now ttl) \<and>
     (tsession = 0 \<or> tsession = session) \<and> bit caps i)"
proof -
  obtain g where b': "gb_grants b' = filter (\<lambda>g. now < g_expires_at g) (gb_grants b) @ [g]"
    and g: "g_pid g = target" "g_caps g = caps" "g_session g = tsession"
      "g_expires_at g = (if ttl = 0 then - 1 else saturating_add now ttl)"
    using assms(1) by (auto simp: issue_def sweep_def Let_def split: if_splits)
  have "covers h p session now' \<Longrightarrow> now < g_expires_at h" for h
    using assms(2) by (auto simp: covers_def)
  then show ?thesis
    by (auto simp: effective_bit b' covers_def g)
qed

theorem issue_effect_witness:
  "\<exists>b' token. issue 5 4 100 0 10 gb_new = (b', Inr token) \<and> (10 :: u64) \<le> 50 \<and>
     bit (effective 5 0 0 50 b') 2 \<and> \<not> bit (effective 6 0 0 50 b') 2"
proof -
  obtain b' token where i: "issue 5 4 100 0 10 gb_new = (b', Inr token)"
    by (simp add: issue_def gb_new_def sweep_def MAX_GRANTS_def CAP_ISSUER_def)
  have e: "effective p 0 0 50 gb_new = 0" for p by (simp add: effective_def gb_new_def)
  have le: "(10 :: u64) \<le> 50" by simp
  have b: "bit (4 :: u32) 2" by code_simp
  have s: "saturating_add 10 100 = 110" by (simp add: saturating_add_def)
  have "bit (effective 5 0 0 50 b') 2"
    using issue_effect [OF i le, of 5 0 0 2] e b s by simp
  moreover have "\<not> bit (effective 6 0 0 50 b') 2"
    using issue_effect [OF i le, of 6 0 0 2] e by simp
  ultimately show ?thesis using i by auto
qed

text \<open>
  C21: revocation is immediate and precise: from the very next evaluation on, the grants of the
  revoked token contribute nothing and all others contribute as before; the answer says whether
  the token was on the books.
\<close>

theorem revoke_effect:
  "(bit (effective p base session now (fst (revoke token b))) i \<longleftrightarrow> bit base i \<or>
      (\<exists>g \<in> set (gb_grants b). g_token g \<noteq> token \<and> covers g p session now \<and> bit (g_caps g) i)) \<and>
   (snd (revoke token b) \<longleftrightarrow> (\<exists>g \<in> set (gb_grants b). g_token g = token))"
proof
  show "bit (effective p base session now (fst (revoke token b))) i \<longleftrightarrow> bit base i \<or>
     (\<exists>g \<in> set (gb_grants b). g_token g \<noteq> token \<and> covers g p session now \<and> bit (g_caps g) i)"
    by (auto simp: effective_bit revoke_def Let_def)
  have "length xs = length (filter P xs) \<longleftrightarrow> (\<forall>x \<in> set xs. P x)" for P and xs :: "grant list"
    using length_filter_less [of _ xs P] by (auto simp: filter_id_conv)
      (metis filter_id_conv length_filter_less nat_neq_iff)
  then show "snd (revoke token b) \<longleftrightarrow> (\<exists>g \<in> set (gb_grants b). g_token g = token)"
    by (auto simp: revoke_def Let_def)
qed

text \<open>
  C12: a login token opens at most one session. Once \<open>begin_session\<close> accepted it, no later attempt
  with the same token succeeds, by anyone and after any further history; the attempt is answered
  \<open>NoSuchToken\<close>. The histories are shorter than the 64-bit token counter.
\<close>

theorem token_single_use:
  assumes len: "length pre + length post < 2 ^ 63"
    and ok: "begin_session caller token now (fold gb_step pre gb_new) = Inr (b', sid, dead)"
  shows "begin_session other token now' (fold gb_step post b') = Inl NoSuchToken"
proof -
  define b where "b = fold gb_step pre gb_new"
  have b: "gb_inv b" "unat (gb_next_token b) \<le> 1 + length pre" "unat (gb_next_session b) \<le> 1 + length pre"
    using gb_fold_inv [OF gb_new_inv, of pre] len by (auto simp: b_def gb_new_def)
  have max: "gb_next_session b \<noteq> - 1"
    using b(3) len by (auto simp: unsigned_minus_1_eq_mask mask_eq_exp_minus_1)
  note ok' = ok [folded b_def]
  have inv': "gb_inv b'" by (rule begin_session_inv [OF b(1) max ok'])
  have eff: "gb_next_token b' = gb_next_token b" "gb_next_session b' = gb_next_session b + 1"
      "token \<notin> g_token ` set (gb_grants b')" "token < gb_next_token b"
    by (rule begin_session_Inr [OF b(1) ok']; use b(1) in \<open>auto simp: gb_inv_def\<close>)+
  have "token \<notin> g_token ` set (gb_grants (fold gb_step post b'))"
    using b(2,3) len max eff by (intro gb_fold_spent [OF inv']) (simp_all add: unat_succ)
  then have "position (\<lambda>g. g_token g = token) (gb_grants (fold gb_step post b')) = None"
    by (auto simp: position_None_iff)
  then show ?thesis by (simp add: begin_session_def)
qed

theorem token_single_use_witness:
  "\<exists>b' sid dead. begin_session 5 1 20 (fold gb_step [OpIssue 5 64 90 0 10] gb_new) = Inr (b', sid, dead) \<and>
     begin_session 5 1 21 (fold gb_step [OpRevoke 3] b') = Inl NoSuchToken"
proof -
  obtain b' sid dead where ok: "begin_session 5 1 20 (fold gb_step [OpIssue 5 64 90 0 10] gb_new) = Inr (b', sid, dead)"
    by (simp add: begin_session_def issue_def gb_new_def sweep_def MAX_GRANTS_def CAP_ISSUER_def
        CAP_SESSION_def MAX_SESSIONS_def Let_def saturating_add_def)
  have "length [OpIssue 5 64 90 0 10] + length [OpRevoke 3] < 2 ^ 63" by simp
  from token_single_use [OF this ok, of 5 21] ok show ?thesis by blast
qed

text \<open>
  C10: the book stays bounded and unambiguous in every history of fewer than \<open>2 ^ 63\<close> operations: at most
  16 grants and 8 sessions, pairwise distinct tokens, session identifiers and session leaders, all
  tokens and session identifiers nonzero and below the counters they are drawn from, which are nonzero;
  no grant is empty or carries the issuing right, and the one-time flag is the session bit.
\<close>

theorem grant_book_invariant:
  assumes "length ops < 2 ^ 63"
  shows "gb_inv (fold gb_step ops gb_new)"
  using gb_fold_inv [OF gb_new_inv, of ops] assms by (simp add: gb_new_def)

theorem grant_book_invariant_witness:
  "gb_inv (fold gb_step [OpIssue 5 64 0 0 10, OpBegin 5 1 20, OpIssue 6 4 9 1 21, OpGone 5] gb_new)"
  using grant_book_invariant [of "[OpIssue 5 64 0 0 10, OpBegin 5 1 20, OpIssue 6 4 9 1 21, OpGone 5]"]
  by simp

end
