(* ===== verification/Process_Table.thy ===== *)
theory Process_Table
  imports Abi Grants
begin

text \<open>
  The process table of \<open>microkernel/src/process.rs\<close>: records, saved register frames, the owner
  array, identifier and slot allocation, the creation paths (\<open>spawn\<close>, \<open>fork\<close>,
  \<open>create_thread\<close>), capability and session fields, and the state transitions that the scheduler
  drives under the table lock. The table, the owner array, the frames and the identifier counter
  form one state record, which the scheduler extends. Addresses fixed by the linker and random
  numbers are arguments.
\<close>

section \<open>Constants\<close>

definition MAX_PROCESSES :: nat where "MAX_PROCESSES = 256"
definition INIT_PID :: u64 where "INIT_PID = 2"
definition KERNEL_STACK_SIZE :: nat where "KERNEL_STACK_SIZE = 0x10000"
definition USER_STACK_TOP :: nat where "USER_STACK_TOP = 0xFFFFF000"
definition USER_STACK_LEN :: nat where "USER_STACK_LEN = 0x20000"
definition USER_HEAP_BASE :: nat where "USER_HEAP_BASE = 0x10000000"
definition USER_PAGE_SIZE :: nat where "USER_PAGE_SIZE = 4096"

section \<open>Saved register frames\<close>

record fpu_state =
  fp_v :: "128 word list"
  fp_fpsr :: u32
  fp_fpcr :: u32

definition fpu_new :: fpu_state where
  "fpu_new = \<lparr>fp_v = replicate 32 0, fp_fpsr = 0, fp_fpcr = 0\<rparr>"

record trap_frame =
  tf_regs :: "u64 list"
  tf_sp_el0 :: u64
  tf_elr_el1 :: u64
  tf_spsr_el1 :: u64
  tf_sp_el1 :: u64
  tf_tpidr_el0 :: u64
  tf_fpu :: fpu_state
  tf_owner_slot :: u64

definition frame_new :: trap_frame where
  "frame_new = \<lparr>tf_regs = replicate 31 0, tf_sp_el0 = 0, tf_elr_el1 = 0, tf_spsr_el1 = 0,
    tf_sp_el1 = 0, tf_tpidr_el0 = 0, tf_fpu = fpu_new, tf_owner_slot = - 1\<rparr>"

text \<open>\<open>thread_exit\<close> is the address of the return trampoline.\<close>

definition init_user :: "u64 \<Rightarrow> u64 \<Rightarrow> nat \<Rightarrow> nat \<Rightarrow> trap_frame \<Rightarrow> trap_frame" where
  "init_user thread_exit entry user_sp kernel_sp f =
    f\<lparr>tf_regs := (replicate 31 0)[30 := thread_exit], tf_sp_el0 := of_nat user_sp,
      tf_elr_el1 := entry, tf_spsr_el1 := 0, tf_sp_el1 := of_nat kernel_sp,
      tf_tpidr_el0 := 0, tf_fpu := fpu_new\<rparr>"

definition init_thread :: "nat \<Rightarrow> nat \<Rightarrow> nat \<Rightarrow> nat \<Rightarrow> nat \<Rightarrow> trap_frame \<Rightarrow> trap_frame" where
  "init_thread entry user_sp kernel_sp tls arg f =
    f\<lparr>tf_regs := (replicate 31 0)[0 := of_nat arg], tf_sp_el0 := of_nat user_sp,
      tf_elr_el1 := of_nat entry, tf_spsr_el1 := 0, tf_sp_el1 := of_nat kernel_sp,
      tf_tpidr_el0 := of_nat tls, tf_fpu := fpu_new, tf_owner_slot := - 1\<rparr>"

section \<open>Records\<close>

datatype process_state = Runnable | Running | Blocked | Dying | Zombie

datatype wait_spec = WaitAny | WaitPid pid

fun ws_matches :: "wait_spec \<Rightarrow> pid \<Rightarrow> bool" where
  "ws_matches WaitAny dying = True"
| "ws_matches (WaitPid p) dying = (p = dying)"

definition wait_wake_decision :: "wait_spec option \<Rightarrow> pid \<Rightarrow> bool" where
  "wait_wake_decision registration dying =
    (case registration of Some spec \<Rightarrow> ws_matches spec dying | None \<Rightarrow> False)"

text \<open>An address space is named by the physical address of its root table.\<close>

type_synonym aspace = nat

record process_record =
  p_pid :: pid
  p_name :: string
  p_entry :: u64
  p_state :: process_state
  p_slot :: nat
  p_addr_space :: "aspace option"
  p_tgid :: pid
  p_capabilities :: u32
  p_entry_point :: "nat option"
  p_user_stack_top :: "nat option"
  p_started :: bool
  p_block_intent :: bool
  p_wake_pending :: bool
  p_pending_recv :: "u32 option"
  p_pending_signals :: u16
  p_parent :: "pid option"
  p_adopted :: bool
  p_exit_code :: "u32 option"
  p_wait_target :: "wait_spec option"
  p_brk :: nat
  p_session :: u64

datatype map_error = MapOutOfMemory | AlreadyMapped | KernelRegion

datatype elf_error =
    TooShort | BadMagic | UnsupportedClass | UnsupportedEndian | UnsupportedType | InvalidHeader
  | ProgramHeaderOutOfBounds | ProgramHeaderSizeMismatch | UnsupportedProgramHeaderSize
  | InvalidProgramHeaderCount | FileNotFound | ElfOutOfMemory | TooManySegments | MalformedDynamic
  | TooManyRelocations | UnsupportedRelocation | TooManyNeeded

datatype process_error =
    PNoSuchProcess | PTableFull | PNoMemory | PInvalidArgument | PPermissionDenied
  | PElfError elf_error | PMapError map_error

record ptable =
  pt_table :: "process_record option list"
  pt_owner :: "u8 list"
  pt_frames :: "trap_frame list"
  pt_next_pid :: u64

definition PROCESS_OWNER_NONE :: u8 where "PROCESS_OWNER_NONE = - 1"

text \<open>Addresses fixed when the kernel is linked.\<close>

record kernel_image =
  ki_thread_exit :: u64
  ki_kernel_stacks :: nat

section \<open>Identifiers and slots\<close>

definition PID_SEQ_BITS :: nat where "PID_SEQ_BITS = 16"
definition PID_SEQ_MASK :: u64 where "PID_SEQ_MASK = push_bit PID_SEQ_BITS 1 - 1"
definition PID_SEQ_FIRST :: u64 where "PID_SEQ_FIRST = 2"
definition PID_SEQ_LAST :: u64 where "PID_SEQ_LAST = PID_SEQ_MASK"

definition next_pid_raw :: "u64 \<Rightarrow> u64" where
  "next_pid_raw cur =
    (let seq = (cur AND PID_SEQ_MASK) + 1; gen = drop_bit PID_SEQ_BITS cur in
     if seq > PID_SEQ_LAST then push_bit PID_SEQ_BITS (gen + 1) OR PID_SEQ_FIRST
     else push_bit PID_SEQ_BITS gen OR seq)"

text \<open>The compare-and-swap loop of \<open>alloc_pid\<close> is one atomic step of the counter.\<close>

definition alloc_pid :: "'a ptable_scheme \<Rightarrow> 'a ptable_scheme \<times> pid" where
  "alloc_pid t = (t\<lparr>pt_next_pid := next_pid_raw (pt_next_pid t)\<rparr>, pt_next_pid t)"

text \<open>
  \<open>table.get(slot)\<close> yields nothing out of range, whereas \<open>table[slot]\<close> panics there. The owner
  array has \<open>MAX_PROCESSES\<close> entries and indexing it is checked as well.
\<close>

definition pt_get :: "'a ptable_scheme \<Rightarrow> nat \<Rightarrow> process_record option" where
  "pt_get t i = (if i < length (pt_table t) then pt_table t ! i else None)"

definition pt_set :: "nat \<Rightarrow> process_record option \<Rightarrow> 'a ptable_scheme \<Rightarrow> 'a ptable_scheme" where
  "pt_set i e t = t\<lparr>pt_table := (pt_table t)[i := e]\<rparr>"

definition owner_load :: "nat \<Rightarrow> 'a ptable_scheme \<Rightarrow> u8 outcome" where
  "owner_load i t = (if i < length (pt_owner t) then Val (pt_owner t ! i) else Panic)"

definition owner_store :: "nat \<Rightarrow> u8 \<Rightarrow> 'a ptable_scheme \<Rightarrow> 'a ptable_scheme outcome" where
  "owner_store i c t = (if i < length (pt_owner t) then Val (t\<lparr>pt_owner := (pt_owner t)[i := c]\<rparr>) else Panic)"

definition pt_find :: "pid \<Rightarrow> 'a ptable_scheme \<Rightarrow> nat option" where
  "pt_find p t = position (\<lambda>e. case e of Some r \<Rightarrow> p_pid r = p | None \<Rightarrow> False) (pt_table t)"

definition pt_find_record :: "pid \<Rightarrow> 'a ptable_scheme \<Rightarrow> process_record option" where
  "pt_find_record p t = Option.bind (pt_find p t) (pt_get t)"

definition pt_modify :: "nat \<Rightarrow> (process_record \<Rightarrow> process_record) \<Rightarrow> 'a ptable_scheme \<Rightarrow> 'a ptable_scheme" where
  "pt_modify i f t = pt_set i (map_option f (pt_get t i)) t"

definition pt_modify_pid :: "pid \<Rightarrow> (process_record \<Rightarrow> process_record) \<Rightarrow> 'a ptable_scheme \<Rightarrow> 'a ptable_scheme" where
  "pt_modify_pid p f t = (case pt_find p t of None \<Rightarrow> t | Some i \<Rightarrow> pt_modify i f t)"

definition alloc_table_slot_locked :: "'a ptable_scheme \<Rightarrow> ('a ptable_scheme \<times> nat option) outcome" where
  "alloc_table_slot_locked t =
    (case position (\<lambda>e. e = None) (pt_table t) of
       Some idx \<Rightarrow> obind (owner_store idx PROCESS_OWNER_NONE t) (\<lambda>t. Val (t, Some idx))
     | None \<Rightarrow>
         if length (pt_table t) < MAX_PROCESSES then
           let idx = length (pt_table t) in
           obind (owner_store idx PROCESS_OWNER_NONE t)
             (\<lambda>t. Val (t\<lparr>pt_table := pt_table t @ [None]\<rparr>, Some idx))
         else Val (t, None))"

definition process_init :: "'a ptable_scheme \<Rightarrow> 'a ptable_scheme" where
  "process_init t = t\<lparr>pt_owner := map (\<lambda>_. PROCESS_OWNER_NONE) (pt_owner t),
    pt_table := map (\<lambda>_. None) (pt_table t), pt_next_pid := PID_SEQ_FIRST\<rparr>"

section \<open>Creation\<close>

definition kernel_stack_top_raw :: "kernel_image \<Rightarrow> nat \<Rightarrow> nat" where
  "kernel_stack_top_raw ki slot = ki_kernel_stacks ki + slot * KERNEL_STACK_SIZE + KERNEL_STACK_SIZE"

definition user_stack_top_raw :: "nat \<Rightarrow> nat" where
  "user_stack_top_raw slot = USER_STACK_TOP"

text \<open>One draw of \<open>rng::next\<close>: the generator state, the cycle counter and the core identifier give
  the new state and the value.\<close>

definition rng_next :: "u64 \<Rightarrow> u64 \<Rightarrow> u64 \<Rightarrow> u64 \<times> u64" where
  "rng_next state counter mpidr =
    (let candidate = state + 0x9E3779B97F4A7C15;
         z = candidate XOR word_rotl 17 counter XOR mpidr;
         z = (z XOR drop_bit 30 z) * 0xBF58476D1CE4E5B9;
         z = (z XOR drop_bit 27 z) * 0x94D049BB133111EB
     in (candidate, z XOR drop_bit 31 z))"

definition random_page_offset :: "u64 \<Rightarrow> nat \<Rightarrow> nat" where
  "random_page_offset draw max_pages = (if max_pages = 0 then 0 else unat draw mod max_pages)"

definition COW_BISECT_SKIP_ASLR :: bool where "COW_BISECT_SKIP_ASLR = False"

definition randomized_user_stack_top :: "u64 \<Rightarrow> nat \<Rightarrow> nat" where
  "randomized_user_stack_top draw base =
    (if COW_BISECT_SKIP_ASLR then base
     else let max_pages = (USER_STACK_LEN div 2) div USER_PAGE_SIZE;
              offset_pages = random_page_offset draw (min max_pages 256)
          in base - offset_pages * USER_PAGE_SIZE)"

definition spawn_record :: "pid \<Rightarrow> nat \<Rightarrow> u64 \<Rightarrow> string \<Rightarrow> process_record" where
  "spawn_record pid slot entry name =
    \<lparr>p_pid = pid, p_name = name, p_entry = entry, p_state = Runnable, p_slot = slot,
     p_addr_space = None, p_tgid = pid, p_capabilities = 0, p_entry_point = None,
     p_user_stack_top = None, p_started = True, p_block_intent = False,
     p_wake_pending = False, p_pending_recv = None, p_pending_signals = 0,
     p_parent = None, p_adopted = False, p_exit_code = None, p_wait_target = None,
     p_brk = USER_HEAP_BASE, p_session = 0\<rparr>"

definition spawn ::
  "kernel_image \<Rightarrow> u64 \<Rightarrow> u64 \<Rightarrow> string \<Rightarrow> 'a ptable_scheme \<Rightarrow> ('a ptable_scheme \<times> (process_error + pid)) outcome" where
  "spawn ki draw entry name t =
    (let (t, pid) = alloc_pid t in
     obind (alloc_table_slot_locked t) (\<lambda>(t, slot).
       case slot of None \<Rightarrow> Val (t, Inl PTableFull)
       | Some slot_index \<Rightarrow>
         let user_sp = randomized_user_stack_top draw (user_stack_top_raw slot_index);
             kernel_sp = kernel_stack_top_raw ki slot_index;
             t = t\<lparr>pt_frames := (pt_frames t)[slot_index :=
                    init_user (ki_thread_exit ki) entry user_sp kernel_sp (pt_frames t ! slot_index)]\<rparr>
         in Val (pt_set slot_index (Some (spawn_record pid slot_index entry name)) t, Inr pid)))"

text \<open>
  \<open>clone_space\<close> duplicates an address space copy-on-write or fails; it is an argument.
  The caller passes the parent's saved frame.
\<close>

definition fork_record :: "process_record \<Rightarrow> pid \<Rightarrow> nat \<Rightarrow> aspace option \<Rightarrow> process_record" where
  "fork_record parent child_pid child_slot addr_space =
    \<lparr>p_pid = child_pid, p_name = p_name parent, p_entry = p_entry parent,
     p_state = Runnable, p_slot = child_slot, p_addr_space = addr_space,
     p_tgid = child_pid, p_capabilities = p_capabilities parent,
     p_entry_point = p_entry_point parent, p_user_stack_top = p_user_stack_top parent,
     p_started = True, p_block_intent = False, p_wake_pending = False,
     p_pending_recv = None, p_pending_signals = 0, p_parent = Some (p_pid parent),
     p_adopted = False, p_exit_code = None, p_wait_target = None,
     p_brk = p_brk parent, p_session = p_session parent\<rparr>"

definition fork ::
  "kernel_image \<Rightarrow> (aspace \<Rightarrow> map_error + aspace) \<Rightarrow> nat \<Rightarrow> trap_frame \<Rightarrow> 'a ptable_scheme
    \<Rightarrow> ('a ptable_scheme \<times> (process_error + (pid \<times> nat))) outcome" where
  "fork ki clone_space parent_slot parent_frame t =
    (case pt_get t parent_slot of
       None \<Rightarrow> Val (t, Inl PNoSuchProcess)
     | Some parent \<Rightarrow>
       (let (t, child_pid) = alloc_pid t in
        case (case p_addr_space parent of
                Some space \<Rightarrow> map_sum id Some (clone_space space)
              | None \<Rightarrow> Inr None) of
          Inl e \<Rightarrow> Val (t, Inl (PMapError e))
        | Inr addr_space \<Rightarrow>
          obind (alloc_table_slot_locked t) (\<lambda>(t, slot).
            case slot of None \<Rightarrow> Val (t, Inl PTableFull)
            | Some child_slot \<Rightarrow>
              let used = user_stack_top_raw parent_slot - unat (tf_sp_el0 parent_frame);
                  frame = parent_frame
                    \<lparr>tf_regs := (tf_regs parent_frame)[0 := 0],
                     tf_sp_el0 := of_nat (user_stack_top_raw child_slot - used),
                     tf_sp_el1 := of_nat (kernel_stack_top_raw ki child_slot)\<rparr>;
                  t = pt_set child_slot (Some (fork_record parent child_pid child_slot addr_space)) t
              in Val (t\<lparr>pt_frames := (pt_frames t)[child_slot := frame]\<rparr>, Inr (child_pid, child_slot)))))"

text \<open>The address space of a slot: its own, or that of the carrier of its thread group.\<close>

definition address_space :: "nat \<Rightarrow> 'a ptable_scheme \<Rightarrow> aspace option" where
  "address_space slot t =
    (case pt_get t slot of
       None \<Rightarrow> None
     | Some r \<Rightarrow> (case p_addr_space r of
         Some s \<Rightarrow> Some s
       | None \<Rightarrow> if p_tgid r = p_pid r then None
           else (case List.find (\<lambda>e. case e of Some m \<Rightarrow> p_tgid m = p_tgid r \<and> p_addr_space m \<noteq> None
                                         | None \<Rightarrow> False) (pt_table t) of
                   Some (Some m) \<Rightarrow> p_addr_space m | _ \<Rightarrow> None)))"

definition thread_record :: "process_record \<Rightarrow> pid \<Rightarrow> nat \<Rightarrow> nat \<Rightarrow> nat \<Rightarrow> process_record" where
  "thread_record parent child_pid child_slot entry stack_top =
    \<lparr>p_pid = child_pid, p_name = p_name parent, p_entry = p_entry parent,
     p_state = Runnable, p_slot = child_slot, p_addr_space = None,
     p_tgid = p_tgid parent, p_capabilities = p_capabilities parent,
     p_entry_point = Some entry, p_user_stack_top = Some stack_top,
     p_started = True, p_block_intent = False, p_wake_pending = False,
     p_pending_recv = None, p_pending_signals = 0, p_parent = Some (p_pid parent),
     p_adopted = False, p_exit_code = None, p_wait_target = None,
     p_brk = p_brk parent, p_session = p_session parent\<rparr>"

definition create_thread ::
  "kernel_image \<Rightarrow> nat \<Rightarrow> nat \<Rightarrow> nat \<Rightarrow> nat \<Rightarrow> nat \<Rightarrow> 'a ptable_scheme
    \<Rightarrow> ('a ptable_scheme \<times> (process_error + pid)) outcome" where
  "create_thread ki parent_slot entry stack_top tls arg t =
    (case pt_get t parent_slot of
       None \<Rightarrow> Val (t, Inl PNoSuchProcess)
     | Some parent \<Rightarrow>
       if address_space parent_slot t = None then Val (t, Inl PNoSuchProcess)
       else if stack_top = 0 \<or> entry = 0 then Val (t, Inl (PMapError KernelRegion))
       else let (t, child_pid) = alloc_pid t in
        obind (alloc_table_slot_locked t) (\<lambda>(t, slot).
          case slot of None \<Rightarrow> Val (t, Inl PTableFull)
          | Some child_slot \<Rightarrow>
            let t = pt_set child_slot (Some (thread_record parent child_pid child_slot entry stack_top)) t
            in Val (t\<lparr>pt_frames := (pt_frames t)[child_slot :=
                  init_thread entry stack_top (kernel_stack_top_raw ki child_slot) tls arg frame_new]\<rparr>,
                Inr child_pid)))"

section \<open>Fields\<close>

definition set_parent :: "pid \<Rightarrow> pid option \<Rightarrow> 'a ptable_scheme \<Rightarrow> 'a ptable_scheme" where
  "set_parent p parent = pt_modify_pid p (\<lambda>r. r\<lparr>p_parent := parent, p_adopted := False\<rparr>)"

definition set_capabilities :: "pid \<Rightarrow> u32 \<Rightarrow> 'a ptable_scheme \<Rightarrow> 'a ptable_scheme" where
  "set_capabilities p caps = pt_modify_pid p (\<lambda>r. r\<lparr>p_capabilities := caps\<rparr>)"

definition capabilities_from_flag :: "bool \<Rightarrow> u32" where
  "capabilities_from_flag privileged = (if privileged then CAP_ALL else 0)"

definition set_privileged :: "pid \<Rightarrow> bool \<Rightarrow> 'a ptable_scheme \<Rightarrow> 'a ptable_scheme" where
  "set_privileged p privileged = set_capabilities p (capabilities_from_flag privileged)"

definition slot_capabilities :: "nat \<Rightarrow> 'a ptable_scheme \<Rightarrow> u32" where
  "slot_capabilities slot t = (case pt_get t slot of Some r \<Rightarrow> p_capabilities r | None \<Rightarrow> 0)"

definition capabilities_of_pid :: "pid \<Rightarrow> 'a ptable_scheme \<Rightarrow> u32" where
  "capabilities_of_pid p t = (case pt_find_record p t of Some r \<Rightarrow> p_capabilities r | None \<Rightarrow> 0)"

definition session_of_pid :: "pid \<Rightarrow> 'a ptable_scheme \<Rightarrow> u64" where
  "session_of_pid p t = (case pt_find_record p t of Some r \<Rightarrow> p_session r | None \<Rightarrow> 0)"

definition session_of_slot :: "nat \<Rightarrow> 'a ptable_scheme \<Rightarrow> u64" where
  "session_of_slot slot t = (case pt_get t slot of Some r \<Rightarrow> p_session r | None \<Rightarrow> 0)"

definition set_session :: "pid \<Rightarrow> u64 \<Rightarrow> 'a ptable_scheme \<Rightarrow> 'a ptable_scheme" where
  "set_session p session = pt_modify_pid p (\<lambda>r. r\<lparr>p_session := session\<rparr>)"

definition in_session :: "u64 \<Rightarrow> pid \<Rightarrow> process_record option \<Rightarrow> bool" where
  "in_session sid keep e = (case e of Some r \<Rightarrow> p_session r = sid \<and> p_pid r \<noteq> keep | None \<Rightarrow> False)"

definition clear_session_members :: "u64 \<Rightarrow> pid \<Rightarrow> 'a ptable_scheme \<Rightarrow> 'a ptable_scheme \<times> nat" where
  "clear_session_members sid keep t =
    (if sid = 0 then (t, 0)
     else (t\<lparr>pt_table := map (\<lambda>e. if in_session sid keep e then map_option (p_session_update (\<lambda>_. 0)) e else e)
             (pt_table t)\<rparr>, length (filter (in_session sid keep) (pt_table t))))"

definition slot_for_pid :: "pid \<Rightarrow> 'a ptable_scheme \<Rightarrow> nat option" where
  "slot_for_pid p t = map_option p_slot (pt_find_record p t)"

definition state_slot :: "nat \<Rightarrow> 'a ptable_scheme \<Rightarrow> process_state option" where
  "state_slot slot t = map_option p_state (pt_get t slot)"

definition state_of :: "pid \<Rightarrow> 'a ptable_scheme \<Rightarrow> process_state option" where
  "state_of p t = map_option p_state (pt_find_record p t)"

text \<open>\<open>table[slot]\<close>: panics out of range, and an empty entry is left alone.\<close>

definition pt_index :: "nat \<Rightarrow> (process_record \<Rightarrow> process_record) \<Rightarrow> 'a ptable_scheme \<Rightarrow> 'a ptable_scheme outcome" where
  "pt_index slot f t = (if slot < length (pt_table t) then Val (pt_modify slot f t) else Panic)"

definition set_state :: "pid \<Rightarrow> process_state \<Rightarrow> 'a ptable_scheme \<Rightarrow> 'a ptable_scheme" where
  "set_state p st = pt_modify_pid p (\<lambda>r. r\<lparr>p_state := st\<rparr>)"

definition set_state_slot :: "nat \<Rightarrow> process_state \<Rightarrow> 'a ptable_scheme \<Rightarrow> 'a ptable_scheme outcome" where
  "set_state_slot slot st = pt_index slot (\<lambda>r. r\<lparr>p_state := st\<rparr>)"

definition set_pending_recv :: "nat \<Rightarrow> u32 \<Rightarrow> 'a ptable_scheme \<Rightarrow> 'a ptable_scheme outcome" where
  "set_pending_recv slot chan = pt_index slot (\<lambda>r. r\<lparr>p_pending_recv := Some chan\<rparr>)"

definition take_pending_recv :: "nat \<Rightarrow> 'a ptable_scheme \<Rightarrow> 'a ptable_scheme \<times> u32 option" where
  "take_pending_recv slot t = (case pt_get t slot of None \<Rightarrow> (t, None)
    | Some r \<Rightarrow> (pt_modify slot (\<lambda>r. r\<lparr>p_pending_recv := None\<rparr>) t, p_pending_recv r))"

definition deliver_fatal_signal :: "nat \<Rightarrow> u8 \<Rightarrow> 'a ptable_scheme \<Rightarrow> ('a ptable_scheme \<times> u32) outcome" where
  "deliver_fatal_signal slot sig t =
    obind (pt_index slot (\<lambda>r. r\<lparr>p_pending_signals := p_pending_signals r OR signal_bit sig\<rparr>) t)
      (\<lambda>t. Val (t, fatal_exit_code sig))"

definition pid_at_slot :: "nat \<Rightarrow> 'a ptable_scheme \<Rightarrow> pid option outcome" where
  "pid_at_slot slot t = (if slot < length (pt_table t) then Val (map_option p_pid (pt_table t ! slot)) else Panic)"

definition get_parent_pid :: "nat \<Rightarrow> 'a ptable_scheme \<Rightarrow> pid option option outcome" where
  "get_parent_pid slot t = (if slot < length (pt_table t) then Val (map_option p_parent (pt_table t ! slot)) else Panic)"

definition heap_view :: "nat \<Rightarrow> 'a ptable_scheme \<Rightarrow> (aspace \<times> nat) option" where
  "heap_view slot t = Option.bind (pt_get t slot) (\<lambda>r. map_option (\<lambda>s. (s, p_brk r)) (p_addr_space r))"

definition store_brk :: "nat \<Rightarrow> nat \<Rightarrow> 'a ptable_scheme \<Rightarrow> 'a ptable_scheme" where
  "store_brk slot v = pt_modify slot (\<lambda>r. r\<lparr>p_brk := v\<rparr>)"

definition owns_address_space :: "nat \<Rightarrow> 'a ptable_scheme \<Rightarrow> bool" where
  "owns_address_space slot t = (case pt_get t slot of Some r \<Rightarrow> p_addr_space r \<noteq> None | None \<Rightarrow> False)"

definition set_address_space :: "nat \<Rightarrow> aspace \<Rightarrow> 'a ptable_scheme \<Rightarrow> 'a ptable_scheme outcome" where
  "set_address_space slot space = pt_index slot (\<lambda>r. r\<lparr>p_addr_space := Some space\<rparr>)"

definition configure_user_process ::
  "nat \<Rightarrow> aspace \<Rightarrow> nat \<Rightarrow> nat \<Rightarrow> 'a ptable_scheme \<Rightarrow> 'a ptable_scheme outcome" where
  "configure_user_process slot space entry user_sp = pt_index slot
    (\<lambda>r. r\<lparr>p_addr_space := Some space, p_entry_point := Some entry, p_user_stack_top := Some user_sp,
           p_started := False\<rparr>)"

definition first_run_context :: "nat \<Rightarrow> 'a ptable_scheme \<Rightarrow> 'a ptable_scheme \<times> aspace option" where
  "first_run_context slot t =
    (case pt_get t slot of None \<Rightarrow> (t, None)
     | Some r \<Rightarrow> if p_started r then (t, None)
       else (case (p_addr_space r, p_entry_point r, p_user_stack_top r) of
           (Some space, Some _, Some _) \<Rightarrow> (pt_modify slot (\<lambda>r. r\<lparr>p_started := True\<rparr>) t, Some space)
         | _ \<Rightarrow> (t, None)))"

section \<open>Scheduling transitions\<close>

text \<open>Each of these is one critical section of the table lock; an \<open>assert_eq\<close> that fails is \<open>Panic\<close>.\<close>

definition claim_runnable :: "pid \<Rightarrow> u8 \<Rightarrow> 'a ptable_scheme \<Rightarrow> ('a ptable_scheme \<times> nat option) outcome" where
  "claim_runnable p cpu t =
    (case pt_find p t of
       None \<Rightarrow> Val (t, None)
     | Some i \<Rightarrow> (case pt_get t i of None \<Rightarrow> Val (t, None) | Some r \<Rightarrow>
        if p_state r \<noteq> Runnable then Val (t, None)
        else obind (owner_load (p_slot r) t) (\<lambda>owner.
          if owner \<noteq> PROCESS_OWNER_NONE then Panic
          else obind (owner_store (p_slot r) cpu t) (\<lambda>t.
            Val (pt_modify i (\<lambda>r. r\<lparr>p_state := Running, p_block_intent := False, p_wake_pending := False\<rparr>) t,
                 Some (p_slot r))))))"

definition release_running :: "nat \<Rightarrow> u8 \<Rightarrow> 'a ptable_scheme \<Rightarrow> ('a ptable_scheme \<times> pid option) outcome" where
  "release_running slot cpu t =
    (case pt_get t slot of None \<Rightarrow> Val (t, None)
     | Some r \<Rightarrow>
        if p_state r \<noteq> Running then Val (t, None)
        else obind (owner_load slot t) (\<lambda>owner.
          if owner \<noteq> cpu then Panic
          else obind (owner_store slot PROCESS_OWNER_NONE t) (\<lambda>t.
            Val (pt_modify slot (\<lambda>r. r\<lparr>p_state := Runnable, p_block_intent := False, p_wake_pending := False\<rparr>) t,
                 Some (p_pid r)))))"

definition release_owner_for_exit :: "nat \<Rightarrow> u8 \<Rightarrow> 'a ptable_scheme \<Rightarrow> 'a ptable_scheme outcome" where
  "release_owner_for_exit slot cpu t =
    (case pt_get t slot of None \<Rightarrow> Panic
     | Some r \<Rightarrow>
        if p_state r \<noteq> Running then Panic
        else obind (owner_load slot t) (\<lambda>owner.
          if owner \<noteq> cpu then Panic else owner_store slot PROCESS_OWNER_NONE t))"

definition owner_cpu :: "nat \<Rightarrow> 'a ptable_scheme \<Rightarrow> u8 option" where
  "owner_cpu slot t =
    (if slot \<ge> MAX_PROCESSES then None
     else let owner = pt_owner t ! slot in if owner \<noteq> PROCESS_OWNER_NONE then Some owner else None)"

datatype wake_result = Enqueue pid nat | Pending | Ignore

definition request_wake :: "pid \<Rightarrow> 'a ptable_scheme \<Rightarrow> ('a ptable_scheme \<times> wake_result) outcome" where
  "request_wake p t =
    (case pt_find p t of
       None \<Rightarrow> Val (t, Ignore)
     | Some i \<Rightarrow> (case pt_get t i of None \<Rightarrow> Val (t, Ignore) | Some r \<Rightarrow>
        (case p_state r of
           Blocked \<Rightarrow> obind (owner_load (p_slot r) t) (\<lambda>owner.
             if owner \<noteq> PROCESS_OWNER_NONE then Panic
             else Val (pt_modify i (\<lambda>r. r\<lparr>p_state := Runnable, p_block_intent := False, p_wake_pending := False\<rparr>) t,
                       Enqueue (p_pid r) (p_slot r)))
         | Running \<Rightarrow> Val (pt_modify i (\<lambda>r. r\<lparr>p_wake_pending := True\<rparr>) t, Pending)
         | _ \<Rightarrow> Val (t, Ignore))))"

definition begin_block :: "nat \<Rightarrow> u8 \<Rightarrow> 'a ptable_scheme \<Rightarrow> ('a ptable_scheme \<times> bool) outcome" where
  "begin_block slot cpu t =
    (case pt_get t slot of None \<Rightarrow> Val (t, False)
     | Some r \<Rightarrow>
        if p_state r \<noteq> Running then Val (t, False)
        else obind (owner_load slot t) (\<lambda>owner.
          if owner \<noteq> cpu then Panic
          else Val (pt_modify slot (\<lambda>r. r\<lparr>p_block_intent := True\<rparr>) t, True)))"

datatype block_result = BfBlocked | BfRequeue pid | BfInvalid

definition finish_block :: "nat \<Rightarrow> u8 \<Rightarrow> 'a ptable_scheme \<Rightarrow> ('a ptable_scheme \<times> block_result) outcome" where
  "finish_block slot cpu t =
    (case pt_get t slot of None \<Rightarrow> Val (t, BfInvalid)
     | Some r \<Rightarrow>
        if p_state r \<noteq> Running \<or> \<not> p_block_intent r then Val (t, BfInvalid)
        else obind (owner_load slot t) (\<lambda>owner.
          if owner \<noteq> cpu then Panic
          else obind (owner_store slot PROCESS_OWNER_NONE t) (\<lambda>t.
            if p_wake_pending r
            then Val (pt_modify slot (\<lambda>r. r\<lparr>p_block_intent := False, p_wake_pending := False, p_state := Runnable\<rparr>) t,
                      BfRequeue (p_pid r))
            else Val (pt_modify slot (\<lambda>r. r\<lparr>p_block_intent := False, p_state := Blocked\<rparr>) t, BfBlocked))))"

section \<open>Views of the table\<close>

definition pt_own :: "'a ptable_scheme \<Rightarrow> nat \<Rightarrow> u8" where
  "pt_own t i = (if i < length (pt_owner t) then pt_owner t ! i else PROCESS_OWNER_NONE)"

definition own_set :: "nat \<Rightarrow> u8 \<Rightarrow> 'a ptable_scheme \<Rightarrow> 'a ptable_scheme" where
  "own_set i c t = t\<lparr>pt_owner := (pt_owner t)[i := c]\<rparr>"

lemma pt_get_set [simp]:
  "pt_get (pt_set i e t) j = (if j = i \<and> i < length (pt_table t) then e else pt_get t j)"
  by (auto simp: pt_get_def pt_set_def nth_list_update)

lemma pt_get_length: "pt_get t i = Some r \<Longrightarrow> i < length (pt_table t)"
  by (simp add: pt_get_def split: if_splits)

lemma pt_get_modify [simp]:
  "pt_get (pt_modify i f t) j = (if j = i then map_option f (pt_get t i) else pt_get t j)"
  by (auto simp: pt_modify_def) (auto simp: pt_get_def)

lemma pt_get_other [simp]:
  "pt_get (pt_frames_update f t) = pt_get t" "pt_get (pt_next_pid_update g t) = pt_get t"
  "pt_own (pt_frames_update f t) = pt_own t" "pt_own (pt_next_pid_update g t) = pt_own t"
  by (simp_all add: pt_get_def pt_own_def fun_eq_iff)

lemma pt_set_sel [simp]:
  "length (pt_table (pt_set i e t)) = length (pt_table t)" "pt_owner (pt_set i e t) = pt_owner t"
  "pt_frames (pt_set i e t) = pt_frames t" "pt_next_pid (pt_set i e t) = pt_next_pid t"
  by (simp_all add: pt_set_def)

lemma pt_modify_sel [simp]:
  "length (pt_table (pt_modify i f t)) = length (pt_table t)" "pt_owner (pt_modify i f t) = pt_owner t"
  "pt_frames (pt_modify i f t) = pt_frames t" "pt_next_pid (pt_modify i f t) = pt_next_pid t"
  by (simp_all add: pt_modify_def)

lemma own_set_sel [simp]:
  "pt_table (own_set i c t) = pt_table t" "length (pt_owner (own_set i c t)) = length (pt_owner t)"
  "pt_frames (own_set i c t) = pt_frames t" "pt_next_pid (own_set i c t) = pt_next_pid t"
  "pt_get (own_set i c t) = pt_get t"
  by (simp_all add: own_set_def pt_get_def fun_eq_iff)

lemma pt_own_simps [simp]:
  "pt_own (pt_set i e t) = pt_own t" "pt_own (pt_modify i f t) = pt_own t"
  "i < length (pt_owner t) \<Longrightarrow> pt_own (own_set i c t) j = (if j = i then c else pt_own t j)"
  by (auto simp: pt_own_def fun_eq_iff own_set_def)

lemma owner_load_eq: "i < length (pt_owner t) \<Longrightarrow> owner_load i t = Val (pt_own t i)"
  by (simp add: owner_load_def pt_own_def)

lemma owner_store_eq: "i < length (pt_owner t) \<Longrightarrow> owner_store i c t = Val (own_set i c t)"
  by (simp add: owner_store_def own_set_def)

section \<open>Well-formed tables\<close>

text \<open>
  A record sits in the slot it names, identifiers are distinct and were all drawn from the counter,
  and the three arrays have the sizes the source gives them.
\<close>

definition pt_wf :: "'a ptable_scheme \<Rightarrow> bool" where
  "pt_wf t \<longleftrightarrow> length (pt_table t) \<le> MAX_PROCESSES \<and> length (pt_owner t) = MAX_PROCESSES \<and>
     length (pt_frames t) = MAX_PROCESSES \<and>
     (\<forall>i r. pt_get t i = Some r \<longrightarrow> p_slot r = i \<and> p_pid r < pt_next_pid t) \<and>
     (\<forall>i j r s. pt_get t i = Some r \<longrightarrow> pt_get t j = Some s \<longrightarrow> p_pid r = p_pid s \<longrightarrow> i = j)"

lemma pt_wf_slot: "pt_wf t \<Longrightarrow> pt_get t i = Some r \<Longrightarrow> p_slot r = i"
  and pt_wf_pid: "pt_wf t \<Longrightarrow> pt_get t i = Some r \<Longrightarrow> p_pid r < pt_next_pid t"
  and pt_wf_inj: "pt_wf t \<Longrightarrow> pt_get t i = Some r \<Longrightarrow> pt_get t j = Some s \<Longrightarrow> p_pid r = p_pid s \<Longrightarrow> i = j"
  and pt_wf_lengths: "pt_wf t \<Longrightarrow> length (pt_owner t) = MAX_PROCESSES \<and> length (pt_frames t) = MAX_PROCESSES"
  and pt_wf_table: "pt_wf t \<Longrightarrow> length (pt_table t) \<le> MAX_PROCESSES"
  by (auto simp: pt_wf_def)

lemma pt_wf_index: "pt_wf t \<Longrightarrow> pt_get t i = Some r \<Longrightarrow> i < length (pt_owner t)"
  using pt_get_length [of t i r] by (simp add: pt_wf_def)

lemma pt_find_Some: "pt_find p t = Some i \<Longrightarrow> \<exists>r. pt_get t i = Some r \<and> p_pid r = p"
  by (auto simp: pt_find_def pt_get_def position_Some_iff split: option.splits)

lemma pt_find_eq:
  assumes "pt_wf t"
  shows "pt_find p t = Some i \<longleftrightarrow> (\<exists>r. pt_get t i = Some r \<and> p_pid r = p)"
proof
  assume "\<exists>r. pt_get t i = Some r \<and> p_pid r = p"
  then obtain r where r: "pt_get t i = Some r" "p_pid r = p" by blast
  then have i: "i < length (pt_table t)" "pt_table t ! i = Some r"
    by (auto simp: pt_get_def split: if_splits)
  have "\<not> (case pt_table t ! j of Some s \<Rightarrow> p_pid s = p | None \<Rightarrow> False)" if "j < i" for j
    using pt_wf_inj [OF assms, of j _ i r] r that i by (auto simp: pt_get_def split: option.splits)
  then show "pt_find p t = Some i" using i r by (simp add: pt_find_def position_Some_iff)
qed (rule pt_find_Some)

lemma pt_find_None:
  "pt_find p t = None \<longleftrightarrow> (\<forall>i r. pt_get t i = Some r \<longrightarrow> p_pid r \<noteq> p)"
  by (fastforce simp: pt_find_def position_None_iff pt_get_def in_set_conv_nth split: option.splits if_splits)

text \<open>An update that keeps identifier and slot of a record keeps the table well-formed.\<close>

lemma pt_wf_modify:
  assumes "pt_wf t" and "\<And>r. p_pid (f r) = p_pid r" and "\<And>r. p_slot (f r) = p_slot r"
  shows "pt_wf (pt_modify i f t)"
proof -
  have get: "pt_get (pt_modify i f t) j = Some r' \<Longrightarrow>
      \<exists>r. pt_get t j = Some r \<and> p_pid r' = p_pid r \<and> p_slot r' = p_slot r" for j r'
    using assms(2,3) by (auto split: if_splits)
  show ?thesis
    unfolding pt_wf_def
  proof (intro conjI allI impI)
    fix j r assume "pt_get (pt_modify i f t) j = Some r"
    then show "p_slot r = j" "p_pid r < pt_next_pid (pt_modify i f t)"
      using get [of j r] pt_wf_slot [OF assms(1)] pt_wf_pid [OF assms(1)] by auto
  next
    fix j k r s assume "pt_get (pt_modify i f t) j = Some r" "pt_get (pt_modify i f t) k = Some s" "p_pid r = p_pid s"
    then show "j = k"
      using get [of j r] get [of k s] pt_wf_inj [OF assms(1)] by metis
  qed (use assms(1) in \<open>simp_all add: pt_wf_def\<close>)
qed

lemma pt_wf_own_set [simp]: "pt_wf (own_set i c t) = pt_wf t"
  by (simp add: pt_wf_def)

lemma pt_wf_remove:
  assumes "pt_wf t"
  shows "pt_wf (pt_set i None t)"
proof -
  have get: "pt_get (pt_set i None t) j = Some r \<Longrightarrow> pt_get t j = Some r" for j r
    by (simp split: if_splits)
  have rec: "p_slot r = j \<and> p_pid r < pt_next_pid t" if "pt_get (pt_set i None t) j = Some r" for j r
    using get [OF that] pt_wf_slot [OF assms] pt_wf_pid [OF assms] by blast
  show ?thesis
    unfolding pt_wf_def
    using rec get pt_wf_inj [OF assms] assms by (simp add: pt_wf_def del: pt_get_set)
qed

lemma pt_wf_insert:
  assumes "pt_wf t" and "i < length (pt_table t)" and "p_slot r = i" and "p_pid r < pt_next_pid t"
    and "\<And>j s. pt_get t j = Some s \<Longrightarrow> j \<noteq> i \<Longrightarrow> p_pid s \<noteq> p_pid r"
  shows "pt_wf (pt_set i (Some r) t)"
proof -
  show ?thesis
    unfolding pt_wf_def
  proof (intro conjI allI impI)
    fix j k x y assume "pt_get (pt_set i (Some r) t) j = Some x" "pt_get (pt_set i (Some r) t) k = Some y" "p_pid x = p_pid y"
    then show "j = k"
      using assms(2,5) pt_wf_inj [OF assms(1)] by (auto split: if_splits)
  next
    fix j x assume "pt_get (pt_set i (Some r) t) j = Some x"
    then show "p_slot x = j" "p_pid x < pt_next_pid (pt_set i (Some r) t)"
      using assms pt_wf_slot [OF assms(1)] pt_wf_pid [OF assms(1)] by (auto split: if_splits)
  qed (use assms(1) in \<open>simp_all add: pt_wf_def\<close>)
qed

section \<open>Identifiers\<close>

lemma push_or_add:
  assumes "unat s < 2 ^ 16"
  shows "push_bit 16 g OR s = g * 65536 + (s :: u64)"
proof -
  have "take_bit 16 s = s" using assms by (simp add: word_unat_eq_iff take_bit_eq_mod unat_mod)
  then have high: "\<not> bit s n" if "16 \<le> n" for n
    using that by (metis bit_take_bit_iff not_less)
  have "push_bit 16 g AND s = 0"
    by (rule bit_word_eqI) (auto simp: bit_and_iff bit_push_bit_iff high)
  then have "push_bit 16 g OR s = push_bit 16 g + s" by (rule disjunctive_add_eq_or [symmetric])
  then show ?thesis by (simp add: push_bit_eq_mult)
qed

lemma unat_pack16:
  assumes "unat g < 2 ^ 48" and "unat s < 65536"
  shows "unat (g * 65536 + s :: u64) = unat g * 65536 + unat s"
proof -
  have "unat (g * 65536) = unat g * 65536" using assms by (simp add: unat_word_ariths)
  then show ?thesis using assms by (subst unat_word_ariths) simp
qed

lemma unat_next_pid_raw:
  assumes "unat cur < 2 ^ 64 - 2 ^ 16"
  shows "unat (next_pid_raw cur) =
    (if unat cur mod 65536 = 65535 then (unat cur div 65536 + 1) * 65536 + 2 else unat cur + 1)"
proof -
  define q r where "q = unat cur div 65536" and "r = unat cur mod 65536"
  have cur: "unat cur = q * 65536 + r" and r: "r < 65536" by (simp_all add: q_def r_def)
  have q: "q + 1 < 2 ^ 48" using assms unfolding q_def by (simp add: div_less_iff_less_mult)
  have m: "unat (cur AND PID_SEQ_MASK) = r"
  proof -
    have "cur AND PID_SEQ_MASK = take_bit 16 cur"
      by (simp add: PID_SEQ_MASK_def PID_SEQ_BITS_def take_bit_eq_mask mask_eq_exp_minus_1)
    then show ?thesis by (simp add: take_bit_eq_mod unat_mod r_def)
  qed
  have g: "unat (drop_bit 16 cur) = q" by (simp add: drop_bit_eq_div unat_div q_def)
  let ?s = "(cur AND PID_SEQ_MASK) + 1"
  have s: "unat ?s = r + 1" using m r by (simp add: unat_word_ariths)
  have last: "?s > PID_SEQ_LAST \<longleftrightarrow> r = 65535"
    using s r by (simp add: word_less_nat_alt PID_SEQ_LAST_def) (simp add: PID_SEQ_MASK_def PID_SEQ_BITS_def; arith)
  show ?thesis
  proof (cases "r = 65535")
    case True
    define d where "d = drop_bit 16 cur + 1"
    have "next_pid_raw cur = d * 65536 + 2"
      using last True push_or_add [of 2 d]
      by (simp add: next_pid_raw_def Let_def PID_SEQ_BITS_def PID_SEQ_FIRST_def flip: d_def)
    moreover have "unat d = q + 1" unfolding d_def by (subst unat_word_ariths, subst g) (use q in simp)
    ultimately have "unat (next_pid_raw cur) = (q + 1) * 65536 + 2"
      using unat_pack16 [of d 2] q by simp
    then show ?thesis using True unfolding r_def [symmetric] q_def [symmetric] by simp
  next
    case False
    then have "next_pid_raw cur = drop_bit 16 cur * 65536 + ?s"
      using last push_or_add [of ?s "drop_bit 16 cur"] s r
      by (simp add: next_pid_raw_def Let_def PID_SEQ_BITS_def)
    then have "unat (next_pid_raw cur) = q * 65536 + (r + 1)"
      using unat_pack16 [of "drop_bit 16 cur" ?s] g q s r False by simp
    then show ?thesis using False cur unfolding r_def [symmetric] q_def [symmetric] by simp
  qed
qed

lemma next_pid_raw_less:
  assumes "unat cur < 2 ^ 64 - 2 ^ 16"
  shows "cur < next_pid_raw cur"
proof -
  have "unat cur < (unat cur div 65536 + 1) * 65536 + 2"
  proof -
    define q r where "q = unat cur div 65536" and "r = unat cur mod 65536"
    then have "unat cur = q * 65536 + r" "r < 65536" by simp_all
    then show ?thesis unfolding q_def [symmetric] by (simp add: algebra_simps)
  qed
  then show ?thesis using unat_next_pid_raw [OF assms] by (simp add: word_less_nat_alt)
qed

text \<open>The counter can still be advanced without wrapping the 48-bit generation.\<close>

definition pid_room :: "'a ptable_scheme \<Rightarrow> bool" where
  "pid_room t \<longleftrightarrow> unat (pt_next_pid t) < 2 ^ 64 - 2 ^ 16"

lemma alloc_pid_wf:
  assumes "pt_wf t" and "pid_room t" and "alloc_pid t = (t', p)"
  shows "pt_wf t'" and "p < pt_next_pid t'" and "\<And>i r. pt_get t' i = Some r \<Longrightarrow> p_pid r \<noteq> p"
    and "pt_get t' = pt_get t" and "pt_own t' = pt_own t" and "p = pt_next_pid t"
    and "pt_frames t' = pt_frames t" and "pt_table t' = pt_table t"
proof -
  have t': "t' = t\<lparr>pt_next_pid := next_pid_raw (pt_next_pid t)\<rparr>" and p: "p = pt_next_pid t"
    using assms(3) by (auto simp: alloc_pid_def)
  have less: "pt_next_pid t < next_pid_raw (pt_next_pid t)"
    using assms(2) by (intro next_pid_raw_less) (simp add: pid_room_def)
  show get: "pt_get t' = pt_get t" by (simp add: t' pt_get_def fun_eq_iff)
  show "pt_own t' = pt_own t" by (simp add: t' pt_own_def fun_eq_iff)
  show "p < pt_next_pid t'" using less by (simp add: t' p)
  show "p_pid r \<noteq> p" if "pt_get t' i = Some r" for i r
    using pt_wf_pid [OF assms(1), of i r] that by (auto simp: get p)
  have "p_pid r < next_pid_raw (pt_next_pid t)" if "pt_get t i = Some r" for i r
    using pt_wf_pid [OF assms(1) that] less by simp
  then show "pt_wf t'" using assms(1) unfolding pt_wf_def get by (simp add: t')
qed (use assms(3) in \<open>auto simp: alloc_pid_def\<close>)

lemma alloc_table_slot_cases:
  assumes "pt_wf t"
  obtains (full) "alloc_table_slot_locked t = Val (t, None)"
      "length (pt_table t) = MAX_PROCESSES" "\<And>i. i < MAX_PROCESSES \<Longrightarrow> pt_get t i \<noteq> None"
  | (slot) t' i where "alloc_table_slot_locked t = Val (t', Some i)" "i < length (pt_table t')"
      "pt_get t i = None" "pt_get t' = pt_get t" "pt_wf t'"
      "pt_own t' = (pt_own t)(i := PROCESS_OWNER_NONE)" "pt_frames t' = pt_frames t"
      "pt_next_pid t' = pt_next_pid t" "i < MAX_PROCESSES"
proof (cases "position (\<lambda>e. e = None) (pt_table t)")
  case (Some i)
  then have i: "i < length (pt_table t)" "pt_table t ! i = None" by (simp_all add: position_Some_iff)
  have len: "i < length (pt_owner t)" using i assms by (simp add: pt_wf_def)
  show thesis
  proof (rule slot)
    show "alloc_table_slot_locked t = Val (own_set i PROCESS_OWNER_NONE t, Some i)"
      by (simp add: alloc_table_slot_locked_def Some owner_store_eq [OF len])
    show "i < MAX_PROCESSES" using i assms by (simp add: pt_wf_def)
  qed (use i len assms in \<open>simp_all add: pt_get_def fun_eq_iff\<close>)
next
  case None
  then have none: "pt_table t ! i \<noteq> None" if "i < length (pt_table t)" for i
    using that by (auto simp: position_None_iff)
  show thesis
  proof (cases "length (pt_table t) < MAX_PROCESSES")
    case False
    then have "length (pt_table t) = MAX_PROCESSES" using assms by (simp add: pt_wf_def)
    then show thesis using none None by (intro full) (simp_all add: alloc_table_slot_locked_def pt_get_def)
  next
    case True
    define i where "i = length (pt_table t)"
    have len: "i < length (pt_owner t)" using True assms by (simp add: pt_wf_def i_def)
    let ?t = "(own_set i PROCESS_OWNER_NONE t)\<lparr>pt_table := pt_table t @ [None]\<rparr>"
    have get: "pt_get ?t = pt_get t" by (auto simp: pt_get_def fun_eq_iff nth_append less_Suc_eq)
    show thesis
    proof (rule slot)
      show "alloc_table_slot_locked t = Val (?t, Some i)"
        using True by (simp add: alloc_table_slot_locked_def None Let_def owner_store_eq [OF len] flip: i_def)
      show "pt_own ?t = (pt_own t)(i := PROCESS_OWNER_NONE)"
        using len by (auto simp: fun_eq_iff pt_own_def own_set_def)
      show "pt_wf ?t" using assms True unfolding pt_wf_def get by (simp add: own_set_def)
    qed (use get True in \<open>simp_all add: i_def pt_get_def own_set_def\<close>)
  qed
qed

section \<open>Creation\<close>

text \<open>The table gained one runnable record with a fresh identifier; nothing else changed but the frame of
  its slot.\<close>

definition created :: "'a ptable_scheme \<Rightarrow> 'a ptable_scheme \<Rightarrow> nat \<Rightarrow> process_record \<Rightarrow> bool" where
  "created t t' i r \<longleftrightarrow> pt_wf t' \<and> pt_get t i = None \<and> pt_get t' = (pt_get t)(i := Some r) \<and>
     pt_own t' = (pt_own t)(i := PROCESS_OWNER_NONE) \<and> p_slot r = i \<and> i < MAX_PROCESSES \<and>
     p_pid r = pt_next_pid t \<and> p_state r = Runnable \<and> \<not> p_block_intent r \<and> \<not> p_wake_pending r \<and>
     (\<forall>j s. pt_get t j = Some s \<longrightarrow> p_pid s \<noteq> p_pid r) \<and>
     (\<exists>f. pt_frames t' = (pt_frames t)[i := f])"

text \<open>The table kept its records and owners; at most the identifier counter advanced.\<close>

definition same_records :: "'a ptable_scheme \<Rightarrow> 'a ptable_scheme \<Rightarrow> bool" where
  "same_records t t' \<longleftrightarrow> pt_wf t' \<and> pt_get t' = pt_get t \<and> pt_own t' = pt_own t \<and> pt_frames t' = pt_frames t"

lemma created_insert:
  assumes wf: "pt_wf t" and room: "pid_room t" and pid: "alloc_pid t = (t1, p)"
    and slot: "alloc_table_slot_locked t1 = Val (t2, Some i)"
    and r: "p_pid r = p" "p_slot r = i" "p_state r = Runnable" "\<not> p_block_intent r" "\<not> p_wake_pending r"
  shows "created t (pt_set i (Some r) (t2\<lparr>pt_frames := (pt_frames t2)[i := f]\<rparr>)) i r"
proof -
  note a = alloc_pid_wf [OF wf room pid]
  show ?thesis
  proof (rule alloc_table_slot_cases [OF a(1)])
    fix t' j
    assume s: "alloc_table_slot_locked t1 = Val (t', Some j)" "j < length (pt_table t')"
      "pt_get t1 j = None" "pt_get t' = pt_get t1" "pt_wf t'"
      "pt_own t' = (pt_own t1)(j := PROCESS_OWNER_NONE)" "pt_frames t' = pt_frames t1"
      "pt_next_pid t' = pt_next_pid t1" "j < MAX_PROCESSES"
    then have ij: "j = i" "t' = t2" using slot by auto
    let ?t = "t2\<lparr>pt_frames := (pt_frames t2)[i := f]\<rparr>"
    have wft: "pt_wf ?t" using s(5) unfolding pt_wf_def by (simp add: ij)
    have "pt_wf (pt_set i (Some r) ?t)"
      by (rule pt_wf_insert [OF wft]) (use s ij r a in \<open>auto\<close>)
    then show ?thesis
      using s a r unfolding created_def by (auto simp: ij fun_eq_iff)
  qed (use slot in auto)
qed

lemma no_slot_same:
  assumes "pt_wf t" and "pid_room t" and "alloc_pid t = (t1, p)" and "alloc_table_slot_locked t1 = Val (t2, None)"
  shows "same_records t t2"
proof -
  note a = alloc_pid_wf [OF assms(1-3)]
  show ?thesis
    by (rule alloc_table_slot_cases [OF a(1)]) (use assms(4) a in \<open>auto simp: same_records_def\<close>)
qed

lemma alloc_pid_same:
  assumes "pt_wf t" and "pid_room t" and "alloc_pid t = (t1, p)"
  shows "same_records t t1"
  using alloc_pid_wf [OF assms] by (simp add: same_records_def)

lemma alloc_slot_not_Panic: "pt_wf t \<Longrightarrow> alloc_table_slot_locked t \<noteq> Panic"
  using alloc_table_slot_cases [of t] by (metis outcome.distinct(1))

lemma spawn_cases:
  assumes "pt_wf t" and "pid_room t"
  obtains (full) t' where "spawn ki draw entry name t = Val (t', Inl PTableFull)" "same_records t t'"
  | (ok) t' i where "spawn ki draw entry name t = Val (t', Inr (pt_next_pid t))"
      "created t t' i (spawn_record (pt_next_pid t) i entry name)"
proof -
  obtain t1 p where pid: "alloc_pid t = (t1, p)" by fastforce
  note a = alloc_pid_wf [OF assms pid]
  obtain t2 slot where slot: "alloc_table_slot_locked t1 = Val (t2, slot)"
    using alloc_slot_not_Panic [OF a(1)] by (cases "alloc_table_slot_locked t1") fastforce+
  show thesis
  proof (cases slot)
    case None
    then show thesis
      using no_slot_same [OF assms pid] slot pid by (intro full [of t2]) (auto simp: spawn_def)
  next
    case (Some i)
    let ?f = "init_user (ki_thread_exit ki) entry (randomized_user_stack_top draw (user_stack_top_raw i))
      (kernel_stack_top_raw ki i) (pt_frames t2 ! i)"
    let ?t = "pt_set i (Some (spawn_record p i entry name)) (t2\<lparr>pt_frames := (pt_frames t2)[i := ?f]\<rparr>)"
    have "spawn ki draw entry name t = Val (?t, Inr p)" by (simp add: spawn_def pid slot Some Let_def)
    moreover have "created t ?t i (spawn_record p i entry name)"
      by (rule created_insert [OF assms pid slot [unfolded Some]]) (simp_all add: spawn_record_def)
    ultimately show thesis using ok a(6) by blast
  qed
qed

lemma fork_cases:
  assumes "pt_wf t" and "pid_room t" and parent: "pt_get t ps = Some parent"
  obtains (err) t' e where "fork ki clone ps pf t = Val (t', Inl e)" "same_records t t'"
  | (ok) t' i space where "fork ki clone ps pf t = Val (t', Inr (pt_next_pid t, i))"
      "created t t' i (fork_record parent (pt_next_pid t) i space)"
      "p_addr_space parent = None \<longleftrightarrow> space = None"
      "\<And>s. p_addr_space parent = Some s \<Longrightarrow> clone s = Inr (the space)"
      "pt_frames t' ! i = pf\<lparr>tf_regs := (tf_regs pf)[0 := 0],
         tf_sp_el0 := of_nat (USER_STACK_TOP - (USER_STACK_TOP - unat (tf_sp_el0 pf))),
         tf_sp_el1 := of_nat (kernel_stack_top_raw ki i)\<rparr>"
proof -
  obtain t1 p where pid: "alloc_pid t = (t1, p)" by fastforce
  note a = alloc_pid_wf [OF assms(1,2) pid]
  define sp where "sp = (case p_addr_space parent of Some space \<Rightarrow> map_sum id Some (clone space) | None \<Rightarrow> Inr None)"
  obtain t2 slot where slot: "alloc_table_slot_locked t1 = Val (t2, slot)"
    using alloc_slot_not_Panic [OF a(1)] by (cases "alloc_table_slot_locked t1") fastforce+
  note step = fork_def [of ki clone ps pf t, unfolded parent option.case pid Let_def prod.case sp_def [symmetric]]
  show thesis
  proof (cases sp)
    case (Inl e)
    then show thesis
      using err [of t1 "PMapError e"] step alloc_pid_same [OF assms(1,2) pid] by simp
  next
    case (Inr space)
    have sp: "p_addr_space parent = None \<longleftrightarrow> space = None"
      "\<And>s. p_addr_space parent = Some s \<Longrightarrow> clone s = Inr (the space)"
      using Inr unfolding sp_def by (auto split: option.splits sum.splits simp: map_sum_def)
    show thesis
    proof (cases slot)
      case None
      then show thesis
        using err [of t2 PTableFull] step Inr slot no_slot_same [OF assms(1,2) pid] by simp
    next
      case (Some i)
      let ?f = "pf\<lparr>tf_regs := (tf_regs pf)[0 := 0],
         tf_sp_el0 := of_nat (user_stack_top_raw i - (user_stack_top_raw ps - unat (tf_sp_el0 pf))),
         tf_sp_el1 := of_nat (kernel_stack_top_raw ki i)\<rparr>"
      let ?t = "pt_set i (Some (fork_record parent p i space)) (t2\<lparr>pt_frames := (pt_frames t2)[i := ?f]\<rparr>)"
      have f: "fork ki clone ps pf t = Val (?t, Inr (p, i))"
        using step Inr slot Some by (simp add: pt_set_def)
      have c: "created t ?t i (fork_record parent p i space)"
        by (rule created_insert [OF assms(1,2) pid slot [unfolded Some]]) (simp_all add: fork_record_def)
      have "i < length (pt_frames ?t)" using c by (simp add: created_def pt_wf_def)
      then have "pt_frames ?t ! i = ?f" by simp
      then show thesis using ok f c sp a(6) by (simp add: user_stack_top_raw_def)
    qed
  qed
qed

lemma create_thread_cases:
  assumes "pt_wf t" and "pid_room t"
  obtains (err) t' e where "create_thread ki ps entry stack_top tls arg t = Val (t', Inl e)" "same_records t t'"
  | (ok) t' i parent where "create_thread ki ps entry stack_top tls arg t = Val (t', Inr (pt_next_pid t))"
      "pt_get t ps = Some parent" "created t t' i (thread_record parent (pt_next_pid t) i entry stack_top)"
proof (cases "pt_get t ps")
  case None
  then show thesis using err [of t PNoSuchProcess] assms by (simp add: create_thread_def same_records_def)
next
  case (Some parent)
  obtain t1 p where pid: "alloc_pid t = (t1, p)" by fastforce
  note a = alloc_pid_wf [OF assms(1,2) pid]
  obtain t2 slot where slot: "alloc_table_slot_locked t1 = Val (t2, slot)"
    using alloc_slot_not_Panic [OF a(1)] by (cases "alloc_table_slot_locked t1") fastforce+
  have same: "same_records t t" using assms by (simp add: same_records_def)
  show thesis
  proof (cases "address_space ps t = None \<or> stack_top = 0 \<or> entry = 0")
    case True
    then have "\<exists>e. create_thread ki ps entry stack_top tls arg t = Val (t, Inl e)"
      using Some by (cases "address_space ps t = None") (auto simp: create_thread_def)
    then show thesis using err same by blast
  next
    case False
    note step = create_thread_def [of ki ps entry stack_top tls arg t, unfolded Some option.case pid Let_def prod.case]
    show thesis
    proof (cases slot)
      case None
      then show thesis
        using err [of t2 PTableFull] step False slot no_slot_same [OF assms(1,2) pid] by simp
    next
      case Some': (Some i)
      let ?f = "init_thread entry stack_top (kernel_stack_top_raw ki i) tls arg frame_new"
      let ?t = "pt_set i (Some (thread_record parent p i entry stack_top)) (t2\<lparr>pt_frames := (pt_frames t2)[i := ?f]\<rparr>)"
      have "create_thread ki ps entry stack_top tls arg t = Val (?t, Inr p)"
        using step False slot Some' by (simp add: pt_set_def)
      moreover have "created t ?t i (thread_record parent p i entry stack_top)"
        by (rule created_insert [OF assms(1,2) pid slot [unfolded Some']]) (simp_all add: thread_record_def)
      ultimately show thesis using ok Some a(6) by blast
    qed
  qed
qed

section \<open>Properties\<close>

text \<open>
  C27: the sequence of process identifiers in closed form. The \<open>n\<close>-th identifier ever handed out has
  sequence part \<open>2 + n mod 65534\<close> and generation \<open>n div 65534\<close>, until the 48-bit generation is
  used up; so identifiers grow strictly, none is handed out twice, and the reserved sequence
  numbers 0 and 1 never occur.
\<close>

theorem pid_sequence:
  assumes "n \<le> 65534 * (2 ^ 48 - 1)"
  shows "unat ((next_pid_raw ^^ n) PID_SEQ_FIRST) = n div 65534 * 65536 + (2 + n mod 65534)"
  using assms
proof (induction n)
  case (Suc n)
  define q r where "q = n div 65534" and "r = n mod 65534"
  have n: "n = q * 65534 + r" and r: "r < 65534" by (simp_all add: q_def r_def)
  have q: "q < 2 ^ 48 - 1" using Suc.prems unfolding q_def by (simp add: div_less_iff_less_mult)
  let ?c = "(next_pid_raw ^^ n) PID_SEQ_FIRST"
  have c: "unat ?c = q * 65536 + (2 + r)" using Suc by (simp add: q_def r_def)
  have m: "unat ?c mod 65536 = 2 + r" "unat ?c div 65536 = q"
    using r unfolding c mod_mult_self3 div_mult_self3 [OF numeral_neq_zero] by simp_all
  have lt: "unat ?c < 2 ^ 64 - 2 ^ 16" using q r unfolding c by simp
  have step: "unat (next_pid_raw ?c) = (if r = 65533 then (q + 1) * 65536 + 2 else q * 65536 + (2 + r) + 1)"
    unfolding unat_next_pid_raw [OF lt] m using c by simp
  show ?case
  proof (cases "r = 65533")
    case True
    then have "Suc n = (q + 1) * 65534" using n by simp
    then have "Suc n div 65534 = q + 1" "Suc n mod 65534 = 0" by simp_all
    then show ?thesis using step True by simp
  next
    case False
    then have "Suc n = q * 65534 + Suc r" "Suc r < 65534" using n r by simp_all
    then have "Suc n div 65534 = q" "Suc n mod 65534 = Suc r" by simp_all
    then show ?thesis using step False by simp
  qed
qed (simp add: PID_SEQ_FIRST_def)

theorem pid_sequence_witness:
  "unat ((next_pid_raw ^^ 65533) PID_SEQ_FIRST) = 65535 \<and> unat ((next_pid_raw ^^ 65534) PID_SEQ_FIRST) = 65538"
  using pid_sequence [of 65533] pid_sequence [of 65534] by simp

text \<open>
  C28: \<open>fork\<close> never panics. It either fails, with every record, owner and saved frame as before,
  or puts exactly one new runnable child into a free slot: a fresh identifier, the parent's
  capabilities, session, break and a clone of its address space, the parent as parent, no pending
  signals or waits; and the child resumes from a copy of the parent's frame in which register 0 is 0.
\<close>

theorem fork_spec:
  assumes "pt_wf t" and "pid_room t" and "pt_get t ps = Some parent"
  shows "case fork ki clone ps pf t of
      Panic \<Rightarrow> False
    | Val (t', Inl e) \<Rightarrow> same_records t t'
    | Val (t', Inr (child, i)) \<Rightarrow> child = pt_next_pid t \<and> (\<exists>r. created t t' i r \<and>
        p_capabilities r = p_capabilities parent \<and> p_session r = p_session parent \<and>
        p_brk r = p_brk parent \<and> p_parent r = Some (p_pid parent) \<and> p_tgid r = child \<and>
        p_pending_signals r = 0 \<and> p_wait_target r = None \<and>
        map_option (\<lambda>s. clone s) (p_addr_space parent) = map_option Inr (p_addr_space r) \<and>
        tf_regs (pt_frames t' ! i) = (tf_regs pf)[0 := 0] \<and>
        tf_elr_el1 (pt_frames t' ! i) = tf_elr_el1 pf \<and> tf_tpidr_el0 (pt_frames t' ! i) = tf_tpidr_el0 pf)"
proof (rule fork_cases [OF assms, of ki clone pf])
  fix t' e assume "fork ki clone ps pf t = Val (t', Inl e)" "same_records t t'"
  then show ?thesis by simp
next
  fix t' i space
  assume f: "fork ki clone ps pf t = Val (t', Inr (pt_next_pid t, i))"
    "created t t' i (fork_record parent (pt_next_pid t) i space)"
    and sp: "p_addr_space parent = None \<longleftrightarrow> space = None"
      "\<And>s. p_addr_space parent = Some s \<Longrightarrow> clone s = Inr (the space)"
    and fr: "pt_frames t' ! i = pf\<lparr>tf_regs := (tf_regs pf)[0 := 0],
         tf_sp_el0 := of_nat (USER_STACK_TOP - (USER_STACK_TOP - unat (tf_sp_el0 pf))),
         tf_sp_el1 := of_nat (kernel_stack_top_raw ki i)\<rparr>"
  have "map_option (\<lambda>s. clone s) (p_addr_space parent) = map_option Inr space"
    using sp by (cases "p_addr_space parent") auto
  then show ?thesis using f fr
    by (auto simp: fork_record_def intro!: exI [of _ "fork_record parent (pt_next_pid t) i space"])
qed

definition demo_image :: kernel_image where
  "demo_image = \<lparr>ki_thread_exit = 0x40100000, ki_kernel_stacks = 0x40200000\<rparr>"

definition demo_ptable :: ptable where
  "demo_ptable = \<lparr>pt_table = [Some (spawn_record 2 0 0x1000 ''launchd'')],
    pt_owner = replicate MAX_PROCESSES PROCESS_OWNER_NONE,
    pt_frames = replicate MAX_PROCESSES frame_new, pt_next_pid = 3\<rparr>"

lemma demo_ptable_get: "pt_get demo_ptable i = (if i = 0 then Some (spawn_record 2 0 0x1000 ''launchd'') else None)"
  by (simp add: pt_get_def demo_ptable_def)

lemma demo_ptable_wf: "pt_wf demo_ptable" "pid_room demo_ptable"
proof -
  show "pt_wf demo_ptable"
    unfolding pt_wf_def demo_ptable_get
    by (simp add: demo_ptable_def MAX_PROCESSES_def spawn_record_def)
  show "pid_room demo_ptable" by (simp add: pid_room_def demo_ptable_def)
qed

theorem fork_spec_witness:
  "\<exists>t' r. fork demo_image (\<lambda>s. Inr (s + 1)) 0 frame_new demo_ptable = Val (t', Inr (3, 1)) \<and>
    created demo_ptable t' 1 r \<and> p_parent r = Some 2"
proof -
  let ?f = "fork demo_image (\<lambda>s. Inr (s + 1)) 0 frame_new demo_ptable"
  have g: "pt_get demo_ptable 0 = Some (spawn_record 2 0 0x1000 ''launchd'')" by (simp add: demo_ptable_get)
  have "alloc_pid demo_ptable = (demo_ptable\<lparr>pt_next_pid := next_pid_raw 3\<rparr>, 3)"
    by (simp add: alloc_pid_def demo_ptable_def)
  moreover have "\<exists>t'. alloc_table_slot_locked (demo_ptable\<lparr>pt_next_pid := next_pid_raw 3\<rparr>) = Val (t', Some 1)"
    by (simp add: alloc_table_slot_locked_def demo_ptable_def owner_store_def MAX_PROCESSES_def)
  ultimately obtain t' where f: "?f = Val (t', Inr (3, 1))"
    unfolding fork_def g by (auto simp: spawn_record_def)
  then show ?thesis
    using fork_spec [OF demo_ptable_wf g, where ki = demo_image and clone = "\<lambda>s. Inr (s + 1)" and pf = frame_new]
    by (auto simp: spawn_record_def)
qed

text \<open>
  C29: a thread that forks gives its child no address space. A thread that is not the carrier of its
  group runs in the carrier's address space, but \<open>fork\<close> clones only the space held by the calling
  record itself; the child is the leader of a new group, so no other record lends it one.
\<close>

theorem member_thread_fork_spaceless:
  assumes "pt_wf t" and "pid_room t" and "pt_get t ps = Some parent" and "p_addr_space parent = None"
    and "fork ki clone ps pf t = Val (t', Inr (child, i))"
  shows "pt_get t' i \<noteq> None \<and> address_space i t' = None"
proof (rule fork_cases [OF assms(1-3), of ki clone pf])
  fix u j space
  assume f: "fork ki clone ps pf t = Val (u, Inr (pt_next_pid t, j))"
    "created t u j (fork_record parent (pt_next_pid t) j space)"
    and sp: "p_addr_space parent = None \<longleftrightarrow> space = None"
  have "pt_get t' i = Some (fork_record parent (pt_next_pid t) i None)"
    using f assms(4,5) sp by (auto simp: created_def)
  then show ?thesis by (simp add: address_space_def fork_record_def)
qed (use assms(5) in auto)

definition thread_demo :: ptable where
  "thread_demo = demo_ptable\<lparr>pt_table := [Some ((spawn_record 2 0 0x1000 ''app'')\<lparr>p_addr_space := Some 0x5000\<rparr>),
     Some (thread_record (spawn_record 2 0 0x1000 ''app'') 3 1 0x2000 0x9000)], pt_next_pid := 4\<rparr>"

theorem member_thread_fork_spaceless_witness:
  "address_space 1 thread_demo = Some 0x5000 \<and>
   (\<exists>t'. fork demo_image (\<lambda>s. Inr (s + 1)) 1 frame_new thread_demo = Val (t', Inr (4, 2)) \<and>
      pt_get t' 2 \<noteq> None \<and> address_space 2 t' = None)"
proof
  show "address_space 1 thread_demo = Some 0x5000"
    by (simp add: address_space_def pt_get_def thread_demo_def spawn_record_def thread_record_def)
  let ?r = "thread_record (spawn_record 2 0 0x1000 ''app'') 3 1 0x2000 0x9000"
  let ?f = "fork demo_image (\<lambda>s. Inr (s + 1)) 1 frame_new thread_demo"
  have g: "pt_get thread_demo 1 = Some ?r" by (simp add: pt_get_def thread_demo_def)
  have gets: "pt_get thread_demo i = (if i = 0 then Some ((spawn_record 2 0 0x1000 ''app'')\<lparr>p_addr_space := Some 0x5000\<rparr>)
      else if i = 1 then Some ?r else None)" for i
    by (auto simp: pt_get_def thread_demo_def nth_Cons split: nat.split)
  have wf: "pt_wf thread_demo" "pid_room thread_demo"
    unfolding pt_wf_def gets
    by (simp_all add: thread_demo_def demo_ptable_def MAX_PROCESSES_def spawn_record_def thread_record_def pid_room_def)
  have "alloc_pid thread_demo = (thread_demo\<lparr>pt_next_pid := next_pid_raw 4\<rparr>, 4)"
    by (simp add: alloc_pid_def thread_demo_def)
  moreover have "\<exists>t'. alloc_table_slot_locked (thread_demo\<lparr>pt_next_pid := next_pid_raw 4\<rparr>) = Val (t', Some 2)"
    by (simp add: alloc_table_slot_locked_def thread_demo_def demo_ptable_def owner_store_def MAX_PROCESSES_def)
  ultimately obtain t' where f: "?f = Val (t', Inr (4, 2))"
    unfolding fork_def g by (auto simp: thread_record_def)
  then show "\<exists>t'. ?f = Val (t', Inr (4, 2)) \<and> pt_get t' 2 \<noteq> None \<and> address_space 2 t' = None"
    using member_thread_fork_spaceless [OF wf g _ f] by (auto simp: thread_record_def)
qed

end
