(* ===== verification/Run_Queue.thy ===== *)
theory Run_Queue
  imports Ring_Buffer Process_Table
begin

text \<open>
  The multi-level feedback queue of \<open>microkernel/src/scheduler.rs\<close>: one ring per level, popped
  from level 0 down. Its abstraction is a list of lists of process identifiers.
\<close>

section \<open>Definitions\<close>

definition MLFQ_LEVELS :: nat where "MLFQ_LEVELS = 4"
definition RUNQUEUE_CAPACITY :: nat where "RUNQUEUE_CAPACITY = MAX_PROCESSES"

record run_queue =
  rq_buf :: "pid option list"
  rq_head :: nat
  rq_tail :: nat
  rq_len :: nat

definition rq_new :: run_queue where
  "rq_new = \<lparr>rq_buf = replicate RUNQUEUE_CAPACITY None, rq_head = 0, rq_tail = 0, rq_len = 0\<rparr>"

definition rq_clear :: "run_queue \<Rightarrow> run_queue" where
  "rq_clear q = q\<lparr>rq_head := 0, rq_tail := 0, rq_len := 0, rq_buf := map (\<lambda>_. None) (rq_buf q)\<rparr>"

definition rq_push :: "pid \<Rightarrow> run_queue \<Rightarrow> run_queue outcome" where
  "rq_push p q =
    (if \<not> rq_len q < RUNQUEUE_CAPACITY then Panic
     else Val (q\<lparr>rq_buf := (rq_buf q)[rq_tail q := Some p],
                 rq_tail := (rq_tail q + 1) mod length (rq_buf q), rq_len := rq_len q + 1\<rparr>))"

definition rq_pop :: "run_queue \<Rightarrow> run_queue \<times> pid option" where
  "rq_pop q =
    (if rq_len q = 0 then (q, None)
     else (q\<lparr>rq_buf := (rq_buf q)[rq_head q := None],
             rq_head := (rq_head q + 1) mod length (rq_buf q), rq_len := rq_len q - 1\<rparr>,
           rq_buf q ! rq_head q))"

type_synonym mlfq = "run_queue list"

definition mlfq_new :: mlfq where
  "mlfq_new = replicate MLFQ_LEVELS rq_new"

definition mlfq_clear :: "mlfq \<Rightarrow> mlfq" where
  "mlfq_clear m = map rq_clear m"

definition mlfq_push_at :: "pid \<Rightarrow> nat \<Rightarrow> mlfq \<Rightarrow> mlfq outcome" where
  "mlfq_push_at p level m =
    (let l = min level (MLFQ_LEVELS - 1) in obind (rq_push p (m ! l)) (\<lambda>q. Val (m[l := q])))"

fun mlfq_pop :: "mlfq \<Rightarrow> mlfq \<times> pid option" where
  "mlfq_pop [] = ([], None)"
| "mlfq_pop (q # qs) =
    (case rq_pop q of
       (q', Some p) \<Rightarrow> (q' # qs, Some p)
     | (q', None) \<Rightarrow> (let (qs', r) = mlfq_pop qs in (q' # qs', r)))"

section \<open>One level\<close>

definition rq_items :: "run_queue \<Rightarrow> pid list" where
  "rq_items q = map the (ring_items (rq_buf q) (rq_head q) (rq_len q))"

definition rq_wf :: "run_queue \<Rightarrow> bool" where
  "rq_wf q \<longleftrightarrow> length (rq_buf q) = RUNQUEUE_CAPACITY \<and>
     ring_wf (rq_buf q) (rq_head q) (rq_tail q) (rq_len q) \<and>
     None \<notin> set (ring_items (rq_buf q) (rq_head q) (rq_len q))"

lemma RUNQUEUE_CAPACITY_pos [simp]: "0 < RUNQUEUE_CAPACITY"
  by (simp add: RUNQUEUE_CAPACITY_def MAX_PROCESSES_def)

lemma length_rq_items [simp]: "length (rq_items q) = rq_len q"
  by (simp add: rq_items_def)

lemma rq_new_wf [simp]: "rq_wf rq_new" "rq_items rq_new = []"
  by (simp_all add: rq_wf_def rq_new_def ring_wf_def ring_items_def rq_items_def)

lemma rq_clear_wf [simp]: "rq_wf q \<Longrightarrow> rq_wf (rq_clear q)" "rq_items (rq_clear q) = []"
  by (simp_all add: rq_wf_def rq_clear_def ring_wf_def ring_items_def rq_items_def)

lemma rq_wf_len: "rq_wf q \<Longrightarrow> rq_len q \<le> RUNQUEUE_CAPACITY"
  by (simp add: rq_wf_def ring_wf_def)

lemma rq_push_full: "rq_wf q \<Longrightarrow> rq_push p q = Panic \<longleftrightarrow> RUNQUEUE_CAPACITY \<le> length (rq_items q)"
  by (auto simp: rq_push_def)

lemma rq_push_Val:
  assumes "rq_wf q" and "rq_push p q = Val q'"
  shows "rq_wf q' \<and> rq_items q' = rq_items q @ [p]"
proof -
  have len: "rq_len q < length (rq_buf q)"
    using assms by (auto simp: rq_wf_def rq_push_def split: if_splits)
  have ring: "ring_wf (rq_buf q) (rq_head q) (rq_tail q) (rq_len q)" using assms by (simp add: rq_wf_def)
  have q': "q' = q\<lparr>rq_buf := (rq_buf q)[rq_tail q := Some p],
                 rq_tail := (rq_tail q + 1) mod length (rq_buf q), rq_len := rq_len q + 1\<rparr>"
    using assms(2) by (auto simp: rq_push_def split: if_splits)
  show ?thesis
    using ring_push [OF ring len, of "Some p"] assms(1) by (simp add: q' rq_wf_def rq_items_def)
qed

lemma rq_pop_empty: "rq_wf q \<Longrightarrow> snd (rq_pop q) = None \<longleftrightarrow> rq_items q = []"
proof (cases "rq_len q = 0")
  case True
  then show ?thesis by (simp add: rq_pop_def flip: length_0_conv)
next
  case False
  assume "rq_wf q"
  then have "rq_buf q ! rq_head q \<in> set (ring_items (rq_buf q) (rq_head q) (rq_len q))"
    and "None \<notin> set (ring_items (rq_buf q) (rq_head q) (rq_len q))"
    using False ring_pop_front(1) [of "rq_buf q" "rq_head q" "rq_tail q" "rq_len q"] by (auto simp: rq_wf_def)
  then have "rq_buf q ! rq_head q \<noteq> None" by metis
  then show ?thesis using False by (auto simp: rq_pop_def simp flip: length_0_conv)
qed

lemma rq_pop_empty_same: "rq_wf q \<Longrightarrow> rq_items q = [] \<Longrightarrow> rq_pop q = (q, None)"
  by (simp add: rq_pop_def flip: length_0_conv)

lemma rq_pop_Some:
  assumes "rq_wf q" and "rq_pop q = (q', Some p)"
  shows "rq_wf q' \<and> rq_items q = p # rq_items q'"
proof -
  have ne: "0 < rq_len q" using assms(2) by (auto simp: rq_pop_def split: if_splits)
  have ring: "ring_wf (rq_buf q) (rq_head q) (rq_tail q) (rq_len q)" using assms by (simp add: rq_wf_def)
  have q': "q' = q\<lparr>rq_buf := (rq_buf q)[rq_head q := None],
             rq_head := (rq_head q + 1) mod length (rq_buf q), rq_len := rq_len q - 1\<rparr>"
    and p: "rq_buf q ! rq_head q = Some p"
    using assms(2) ne by (auto simp: rq_pop_def)
  let ?h = "(rq_head q + 1) mod length (rq_buf q)"
  note front = ring_pop_front [OF ring ne]
  have out: "rq_head q \<noteq> (?h + i) mod length (rq_buf q)" if "i < rq_len q - 1" for i
  proof
    assume "rq_head q = (?h + i) mod length (rq_buf q)"
    then have "(rq_head q + 0) mod length (rq_buf q) = (rq_head q + (i + 1)) mod length (rq_buf q)"
      using ring by (simp add: ring_wf_def mod_add_left_eq)
    moreover have "i + 1 < length (rq_buf q)" "0 < length (rq_buf q)"
      using that ring by (auto simp: ring_wf_def)
    ultimately show False using ring_index_inj [of "rq_head q" 0 "length (rq_buf q)" "i + 1"] by simp
  qed
  have items: "ring_items ((rq_buf q)[rq_head q := None]) ?h (rq_len q - 1) = ring_items (rq_buf q) ?h (rq_len q - 1)"
    by (rule ring_items_update_outside) (rule out)
  have "ring_wf ((rq_buf q)[rq_head q := None]) ?h (rq_tail q) (rq_len q - 1)"
    using front(2) by (simp add: ring_wf_def)
  then show ?thesis
    using assms(1) front(1) p items by (auto simp: q' rq_wf_def rq_items_def)
qed

text \<open>A level honours the queue interface; every consumer may take every entry.\<close>

interpretation rq: selective_queue rq_wf rq_items RUNQUEUE_CAPACITY "\<lambda>(_ :: unit) _. True"
    "\<lambda>p q. case rq_push p q of Val q' \<Rightarrow> Some q' | Panic \<Rightarrow> None"
    "\<lambda>_ q. case rq_pop q of (q', Some p) \<Rightarrow> Some (p, q') | (_, None) \<Rightarrow> None"
proof unfold_locales
  fix q :: run_queue and p q'
  assume wf: "rq_wf q"
  show "(case rq_push p q of Val q' \<Rightarrow> Some q' | Panic \<Rightarrow> None) = None \<longleftrightarrow> RUNQUEUE_CAPACITY \<le> length (rq_items q)"
    using rq_push_full [OF wf, of p] by (cases "rq_push p q") auto
  show "(case rq_push p q of Val q' \<Rightarrow> Some q' | Panic \<Rightarrow> None) = Some q' \<Longrightarrow>
      rq_wf q' \<and> rq_items q' = rq_items q @ [p]"
    using rq_push_Val [OF wf, of p] by (cases "rq_push p q") auto
  show "(case rq_pop q of (q', Some p) \<Rightarrow> Some (p, q') | (_, None) \<Rightarrow> None) = None \<longleftrightarrow>
      (\<forall>x \<in> set (rq_items q). \<not> True)"
    using rq_pop_empty [OF wf] by (auto split: prod.splits option.splits)
  show "(case rq_pop q of (q', Some p) \<Rightarrow> Some (p, q') | (_, None) \<Rightarrow> None) = Some (p, q') \<Longrightarrow>
      rq_wf q' \<and> True \<and> (\<exists>us vs. rq_items q = us @ p # vs \<and> rq_items q' = us @ vs \<and> (\<forall>u \<in> set us. \<not> True))"
    using rq_pop_Some [OF wf] by (auto split: prod.splits option.splits)
qed

section \<open>All levels\<close>

definition mlfq_wf :: "mlfq \<Rightarrow> bool" where
  "mlfq_wf m \<longleftrightarrow> length m = MLFQ_LEVELS \<and> (\<forall>q \<in> set m. rq_wf q)"

definition mlfq_levels :: "mlfq \<Rightarrow> pid list list" where
  "mlfq_levels m = map rq_items m"

definition mlfq_all :: "mlfq \<Rightarrow> pid list" where
  "mlfq_all m = concat (mlfq_levels m)"

text \<open>The specification: append at a level; take the head of the first level that has one.\<close>

definition spec_push :: "pid \<Rightarrow> nat \<Rightarrow> pid list list \<Rightarrow> pid list list" where
  "spec_push p l ls = ls[l := ls ! l @ [p]]"

fun spec_pop :: "pid list list \<Rightarrow> pid list list \<times> pid option" where
  "spec_pop [] = ([], None)"
| "spec_pop ([] # ls) = (let (ls', r) = spec_pop ls in ([] # ls', r))"
| "spec_pop ((p # ps) # ls) = (ps # ls, Some p)"

lemma mlfq_new_wf [simp]: "mlfq_wf mlfq_new" "mlfq_all mlfq_new = []"
  by (simp_all add: mlfq_wf_def mlfq_new_def mlfq_all_def mlfq_levels_def)

lemma mlfq_push_at_eq:
  assumes "mlfq_wf m" and "length (mlfq_all m) < RUNQUEUE_CAPACITY"
  obtains m' where "mlfq_push_at p level m = Val m'" "mlfq_wf m'"
    "mlfq_levels m' = spec_push p (min level (MLFQ_LEVELS - 1)) (mlfq_levels m)"
proof -
  define l where "l = min level (MLFQ_LEVELS - 1)"
  have l: "l < length m" using assms(1) by (simp add: l_def mlfq_wf_def MLFQ_LEVELS_def)
  have wf: "rq_wf (m ! l)" using assms(1) l by (simp add: mlfq_wf_def)
  have "length (rq_items (m ! l)) \<le> length (mlfq_all m)"
    unfolding mlfq_all_def mlfq_levels_def length_concat
    using l by (intro member_le_sum_list) (auto intro: imageI)
  then obtain q where q: "rq_push p (m ! l) = Val q"
    using rq_push_full [OF wf, of p] assms(2) by (cases "rq_push p (m ! l)") auto
  have "mlfq_push_at p level m = Val (m[l := q])" by (simp add: mlfq_push_at_def q flip: l_def [unfolded One_nat_def])
  moreover have "mlfq_wf (m[l := q])"
    using assms(1) rq_push_Val [OF wf q] by (auto simp: mlfq_wf_def dest!: set_update_subset_insert [THEN subsetD])
  moreover have "mlfq_levels (m[l := q]) = spec_push p l (mlfq_levels m)"
    using rq_push_Val [OF wf q] l by (simp add: mlfq_levels_def spec_push_def map_update)
  ultimately show thesis using that unfolding l_def by blast
qed

lemma mlfq_pop_eq:
  assumes "\<forall>q \<in> set m. rq_wf q"
  shows "length (fst (mlfq_pop m)) = length m \<and> (\<forall>q \<in> set (fst (mlfq_pop m)). rq_wf q) \<and>
    spec_pop (map rq_items m) = (map rq_items (fst (mlfq_pop m)), snd (mlfq_pop m))"
  using assms
proof (induction m)
  case (Cons q m)
  then have wf: "rq_wf q" by simp
  show ?case
  proof (cases "rq_pop q")
    case (Pair q' r)
    show ?thesis
    proof (cases r)
      case None
      then have "rq_items q = []" "q' = q"
        using Pair rq_pop_empty [OF wf] rq_pop_empty_same [OF wf] by auto
      then show ?thesis using Cons Pair None by (auto simp: split_beta)
    next
      case (Some p)
      then show ?thesis using Cons.prems Pair rq_pop_Some [OF wf, of q' p] by simp
    qed
  qed
qed simp

lemma spec_pop_concat:
  "spec_pop ls = (ls', r) \<Longrightarrow> (case r of None \<Rightarrow> concat ls = [] \<and> ls' = ls | Some p \<Rightarrow> concat ls = p # concat ls')"
  by (induction ls arbitrary: ls' r rule: spec_pop.induct) (auto split: option.splits prod.splits)

lemma mset_concat_update:
  "l < length ls \<Longrightarrow> mset (concat (spec_push p l ls)) = add_mset p (mset (concat ls))"
proof (induction ls arbitrary: l)
  case (Cons xs ls)
  then show ?case by (cases l) (auto simp: spec_push_def)
qed simp


section \<open>Properties\<close>

text \<open>
  C26: the multi-level queue implements its specification. With fewer entries than its capacity,
  a push never panics and appends at the (clamped) level; a pop takes the head of the highest
  non-empty level and leaves every other level alone, and answers \<open>None\<close> only if all are empty.
\<close>

theorem mlfq_refinement:
  assumes "mlfq_wf m"
  shows "(length (mlfq_all m) < RUNQUEUE_CAPACITY \<longrightarrow>
      (\<exists>m'. mlfq_push_at p level m = Val m' \<and> mlfq_wf m' \<and>
        mlfq_levels m' = spec_push p (min level 3) (mlfq_levels m))) \<and>
    (case mlfq_pop m of (m', r) \<Rightarrow> mlfq_wf m' \<and> spec_pop (mlfq_levels m) = (mlfq_levels m', r) \<and>
      (r = None \<longleftrightarrow> mlfq_all m = []))"
proof
  show "length (mlfq_all m) < RUNQUEUE_CAPACITY \<longrightarrow>
      (\<exists>m'. mlfq_push_at p level m = Val m' \<and> mlfq_wf m' \<and>
        mlfq_levels m' = spec_push p (min level 3) (mlfq_levels m))"
    using mlfq_push_at_eq [OF assms, of p level] by (auto simp: MLFQ_LEVELS_def)
  obtain m' r where pop: "mlfq_pop m = (m', r)" by fastforce
  have eq: "mlfq_wf m'" "spec_pop (mlfq_levels m) = (mlfq_levels m', r)"
    using mlfq_pop_eq [of m] assms pop by (auto simp: mlfq_wf_def mlfq_levels_def)
  show "case mlfq_pop m of (m', r) \<Rightarrow> mlfq_wf m' \<and> spec_pop (mlfq_levels m) = (mlfq_levels m', r) \<and>
      (r = None \<longleftrightarrow> mlfq_all m = [])"
    using eq spec_pop_concat [OF eq(2)] pop
    by (auto simp: mlfq_all_def simp del: concat_eq_Nil_conv split: option.splits)
qed

theorem mlfq_refinement_witness:
  "\<exists>m. mlfq_push_at 7 9 mlfq_new = Val m \<and> mlfq_levels m = [[], [], [], [7]] \<and> snd (mlfq_pop m) = Some 7"
proof -
  have len: "length (mlfq_all mlfq_new) < RUNQUEUE_CAPACITY" by simp
  obtain m where m: "mlfq_push_at 7 9 mlfq_new = Val m" "mlfq_wf m"
      "mlfq_levels m = spec_push 7 (min 9 3) (mlfq_levels mlfq_new)"
    using mlfq_refinement [of mlfq_new 7 9] len by auto
  have ls: "mlfq_levels m = [[], [], [], [7]]"
    using m(3) by (simp add: mlfq_levels_def mlfq_new_def spec_push_def MLFQ_LEVELS_def numeral_eq_Suc)
  have "snd (mlfq_pop m) = Some 7"
    using mlfq_refinement [OF m(2), of 0 0] ls by (auto split: prod.splits)
  then show ?thesis using m(1) ls by blast
qed

end
