(* ===== verification/Scheduler.thy ===== *)
theory Scheduler
  imports Run_Queue
begin

text \<open>
  The scheduler of \<open>microkernel/src/scheduler.rs\<close>: its state extends the process table by the run
  queue, the per-core current slots and idle flags, the per-slot levels and time slices, the tick
  counter and the sleep queue. Functions that end by switching context are split at the points
  where the kernel gives up a lock: each definition here is what runs between two such points, and
  theory \<open>Smp\<close> interleaves them. The core number is an argument.
\<close>

section \<open>State\<close>

definition MAX_CPUS :: nat where "MAX_CPUS = 4"
definition BOOST_EVERY_TICKS :: u64 where "BOOST_EVERY_TICKS = 200"
definition SLEEP_QUEUE_CAP :: nat where "SLEEP_QUEUE_CAP = 128"
definition WATCHDOG_IDLE_TICKS :: u32 where "WATCHDOG_IDLE_TICKS = 600"
definition SLICE_TICKS :: u32 where "SLICE_TICKS = 4"

record sleep_entry =
  sl_wake_at :: u64
  sl_start :: u64
  sl_pid :: pid

record sched = ptable +
  sc_queue :: mlfq
  sc_current :: "nat option list"
  sc_idle :: "bool list"
  sc_level :: "u8 list"
  sc_slice :: "u32 list"
  sc_tick :: u64
  sc_last_boost :: u64
  sc_streak :: "u32 list"
  sc_sleep :: "sleep_entry list"

text \<open>Array accesses are bounds-checked.\<close>

definition array_get :: "'b list \<Rightarrow> nat \<Rightarrow> 'b outcome" where
  "array_get xs i = (if i < length xs then Val (xs ! i) else Panic)"

definition set_level :: "nat \<Rightarrow> nat \<Rightarrow> 'a sched_scheme \<Rightarrow> 'a sched_scheme outcome" where
  "set_level slot l s =
    (if slot < length (sc_level s) then Val (s\<lparr>sc_level := (sc_level s)[slot := of_nat l]\<rparr>) else Panic)"

definition set_slice :: "nat \<Rightarrow> u32 \<Rightarrow> 'a sched_scheme \<Rightarrow> 'a sched_scheme outcome" where
  "set_slice slot v s =
    (if slot < length (sc_slice s) then Val (s\<lparr>sc_slice := (sc_slice s)[slot := v]\<rparr>) else Panic)"

primrec ofold :: "('b \<Rightarrow> 's \<Rightarrow> 's outcome) \<Rightarrow> 'b list \<Rightarrow> 's \<Rightarrow> 's outcome" where
  "ofold f [] s = Val s"
| "ofold f (x # xs) s = obind (f x s) (ofold f xs)"

section \<open>Levels and the run queue\<close>

definition slice_for_level :: "nat \<Rightarrow> u32" where
  "slice_for_level level = push_bit (min level (MLFQ_LEVELS - 1)) SLICE_TICKS"

definition proc_level :: "nat \<Rightarrow> 'a sched_scheme \<Rightarrow> nat outcome" where
  "proc_level slot s = obind (array_get (sc_level s) slot) (\<lambda>l. Val (min (unat l) (MLFQ_LEVELS - 1)))"

definition next_level_after_slice :: "nat \<Rightarrow> nat" where
  "next_level_after_slice level = min (level + 1) (MLFQ_LEVELS - 1)"

definition next_level_after_yield :: "nat \<Rightarrow> nat" where
  "next_level_after_yield level = min (level + 1) (MLFQ_LEVELS - 1)"

definition sched_init :: "'a sched_scheme \<Rightarrow> 'a sched_scheme" where
  "sched_init s = s\<lparr>sc_queue := mlfq_clear (sc_queue s), sc_current := map (\<lambda>_. None) (sc_current s)\<rparr>"

definition queue_push :: "pid \<Rightarrow> nat \<Rightarrow> 'a sched_scheme \<Rightarrow> 'a sched_scheme outcome" where
  "queue_push p level s = obind (mlfq_push_at p level (sc_queue s)) (\<lambda>q. Val (s\<lparr>sc_queue := q\<rparr>))"

definition queue_pop :: "'a sched_scheme \<Rightarrow> 'a sched_scheme \<times> pid option" where
  "queue_pop s = (case mlfq_pop (sc_queue s) of (q, r) \<Rightarrow> (s\<lparr>sc_queue := q\<rparr>, r))"

definition enqueue_level :: "pid \<Rightarrow> 'a sched_scheme \<Rightarrow> 'a sched_scheme outcome" where
  "enqueue_level p s = (case slot_for_pid p s of Some slot \<Rightarrow> set_level slot 0 s | None \<Rightarrow> Val s)"

definition enqueue :: "pid \<Rightarrow> 'a sched_scheme \<Rightarrow> 'a sched_scheme outcome" where
  "enqueue p s = obind (enqueue_level p s) (queue_push p 0)"

section \<open>Switching\<close>

definition dispatch_claim :: "nat \<Rightarrow> pid \<Rightarrow> 'a sched_scheme \<Rightarrow> ('a sched_scheme \<times> nat option) outcome" where
  "dispatch_claim cpu p s =
    obind (claim_runnable p (of_nat cpu) s) (\<lambda>(s, slot). case slot of
        None \<Rightarrow> Val (s, None)
      | Some next_slot \<Rightarrow> obind (set_slice next_slot 0 s) (\<lambda>s. Val (s, Some next_slot)))"

definition dispatch_enter :: "nat \<Rightarrow> nat \<Rightarrow> 'a sched_scheme \<Rightarrow> 'a sched_scheme" where
  "dispatch_enter cpu next_slot s =
    s\<lparr>sc_current := (sc_current s)[cpu := Some next_slot], sc_idle := (sc_idle s)[cpu := False]\<rparr>"

definition idle :: "nat \<Rightarrow> 'a sched_scheme \<Rightarrow> 'a sched_scheme" where
  "idle cpu s = s\<lparr>sc_current := (sc_current s)[cpu := None], sc_idle := (sc_idle s)[cpu := True]\<rparr>"

definition current_slot :: "nat \<Rightarrow> 'a sched_scheme \<Rightarrow> nat outcome" where
  "current_slot cpu s = (case sc_current s ! cpu of Some slot \<Rightarrow> Val slot | None \<Rightarrow> Panic)"

definition current_slot_opt :: "nat \<Rightarrow> 'a sched_scheme \<Rightarrow> nat option" where
  "current_slot_opt cpu s = sc_current s ! cpu"

definition clear_current_slot_if :: "nat \<Rightarrow> 'a sched_scheme \<Rightarrow> 'a sched_scheme" where
  "clear_current_slot_if slot s =
    s\<lparr>sc_current := map (\<lambda>c. if c = Some slot then None else c) (sc_current s)\<rparr>"

definition detach_current :: "nat \<Rightarrow> nat \<Rightarrow> 'a sched_scheme \<Rightarrow> 'a sched_scheme outcome" where
  "detach_current cpu slot s =
    (if sc_current s ! cpu \<noteq> Some slot then Panic
     else Val (s\<lparr>sc_current := (sc_current s)[cpu := None]\<rparr>))"

text \<open>The part of the yield hand-off between the release of the record and the push.\<close>

definition yield_release :: "nat \<Rightarrow> nat \<Rightarrow> 'a sched_scheme \<Rightarrow> ('a sched_scheme \<times> (pid \<times> nat) option) outcome" where
  "yield_release cpu slot s =
    obind (release_running slot (of_nat cpu) s) (\<lambda>(s, r). case r of
        None \<Rightarrow> Val (s, None)
      | Some p \<Rightarrow> obind (proc_level slot s) (\<lambda>l.
          let level = next_level_after_yield l in
          obind (set_level slot level s) (\<lambda>s. obind (set_slice slot 0 s) (\<lambda>s. Val (s, Some (p, level))))))"

definition yield_handoff :: "nat \<Rightarrow> nat \<Rightarrow> 'a sched_scheme \<Rightarrow> 'a sched_scheme outcome" where
  "yield_handoff cpu slot s =
    obind (detach_current cpu slot s) (\<lambda>s. obind (yield_release cpu slot s) (\<lambda>(s, r).
      case r of None \<Rightarrow> Val s | Some (p, level) \<Rightarrow> queue_push p level s))"

definition block_begin :: "nat \<Rightarrow> 'a sched_scheme \<Rightarrow> ('a sched_scheme \<times> nat) outcome" where
  "block_begin cpu s =
    obind (current_slot cpu s) (\<lambda>slot. obind (begin_block slot (of_nat cpu) s) (\<lambda>(s, marked).
      if marked then Val (s, slot) else Panic))"

text \<open>\<open>Requeue\<close> answers the identifier to enqueue.\<close>

definition block_finish :: "nat \<Rightarrow> nat \<Rightarrow> 'a sched_scheme \<Rightarrow> ('a sched_scheme \<times> pid option) outcome" where
  "block_finish cpu slot s =
    obind (finish_block slot (of_nat cpu) s) (\<lambda>(s, f). case f of
        BfBlocked \<Rightarrow> Val (s, None)
      | BfRequeue p \<Rightarrow> Val (s, Some p)
      | BfInvalid \<Rightarrow> Panic)"

definition block_handoff :: "nat \<Rightarrow> nat \<Rightarrow> 'a sched_scheme \<Rightarrow> 'a sched_scheme outcome" where
  "block_handoff cpu slot s =
    obind (detach_current cpu slot s) (\<lambda>s. obind (block_finish cpu slot s) (\<lambda>(s, r).
      case r of None \<Rightarrow> Val s | Some p \<Rightarrow> enqueue p s))"

definition block_current :: "nat \<Rightarrow> 'a sched_scheme \<Rightarrow> 'a sched_scheme outcome" where
  "block_current cpu s = obind (block_begin cpu s) (\<lambda>(s, slot). block_handoff cpu slot s)"

text \<open>The part of \<open>wake\<close> before the push; it answers the identifier to push at level 0.\<close>

definition wake_transition :: "pid \<Rightarrow> 'a sched_scheme \<Rightarrow> ('a sched_scheme \<times> pid option) outcome" where
  "wake_transition p s =
    obind (request_wake p s) (\<lambda>(s, w). case w of
        Enqueue q slot \<Rightarrow> obind (set_level slot 0 s) (\<lambda>s. Val (s, Some q))
      | Pending \<Rightarrow> Val (s, None)
      | Ignore \<Rightarrow> Val (s, None))"

definition wake :: "pid \<Rightarrow> 'a sched_scheme \<Rightarrow> 'a sched_scheme outcome" where
  "wake p s = obind (wake_transition p s) (\<lambda>(s, r). case r of None \<Rightarrow> Val s | Some q \<Rightarrow> queue_push q 0 s)"

text \<open>The cores that get a reschedule interrupt after a wake: other cores that are on line and idle.\<close>

definition kick_mask :: "bool \<Rightarrow> nat \<Rightarrow> nat \<Rightarrow> 'a sched_scheme \<Rightarrow> u8" where
  "kick_mask multi_core_active online_count self_cpu s =
    (if \<not> multi_core_active then 0
     else fold (\<lambda>cpu mask. if cpu \<noteq> self_cpu \<and> sc_idle s ! cpu then mask OR push_bit cpu 1 else mask)
       [0..<min MAX_CPUS online_count] 0)"

section \<open>The timer tick\<close>

definition write_elapsed :: "u64 \<Rightarrow> sleep_entry \<Rightarrow> 'a sched_scheme \<Rightarrow> 'a sched_scheme" where
  "write_elapsed now e s =
    (case slot_for_pid (sl_pid e) s of None \<Rightarrow> s
     | Some slot \<Rightarrow> s\<lparr>pt_frames := (pt_frames s)[slot :=
         (pt_frames s ! slot)\<lparr>tf_regs := (tf_regs (pt_frames s ! slot))[0 := now - sl_start e]\<rparr>]\<rparr>)"

text \<open>The atomic increment of the clock, and the section under the lock of the sleep queue.\<close>

definition tick_advance :: "'a sched_scheme \<Rightarrow> 'a sched_scheme \<times> u64" where
  "tick_advance s = (s\<lparr>sc_tick := sc_tick s + 1\<rparr>, sc_tick s + 1)"

definition tick_take :: "u64 \<Rightarrow> 'a sched_scheme \<Rightarrow> 'a sched_scheme \<times> sleep_entry list" where
  "tick_take now s =
    (let due = takeWhile (\<lambda>e. sl_wake_at e \<le> now) (sc_sleep s);
         s = s\<lparr>sc_sleep := dropWhile (\<lambda>e. sl_wake_at e \<le> now) (sc_sleep s)\<rparr>
     in (fold (write_elapsed now) due s, due))"

definition tick_sleepers :: "u64 \<Rightarrow> 'a sched_scheme \<Rightarrow> 'a sched_scheme outcome" where
  "tick_sleepers now s = (case tick_take now s of (s, due) \<Rightarrow> ofold (\<lambda>e. wake (sl_pid e)) due s)"

definition tick_boost :: "u64 \<Rightarrow> 'a sched_scheme \<Rightarrow> 'a sched_scheme" where
  "tick_boost now s =
    (if saturating_sub now (sc_last_boost s) \<ge> BOOST_EVERY_TICKS
     then s\<lparr>sc_last_boost := now,
            sc_level := fold (\<lambda>slot ls. if state_slot slot s = Some Runnable then ls[slot := 0] else ls)
              [0..<64] (sc_level s)\<rparr>
     else s)"

definition tick_slice :: "nat \<Rightarrow> nat \<Rightarrow> 'a sched_scheme \<Rightarrow> ('a sched_scheme \<times> bool) outcome" where
  "tick_slice cpu slot s =
    obind (proc_level slot s) (\<lambda>level. obind (array_get (sc_slice s) slot) (\<lambda>old.
      let used = old + 1 in
      if used \<ge> slice_for_level level
      then obind (set_slice slot 0 s) (\<lambda>s.
        obind (set_level slot (next_level_after_slice level) s) (\<lambda>s. Val (s, True)))
      else obind (set_slice slot used s) (\<lambda>s. Val (s, False))))"

text \<open>
  A tick as a core performs it when no other core comes between its sections; in \<open>Sleep_Queue\<close> the sections
  of several cores interleave.
\<close>

definition on_tick_consume :: "nat \<Rightarrow> 'a sched_scheme \<Rightarrow> ('a sched_scheme \<times> bool) outcome" where
  "on_tick_consume cpu s =
    (let (s, now) = tick_advance s in
     obind (tick_sleepers now s) (\<lambda>s.
       let s = tick_boost now s in
       case current_slot_opt cpu s of
         None \<Rightarrow> Val (s\<lparr>sc_streak := (sc_streak s)[cpu := sc_streak s ! cpu + 1]\<rparr>, False)
       | Some slot \<Rightarrow>
           if state_slot slot s \<noteq> Some Running
           then Val (s\<lparr>sc_streak := (sc_streak s)[cpu := sc_streak s ! cpu + 1]\<rparr>, False)
           else tick_slice cpu slot (s\<lparr>sc_streak := (sc_streak s)[cpu := 0]\<rparr>)))"

text \<open>
  Registration of a sleeper; \<open>partition_point\<close> is the length of the longest prefix that satisfies
  the predicate, the queue being sorted. The addition wraps in a release build. The clock and the
  process are read first and the queue is locked later; the caller then blocks.
\<close>

definition sleep_prepare :: "nat \<Rightarrow> 'a sched_scheme \<Rightarrow> (u64 \<times> pid) outcome" where
  "sleep_prepare cpu s =
    (let start = sc_tick s in
     obind (current_slot cpu s) (\<lambda>slot. obind (pid_at_slot slot s) (\<lambda>p. case p of
       None \<Rightarrow> Panic
     | Some p \<Rightarrow> Val (start, p))))"

definition sleep_insert :: "u64 \<Rightarrow> u64 \<Rightarrow> pid \<Rightarrow> 'a sched_scheme \<Rightarrow> 'a sched_scheme outcome" where
  "sleep_insert start ticks p s =
    (if \<not> length (sc_sleep s) < SLEEP_QUEUE_CAP then Panic
     else let q = sc_sleep s;
              pos = length (takeWhile (\<lambda>e. sl_wake_at e \<le> start + ticks) q)
          in Val (s\<lparr>sc_sleep := take pos q @ \<lparr>sl_wake_at = start + ticks, sl_start = start, sl_pid = p\<rparr> # drop pos q\<rparr>))"

definition sleep_register :: "nat \<Rightarrow> u64 \<Rightarrow> 'a sched_scheme \<Rightarrow> 'a sched_scheme outcome" where
  "sleep_register cpu ticks s = obind (sleep_prepare cpu s) (\<lambda>(start, p). sleep_insert start ticks p s)"

definition sleep_current :: "nat \<Rightarrow> u64 \<Rightarrow> 'a sched_scheme \<Rightarrow> 'a sched_scheme outcome" where
  "sleep_current cpu ticks s = obind (sleep_register cpu ticks s) (block_current cpu)"

datatype resched_choice = ReschedYield | ReschedPick

definition handle_resched_sgi :: "nat \<Rightarrow> 'a sched_scheme \<Rightarrow> resched_choice" where
  "handle_resched_sgi cpu s =
    (case current_slot_opt cpu s of
       Some slot \<Rightarrow> if state_slot slot s = Some Running then ReschedYield else ReschedPick
     | None \<Rightarrow> ReschedPick)"

end
