(* ===== verification/Shm_Table.thy ===== *)
theory Shm_Table
  imports Zero_Prelude
begin

text \<open>
  The book-keeping of shared-memory objects in \<open>microkernel/src/shm.rs\<close>: regions with their pages
  and holders, the mappings of each process, and the hook that runs when a process is gone. Calls
  of \<open>phys::free_page\<close> are reported as the list of pages given back, in order.
\<close>

section \<open>State\<close>

record holder =
  h_pid :: u64
  h_refs :: u32

record mapping_entry =
  m_pid :: u64
  m_handle :: u32
  m_va :: nat
  m_len :: nat

record region =
  rg_id :: u32
  rg_owner :: u64
  rg_len :: nat
  rg_pages :: "nat list"
  rg_holders :: "holder list"

record shm_state =
  sh_regions :: "region list"
  sh_mappings :: "mapping_entry list"
  sh_next_id :: u32

section \<open>Reclaiming\<close>

definition reap_empty :: "u32 \<Rightarrow> shm_state \<Rightarrow> shm_state \<times> nat list" where
  "reap_empty handle s =
    (case position (\<lambda>r. rg_id r = handle \<and> rg_holders r = []) (sh_regions s) of
       None \<Rightarrow> (s, [])
     | Some i \<Rightarrow> (s\<lparr>sh_regions := swap_remove i (sh_regions s)\<rparr>, rg_pages (sh_regions s ! i)))"

primrec reap_all :: "u32 list \<Rightarrow> shm_state \<Rightarrow> shm_state \<times> nat list" where
  "reap_all [] s = (s, [])"
| "reap_all (h # hs) s =
    (let (s, freed) = reap_empty h s; (s, rest) = reap_all hs s in (s, freed @ rest))"

definition drop_holder :: "pid \<Rightarrow> region \<Rightarrow> region" where
  "drop_holder p r = r\<lparr>rg_holders := filter (\<lambda>h. h_pid h \<noteq> p) (rg_holders r)\<rparr>"

definition shm_process_gone :: "pid \<Rightarrow> shm_state \<Rightarrow> shm_state \<times> nat list" where
  "shm_process_gone p s =
    (let regions = map (drop_holder p) (sh_regions s);
         s = s\<lparr>sh_mappings := filter (\<lambda>m. m_pid m \<noteq> p) (sh_mappings s), sh_regions := regions\<rparr>
     in reap_all (map rg_id (filter (\<lambda>r. rg_holders r = []) regions)) s)"

end
