(* ===== verification/Process_Exit.thy ===== *)
theory Process_Exit
  imports Scheduler Shm_Table
begin

text \<open>
  Exit, reaping and waiting in \<open>microkernel/src/process.rs\<close>, with the hooks into
  \<open>security.rs\<close> and \<open>shm.rs\<close>, and the futex table. The kernel state extends the scheduler's by the
  futex waiters, the grant book and the shared-memory book; calls of \<open>AddressSpace::destroy\<close> and
  \<open>phys::free_page\<close> are logged in \<open>k_destroyed\<close> and \<open>k_freed\<close>.
\<close>

section \<open>State\<close>

record futex_waiter =
  fw_uaddr :: nat
  fw_pid :: pid

definition FUTEX_TABLE_CAP :: nat where "FUTEX_TABLE_CAP = 128"

record kernel = sched +
  k_futex :: "futex_waiter list"
  k_book :: grant_book
  k_shm :: shm_state
  k_destroyed :: "aspace list"
  k_freed :: "nat list"

definition destroy_space :: "aspace option \<Rightarrow> kernel \<Rightarrow> kernel" where
  "destroy_space sp k = (case sp of None \<Rightarrow> k | Some s \<Rightarrow> k\<lparr>k_destroyed := k_destroyed k @ [s]\<rparr>)"

section \<open>Hooks of the security and shared-memory modules\<close>

definition effective_caps :: "pid \<Rightarrow> u64 \<Rightarrow> kernel \<Rightarrow> u32" where
  "effective_caps p now k = effective p (capabilities_of_pid p k) (session_of_pid p k) now (k_book k)"

definition issue_grant :: "pid \<Rightarrow> u32 \<Rightarrow> u64 \<Rightarrow> u64 \<Rightarrow> kernel \<Rightarrow> kernel \<times> (issue_error + u64)" where
  "issue_grant target caps ttl now k =
    (if slot_for_pid target k = None then (k, Inl NoSuchProcess)
     else case issue target caps ttl (session_of_pid target k) now (k_book k) of
       (b, r) \<Rightarrow> (k\<lparr>k_book := b\<rparr>, r))"

definition revoke_grant :: "u64 \<Rightarrow> kernel \<Rightarrow> kernel \<times> unit option" where
  "revoke_grant token k = (case revoke token (k_book k) of
    (b, found) \<Rightarrow> (k\<lparr>k_book := b\<rparr>, if found then Some () else None))"

definition session_begin :: "pid \<Rightarrow> u64 \<Rightarrow> u64 \<Rightarrow> kernel \<Rightarrow> kernel \<times> (session_error + u64)" where
  "session_begin caller token now k =
    (case begin_session caller token now (k_book k) of
       Inl e \<Rightarrow> (k, Inl e)
     | Inr (b, sid, dead_sid) \<Rightarrow>
        let k = k\<lparr>k_book := b\<rparr>;
            k = (case dead_sid of Some dead \<Rightarrow> fst (clear_session_members dead caller k) | None \<Rightarrow> k)
        in (set_session caller sid k, Inr sid))"

definition security_process_gone :: "pid \<Rightarrow> kernel \<Rightarrow> kernel" where
  "security_process_gone p k =
    (let (b, dead_sid) = gb_process_gone p (k_book k); k = k\<lparr>k_book := b\<rparr>
     in case dead_sid of Some sid \<Rightarrow> fst (clear_session_members sid p k) | None \<Rightarrow> k)"

definition shm_gone :: "pid \<Rightarrow> kernel \<Rightarrow> kernel" where
  "shm_gone p k = (case shm_process_gone p (k_shm k) of
    (s, freed) \<Rightarrow> k\<lparr>k_shm := s, k_freed := k_freed k @ freed\<rparr>)"

section \<open>Futexes\<close>

text \<open>\<open>read1\<close> and \<open>read2\<close> are the two reads of the user word, before and under the table lock.\<close>

definition futex_wait_check ::
  "nat \<Rightarrow> nat \<Rightarrow> u32 \<Rightarrow> u32 \<Rightarrow> u32 \<Rightarrow> kernel \<Rightarrow> (kernel \<times> (sys_error + u32 option)) outcome" where
  "futex_wait_check cpu uaddr expected read1 read2 k =
    (if uaddr mod 4 \<noteq> 0 then Val (k, Inl InvalidArgument)
     else if read1 \<noteq> expected then Val (k, Inr (Some read1))
     else obind (current_slot cpu k) (\<lambda>me. obind (pid_at_slot me k) (\<lambda>p. case p of
       None \<Rightarrow> Val (k, Inl NotFound)
     | Some p \<Rightarrow>
        if read2 \<noteq> expected then Val (k, Inr (Some read2))
        else if length (k_futex k) \<ge> FUTEX_TABLE_CAP then Val (k, Inl NoMemory)
        else Val (k\<lparr>k_futex := k_futex k @ [\<lparr>fw_uaddr = uaddr, fw_pid = p\<rparr>]\<rparr>, Inr None))))"

definition futex_block_current :: "nat \<Rightarrow> kernel \<Rightarrow> kernel outcome" where
  "futex_block_current cpu k =
    obind (current_slot cpu k) (\<lambda>slot.
      block_current cpu (k\<lparr>pt_frames := (pt_frames k)[slot :=
        (pt_frames k ! slot)\<lparr>tf_regs := (tf_regs (pt_frames k ! slot))[0 := 0]\<rparr>]\<rparr>))"

text \<open>The scan takes the first \<open>max\<close> waiters of the address out of the table.\<close>

fun futex_take :: "nat \<Rightarrow> nat \<Rightarrow> futex_waiter list \<Rightarrow> pid list \<times> futex_waiter list" where
  "futex_take uaddr m [] = ([], [])"
| "futex_take uaddr m (w # ws) =
    (if m = 0 then ([], w # ws)
     else if fw_uaddr w = uaddr then let (ps, rest) = futex_take uaddr (m - 1) ws in (fw_pid w # ps, rest)
     else let (ps, rest) = futex_take uaddr m ws in (ps, w # rest))"

definition futex_wake :: "nat \<Rightarrow> nat \<Rightarrow> kernel \<Rightarrow> (kernel \<times> nat) outcome" where
  "futex_wake uaddr m k =
    (case futex_take uaddr m (k_futex k) of (woken, rest) \<Rightarrow>
      obind (ofold wake woken (k\<lparr>k_futex := rest\<rparr>)) (\<lambda>k. Val (k, length woken)))"

definition futex_detach :: "pid \<Rightarrow> kernel \<Rightarrow> kernel" where
  "futex_detach p k = k\<lparr>k_futex := filter (\<lambda>w. fw_pid w \<noteq> p) (k_futex k)\<rparr>"

section \<open>Exit decisions\<close>

datatype exit_fate = BecomeZombie | ReapImmediately

definition exit_disposition :: "pid option \<Rightarrow> bool \<Rightarrow> bool \<Rightarrow> exit_fate" where
  "exit_disposition parent parent_alive adopted =
    (if adopted then ReapImmediately
     else case parent of Some _ \<Rightarrow> if parent_alive then BecomeZombie else ReapImmediately
       | None \<Rightarrow> ReapImmediately)"

record proc_view =
  v_slot :: nat
  v_pid :: pid
  v_parent :: "pid option"
  v_state :: process_state
  v_exit_code :: "u32 option"

definition view_of :: "nat \<Rightarrow> process_record \<Rightarrow> proc_view" where
  "view_of i r = \<lparr>v_slot = i, v_pid = p_pid r, v_parent = p_parent r, v_state = p_state r,
    v_exit_code = p_exit_code r\<rparr>"

datatype wait_decision = WdCollect nat pid u32 | WdBlock | WdNoChild

fun wait_scan_from :: "pid \<Rightarrow> u64 \<Rightarrow> bool \<Rightarrow> proc_view option list \<Rightarrow> wait_decision" where
  "wait_scan_from caller target live [] = (if live then WdBlock else WdNoChild)"
| "wait_scan_from caller target live (None # vs) = wait_scan_from caller target live vs"
| "wait_scan_from caller target live (Some v # vs) =
    (if v_parent v \<noteq> Some caller then wait_scan_from caller target live vs
     else if target \<noteq> 0 \<and> v_pid v \<noteq> target then wait_scan_from caller target live vs
     else if v_state v = Zombie then
       (case v_exit_code v of
          Some code \<Rightarrow> WdCollect (v_slot v) (v_pid v) code
        | None \<Rightarrow> wait_scan_from caller target live vs)
     else wait_scan_from caller target True vs)"

definition wait_scan :: "pid \<Rightarrow> u64 \<Rightarrow> proc_view option list \<Rightarrow> wait_decision" where
  "wait_scan caller target procs = wait_scan_from caller target False procs"

datatype orphan_fate = CascadeReap | AdoptToInit | Unrelated

definition orphan_action :: "pid option \<Rightarrow> process_state \<Rightarrow> pid \<Rightarrow> orphan_fate" where
  "orphan_action parent st dying =
    (case parent of
       Some p \<Rightarrow> if p = dying then (if st = Zombie then CascadeReap else AdoptToInit) else Unrelated
     | None \<Rightarrow> Unrelated)"

section \<open>Thread groups\<close>

definition survives :: "pid \<Rightarrow> pid \<Rightarrow> process_record option \<Rightarrow> bool" where
  "survives tgid dying e =
    (case e of None \<Rightarrow> False
     | Some r \<Rightarrow> p_tgid r = tgid \<and> p_pid r \<noteq> dying \<and> p_state r \<noteq> Dying \<and> p_addr_space r = None)"

definition group_survivor_index :: "pid \<Rightarrow> pid \<Rightarrow> 'a ptable_scheme \<Rightarrow> nat option" where
  "group_survivor_index tgid dying t = position (survives tgid dying) (pt_table t)"

definition transfer_group_space_locked ::
  "pid \<Rightarrow> pid \<Rightarrow> aspace \<Rightarrow> 'a ptable_scheme \<Rightarrow> 'a ptable_scheme \<times> aspace option" where
  "transfer_group_space_locked tgid dying space t =
    (case group_survivor_index tgid dying t of
       Some idx \<Rightarrow> (pt_modify idx (\<lambda>r. r\<lparr>p_addr_space := Some space\<rparr>) t, None)
     | None \<Rightarrow> (t, Some space))"

section \<open>Reaping\<close>

definition orphan_entry :: "pid \<Rightarrow> process_record option \<Rightarrow> process_record option" where
  "orphan_entry dying e =
    (case e of None \<Rightarrow> None
     | Some r \<Rightarrow> (case orphan_action (p_parent r) (p_state r) dying of
         CascadeReap \<Rightarrow> None
       | AdoptToInit \<Rightarrow> Some (r\<lparr>p_parent := Some INIT_PID, p_adopted := True\<rparr>)
       | Unrelated \<Rightarrow> Some r))"

definition cascades :: "pid \<Rightarrow> process_record option \<Rightarrow> bool" where
  "cascades dying e =
    (case e of None \<Rightarrow> False | Some r \<Rightarrow> orphan_action (p_parent r) (p_state r) dying = CascadeReap)"

text \<open>The critical section of one round: the record, and the slots and spaces of its zombie children.\<close>

definition reap_take ::
  "nat \<Rightarrow> kernel \<Rightarrow> (kernel \<times> (process_record \<times> (nat \<times> aspace option) list) option) outcome" where
  "reap_take s k =
    (if \<not> s < length (pt_table k) then Panic
     else case pt_table k ! s of
       None \<Rightarrow> Val (k, None)
     | Some record \<Rightarrow>
        let table = (pt_table k)[s := None];
            casc = map (\<lambda>i. (i, Option.bind (table ! i) p_addr_space))
              (filter (\<lambda>i. cascades (p_pid record) (table ! i)) [0..<length table])
        in Val (k\<lparr>pt_table := map (orphan_entry (p_pid record)) table\<rparr>, Some (record, casc)))"

text \<open>What follows outside the lock: the hooks, and the address space.\<close>

definition reap_finish :: "process_record \<Rightarrow> kernel \<Rightarrow> kernel" where
  "reap_finish record k =
    (let k = shm_gone (p_pid record) (security_process_gone (p_pid record) k)
     in case p_addr_space record of
          None \<Rightarrow> k
        | Some space \<Rightarrow>
           (case transfer_group_space_locked (p_tgid record) (p_pid record) space k of
              (k, rest) \<Rightarrow> destroy_space rest k))"

text \<open>The stack of slots still to visit, its top first.\<close>

definition push_slot :: "nat list \<Rightarrow> nat \<Rightarrow> nat list" where
  "push_slot stack s = (if length stack < MAX_PROCESSES then s # stack else stack)"

definition reap_round :: "nat list \<Rightarrow> kernel \<Rightarrow> (nat list \<times> kernel) outcome" where
  "reap_round stack k = (case stack of [] \<Rightarrow> Val ([], k) | s # rest \<Rightarrow>
    obind (reap_take s k) (\<lambda>(k, g). case g of
        None \<Rightarrow> Val (rest, k)
      | Some (record, casc) \<Rightarrow>
         Val (foldl push_slot rest (map fst casc),
              fold (\<lambda>(_, space). destroy_space space) casc (reap_finish record k))))"

text \<open>
  Each round takes a slot off the stack; a round that finds a record removes it and the zombie
  children it pushes, so the number of records plus the height of the stack goes down.
\<close>

definition live_count :: "'a ptable_scheme \<Rightarrow> nat" where
  "live_count t = length (filter (\<lambda>e. e \<noteq> None) (pt_table t))"

lemma length_push_slots: "length (foldl push_slot st xs) \<le> length st + length xs"
proof (induction xs arbitrary: st)
  case (Cons x xs)
  have "length (push_slot st x) \<le> length st + 1" by (simp add: push_slot_def)
  then show ?case using Cons [of "push_slot st x"] by simp
qed simp

lemma push_slots_set: "set (foldl push_slot st xs) \<subseteq> set st \<union> set xs"
proof (induction xs arbitrary: st)
  case (Cons x xs)
  have "set (push_slot st x) \<subseteq> insert x (set st)" by (auto simp: push_slot_def)
  then show ?case using Cons [of "push_slot st x"] by auto
qed simp

lemma live_count_cong:
  assumes "map (\<lambda>e. e = None) (pt_table t) = map (\<lambda>e. e = None) (pt_table u)"
  shows "live_count t = live_count u"
proof -
  have "live_count w = length (filter Not (map (\<lambda>e. e = None) (pt_table w)))" for w :: "'c ptable_scheme"
    by (simp add: live_count_def filter_map o_def del: not_None_eq)
  moreover have "live_count w = length (filter Not (map (\<lambda>e. e = None) (pt_table w)))" for w :: "'b ptable_scheme"
    by (simp add: live_count_def filter_map o_def del: not_None_eq)
  ultimately show ?thesis using assms by metis
qed

lemma live_count_map:
  "(\<And>e. f e = None \<longleftrightarrow> e = None) \<Longrightarrow> live_count (t\<lparr>pt_table := map f (pt_table t)\<rparr>) = live_count t"
  by (rule live_count_cong) simp

lemma live_count_modify: "live_count (pt_modify i f t) = live_count t"
proof (rule live_count_cong)
  show "map (\<lambda>e. e = None) (pt_table (pt_modify i f t)) = map (\<lambda>e. e = None) (pt_table t)"
    by (cases "i < length (pt_table t)")
      (simp_all add: pt_modify_def pt_set_def pt_get_def map_update list_update_same_conv list_update_beyond)
qed

lemma live_count_clear_session [simp]: "live_count (fst (clear_session_members sid keep t)) = live_count t"
  by (cases "sid = 0") (auto simp: clear_session_members_def intro!: live_count_map split: if_splits)

lemma live_count_extra [simp]:
  "live_count (k_book_update f k) = live_count k" "live_count (k_destroyed_update g k) = live_count k"
  "live_count (shm_gone p k) = live_count k" "live_count (destroy_space sp k) = live_count k"
  by (simp_all add: live_count_def shm_gone_def destroy_space_def split: prod.splits option.splits)

lemma live_count_reap_finish [simp]: "live_count (reap_finish r k) = live_count k"
  by (auto simp: reap_finish_def security_process_gone_def transfer_group_space_locked_def
      live_count_modify Let_def split: option.splits prod.splits)

lemma live_count_fold_destroy [simp]: "live_count (fold (\<lambda>(_, sp). destroy_space sp) casc k) = live_count k"
  by (induction casc arbitrary: k) (auto simp: split_beta)

lemma orphan_entry_None: "orphan_entry d e = None \<longleftrightarrow> e = None \<or> cascades d e"
  by (auto simp: orphan_entry_def cascades_def split: option.splits orphan_fate.splits)

lemma length_filter_nth: "length (filter (\<lambda>i. P (xs ! i)) [0..<length xs]) = length (filter P xs)"
proof -
  have "filter P xs = filter P (map ((!) xs) [0..<length xs])" by (simp add: map_nth)
  then show ?thesis by (simp add: filter_map o_def)
qed

lemma live_count_take:
  assumes "reap_take s k = Val (k', Some (r, casc))"
  shows "live_count k' + length casc + 1 = live_count k"
proof -
  have s: "s < length (pt_table k)" "pt_table k ! s = Some r"
    and k': "k' = k\<lparr>pt_table := map (orphan_entry (p_pid r)) ((pt_table k)[s := None])\<rparr>"
    and casc: "length casc = length (filter (\<lambda>i. cascades (p_pid r) ((pt_table k)[s := None] ! i)) [0..<length (pt_table k)])"
    using assms by (auto simp: reap_take_def Let_def split: if_splits option.splits)
  let ?t = "(pt_table k)[s := None]" and ?d = "p_pid r"
  have n: "length casc = length (filter (cascades ?d) ?t)"
    unfolding casc using length_filter_nth [of "cascades ?d" ?t] by simp
  have "length (filter (\<lambda>e. e \<noteq> None) (map (orphan_entry ?d) xs)) + length (filter (cascades ?d) xs)
      = length (filter (\<lambda>e. e \<noteq> None) xs)" for xs
  proof (induction xs)
    case (Cons e xs)
    have "cascades ?d e \<Longrightarrow> e \<noteq> None" by (cases e) (auto simp: cascades_def)
    moreover have "\<not> cascades ?d None" by (simp add: cascades_def)
    ultimately show ?case
      using Cons by (cases "cascades ?d e") (auto simp: orphan_entry_None simp del: not_None_eq)
  qed simp
  then have 1: "live_count k' + length casc = length (filter (\<lambda>e. e \<noteq> None) ?t)"
    unfolding n by (simp add: live_count_def k')
  define us x vs where "us = take s (pt_table k)" and "x = pt_table k ! s" and "vs = drop (Suc s) (pt_table k)"
  have t: "pt_table k = us @ x # vs" "length us = s" "x = Some r"
    using s id_take_nth_drop [OF s(1)] by (simp_all add: us_def x_def vs_def)
  then have "?t = us @ None # vs" by (metis list_update_length)
  then have "length (filter (\<lambda>e. e \<noteq> None) ?t) + 1 = live_count k"
    using t by (simp add: live_count_def)
  then show ?thesis using 1 by simp
qed

lemma reap_round_measure:
  assumes "reap_round stack k = Val (stack', k')" and "stack \<noteq> []"
  shows "length stack' + live_count k' < length stack + live_count k"
proof -
  obtain s rest where st: "stack = s # rest" using assms(2) by (cases stack) auto
  obtain k1 g where take: "reap_take s k = Val (k1, g)"
    using assms(1) st by (cases "reap_take s k") (auto simp: reap_round_def)
  show ?thesis
  proof (cases g)
    case None
    then have "k1 = k" using take by (auto simp: reap_take_def Let_def split: if_splits option.splits)
    then show ?thesis using assms(1) st take None by (simp add: reap_round_def)
  next
    case (Some rc)
    obtain r casc where rc: "rc = (r, casc)" by fastforce
    have "live_count k1 + length casc + 1 = live_count k"
      using live_count_take take Some rc by blast
    moreover have "stack' = foldl push_slot rest (map fst casc)" "live_count k' = live_count k1"
      using assms(1) st take Some rc by (auto simp: reap_round_def)
    ultimately show ?thesis using length_push_slots [of rest "map fst casc"] st by simp
  qed
qed

function full_reap_loop :: "nat list \<Rightarrow> kernel \<Rightarrow> kernel outcome" where
  "full_reap_loop stack k =
    (if stack = [] then Val k
     else case reap_round stack k of Panic \<Rightarrow> Panic | Val (stack', k') \<Rightarrow> full_reap_loop stack' k')"
  by auto
termination
  by (relation "measure (\<lambda>(stack, k). length stack + live_count k)") (auto dest: reap_round_measure)

declare full_reap_loop.simps [simp del]

definition full_reap :: "nat \<Rightarrow> kernel \<Rightarrow> kernel outcome" where
  "full_reap seed k = obind (full_reap_loop [seed] k) (\<lambda>k. Val (clear_current_slot_if seed k))"

definition remove_slot :: "nat \<Rightarrow> kernel \<Rightarrow> kernel outcome" where
  "remove_slot slot k = (if \<not> slot < MAX_PROCESSES then Panic else full_reap slot k)"

section \<open>Exit\<close>

datatype exit_decision = EpGone | EpZombie "(nat \<times> pid) option" u64 "aspace option" | EpReapNow

text \<open>The critical section of an exiting process: its fate, and the parent to be told.\<close>

definition parent_entry :: "pid option \<Rightarrow> 'a ptable_scheme \<Rightarrow> (nat \<times> process_record) option" where
  "parent_entry parent t = Option.bind parent (\<lambda>pp. Option.bind (pt_find pp t) (\<lambda>i.
    map_option (\<lambda>r. (i, r)) (pt_get t i)))"

definition exit_zombie :: "nat \<Rightarrow> u32 \<Rightarrow> process_record \<Rightarrow> kernel \<Rightarrow> kernel \<times> exit_decision" where
  "exit_zombie slot status me k =
    (let pv = parent_entry (p_parent me) k;
         k = pt_modify slot (\<lambda>r. r\<lparr>p_exit_code := Some status, p_state := Zombie, p_addr_space := None\<rparr>) k;
         (k, space) = (case p_addr_space me of
             None \<Rightarrow> (k, None)
           | Some sp \<Rightarrow> transfer_group_space_locked (p_tgid me) (p_pid me) sp k);
         (k, wake_parent) = (case pv of
             None \<Rightarrow> (k, None)
           | Some (ps, pr) \<Rightarrow>
              (case pt_get k ps of
                 Some r \<Rightarrow> if wait_wake_decision (p_wait_target r) (p_pid me)
                   then (pt_modify ps (\<lambda>r. r\<lparr>p_wait_target := None\<rparr>) k, Some (ps, p_pid pr))
                   else (k, None)
               | None \<Rightarrow> (k, None)))
     in (k, EpZombie wake_parent (pack_wait_result (p_pid me) status) space))"

text \<open>
  On the other branch the record is taken out for the search for a survivor, its space is taken
  out of it, and the record goes back without a space whether or not a survivor was found.
\<close>

definition exit_reap :: "nat \<Rightarrow> u32 \<Rightarrow> process_record \<Rightarrow> kernel \<Rightarrow> kernel \<times> exit_decision" where
  "exit_reap slot status me k =
    (let k = pt_set slot None k;
         k = (case p_addr_space me of
             None \<Rightarrow> k
           | Some sp \<Rightarrow> fst (transfer_group_space_locked (p_tgid me) (p_pid me) sp k))
     in (pt_set slot (Some (me\<lparr>p_exit_code := Some status, p_addr_space := None\<rparr>)) k, EpReapNow))"

definition exit_plan :: "nat \<Rightarrow> u32 \<Rightarrow> kernel \<Rightarrow> (kernel \<times> exit_decision) outcome" where
  "exit_plan slot status k =
    (if \<not> slot < length (pt_table k) then Panic
     else case pt_table k ! slot of
       None \<Rightarrow> Val (k, EpGone)
     | Some me \<Rightarrow>
        let k = futex_detach (p_pid me) k;
            parent_alive = (case parent_entry (p_parent me) k of
                Some (_, r) \<Rightarrow> p_state r \<noteq> Zombie | None \<Rightarrow> False)
        in Val (case exit_disposition (p_parent me) parent_alive (p_adopted me) of
             BecomeZombie \<Rightarrow> exit_zombie slot status me k
           | ReapImmediately \<Rightarrow> exit_reap slot status me k))"

definition deliver_exit :: "nat \<Rightarrow> nat \<Rightarrow> u64 \<Rightarrow> kernel \<Rightarrow> kernel" where
  "deliver_exit slot parent_slot packed k =
    pt_set slot None (k\<lparr>pt_frames := (pt_frames k)[parent_slot := (pt_frames k ! parent_slot)
      \<lparr>tf_regs := (tf_regs (pt_frames k ! parent_slot))[0 := trap_encode_result (Inr packed)]\<rparr>]\<rparr>)"

definition exit_on_scheduler_stack :: "nat \<Rightarrow> u32 \<Rightarrow> kernel \<Rightarrow> kernel outcome" where
  "exit_on_scheduler_stack slot status k =
    obind (exit_plan slot status k) (\<lambda>(k, plan). case plan of
        EpGone \<Rightarrow> Val k
      | EpReapNow \<Rightarrow> full_reap slot k
      | EpZombie wake_parent packed space \<Rightarrow>
          let k = destroy_space space k in
          (case wake_parent of
             None \<Rightarrow> Val k
           | Some (parent_slot, parent_pid) \<Rightarrow> wake parent_pid (deliver_exit slot parent_slot packed k)))"

definition exit_handoff :: "nat \<Rightarrow> nat \<Rightarrow> u32 \<Rightarrow> kernel \<Rightarrow> kernel outcome" where
  "exit_handoff cpu slot status k =
    obind (detach_current cpu slot k) (\<lambda>k. obind (release_owner_for_exit slot (of_nat cpu) k) (\<lambda>k.
      exit_on_scheduler_stack slot status k))"

definition exit_current_with_status :: "nat \<Rightarrow> u32 \<Rightarrow> kernel \<Rightarrow> kernel outcome" where
  "exit_current_with_status cpu status k = obind (current_slot cpu k) (\<lambda>slot. exit_handoff cpu slot status k)"

text \<open>The exit that leaves no zombie.\<close>

definition exit_current :: "nat \<Rightarrow> kernel \<Rightarrow> kernel outcome" where
  "exit_current cpu k =
    obind (current_slot cpu k) (\<lambda>slot. obind (detach_current cpu slot k) (\<lambda>k.
      obind (release_owner_for_exit slot (of_nat cpu) k) (remove_slot slot)))"

section \<open>Waiting\<close>

datatype wait_action = WaCollect nat u64 | WaSleep | WaPollMiss | WaNoChild

definition wait_plan :: "pid \<Rightarrow> u64 \<Rightarrow> u64 \<Rightarrow> proc_view option list \<Rightarrow> wait_action" where
  "wait_plan caller target flags procs =
    (case wait_scan caller target procs of
       WdCollect slot p code \<Rightarrow> WaCollect slot (pack_wait_result p code)
     | WdBlock \<Rightarrow> if flags AND WAIT_NOHANG \<noteq> 0 then WaPollMiss else WaSleep
     | WdNoChild \<Rightarrow> WaNoChild)"

datatype wait_step = WsCompleted u64 | WsBlocked | WsWouldBlock

definition table_views :: "'a ptable_scheme \<Rightarrow> proc_view option list" where
  "table_views t = map (\<lambda>i. map_option (view_of i) (pt_get t i)) [0..<MAX_PROCESSES]"

definition waitpid_step :: "nat \<Rightarrow> u64 \<Rightarrow> u64 \<Rightarrow> kernel \<Rightarrow> (kernel \<times> (sys_error + wait_step)) outcome" where
  "waitpid_step cpu target_pid flags k =
    obind (current_slot cpu k) (\<lambda>caller_slot.
      if \<not> caller_slot < length (pt_table k) then Panic
      else case pt_table k ! caller_slot of
        None \<Rightarrow> Val (k, Inl PermissionDenied)
      | Some me \<Rightarrow>
        (case wait_plan (p_pid me) target_pid flags (table_views k) of
           WaCollect slot packed \<Rightarrow>
             (if \<not> slot < length (pt_table k) then Panic
              else case pt_table k ! slot of
                None \<Rightarrow> Val (k, Inl NotFound)
              | Some record \<Rightarrow>
                 let k = destroy_space (p_addr_space record) (pt_set slot None k);
                     dead_pid = drop_bit 32 packed
                 in Val (shm_gone dead_pid (security_process_gone dead_pid k), Inr (WsCompleted packed)))
         | WaSleep \<Rightarrow>
             Val (pt_modify caller_slot (\<lambda>r. r\<lparr>p_wait_target :=
               Some (if target_pid = 0 then WaitAny else WaitPid target_pid)\<rparr>) k, Inr WsBlocked)
         | WaPollMiss \<Rightarrow> Val (k, Inr WsWouldBlock)
         | WaNoChild \<Rightarrow> Val (k, Inl NotFound)))"

end
