(* ===== verification/Smp_Model.thy ===== *)
theory Smp_Model
  imports Process_Exit
begin

text \<open>
  The cores of the machine, interleaved. Every core has a program counter that says how far it is
  in \<open>dispatch\<close>, in a yield, block or exit hand-off, in \<open>full_reap\<close>, or in a push to the run
  queue; one event of one core is what the code does while it holds a lock once, except that a
  creation (\<open>spawn\<close>, \<open>fork\<close>, \<open>create_thread\<close>) and a round of \<open>full_reap\<close>, which take the table lock more
  than once, are one event each. A core that
  executes a process (\<open>Exec\<close>) may at any time yield, block, exit, wait for a child, wake another
  process or create one; an idle core may be interrupted to wake or create one. The rounds of
  \<open>full_reap\<close> are separate events. The timer tick, the registration of sleepers, which are in
  \<open>Sleep_Queue\<close>, and the direct \<open>exit_current\<close> are not events here.
\<close>

section \<open>Program counters\<close>

datatype cpu_pc =
    Pick
  | Claim pid
  | Enter nat
  | Exec nat
  | WaitBlock nat
  | YieldDetach nat
  | YieldRelease nat
  | BlockDetach nat
  | BlockFinish nat
  | ExitDetach nat u32
  | ExitRelease nat u32
  | ExitPlan nat u32
  | Deliver nat nat pid u64
  | WakeParent pid
  | ReapSeed nat
  | Reap "nat list" nat
  | PushThen pid nat cpu_pc

record smp =
  sm_k :: kernel
  sm_pc :: "cpu_pc list"

datatype event =
    EvStep
  | EvYield
  | EvBlock
  | EvWait u64 u64
  | EvExit u32
  | EvWake pid
  | EvSpawn kernel_image u64 u64 string
  | EvFork kernel_image "aspace \<Rightarrow> map_error + aspace"
  | EvThread kernel_image nat nat nat nat

definition goto :: "nat \<Rightarrow> cpu_pc \<Rightarrow> kernel \<Rightarrow> smp \<Rightarrow> smp" where
  "goto c pc k s = s\<lparr>sm_k := k, sm_pc := (sm_pc s)[c := pc]\<rparr>"

section \<open>Hand-offs\<close>

definition smp_step :: "nat \<Rightarrow> smp \<Rightarrow> smp outcome option" where
  "smp_step c s =
    (let k = sm_k s in
     case sm_pc s ! c of
       Pick \<Rightarrow> Some (case queue_pop k of
           (k, None) \<Rightarrow> Val (goto c Pick (idle c k) s)
         | (k, Some p) \<Rightarrow> Val (goto c (Claim p) k s))
     | Claim p \<Rightarrow> Some (obind (dispatch_claim c p k) (\<lambda>(k, r). Val (case r of
           None \<Rightarrow> goto c Pick k s
         | Some i \<Rightarrow> goto c (Enter i) k s)))
     | Enter i \<Rightarrow> Some (Val (goto c (Exec i) (dispatch_enter c i k) s))
     | Exec i \<Rightarrow> None
     | WaitBlock i \<Rightarrow> Some (obind (block_begin c k) (\<lambda>(k, slot). Val (goto c (BlockDetach slot) k s)))
     | YieldDetach i \<Rightarrow> Some (obind (detach_current c i k) (\<lambda>k. Val (goto c (YieldRelease i) k s)))
     | YieldRelease i \<Rightarrow> Some (obind (yield_release c i k) (\<lambda>(k, r). Val (case r of
           None \<Rightarrow> goto c Pick k s
         | Some (p, l) \<Rightarrow> goto c (PushThen p l Pick) k s)))
     | BlockDetach i \<Rightarrow> Some (obind (detach_current c i k) (\<lambda>k. Val (goto c (BlockFinish i) k s)))
     | BlockFinish i \<Rightarrow> Some (obind (block_finish c i k) (\<lambda>(k, r). case r of
           None \<Rightarrow> Val (goto c Pick k s)
         | Some p \<Rightarrow> obind (enqueue_level p k) (\<lambda>k. Val (goto c (PushThen p 0 Pick) k s))))
     | ExitDetach i st \<Rightarrow> Some (obind (detach_current c i k) (\<lambda>k. Val (goto c (ExitRelease i st) k s)))
     | ExitRelease i st \<Rightarrow> Some (obind (release_owner_for_exit i (of_nat c) k)
         (\<lambda>k. Val (goto c (ExitPlan i st) k s)))
     | ExitPlan i st \<Rightarrow> Some (obind (exit_plan i st k) (\<lambda>(k, plan). Val (case plan of
           EpGone \<Rightarrow> goto c Pick k s
         | EpReapNow \<Rightarrow> goto c (ReapSeed i) k s
         | EpZombie None packed space \<Rightarrow> goto c Pick (destroy_space space k) s
         | EpZombie (Some (ps, pp)) packed space \<Rightarrow> goto c (Deliver i ps pp packed) (destroy_space space k) s)))
     | Deliver i ps pp packed \<Rightarrow> Some (Val (goto c (WakeParent pp) (deliver_exit i ps packed k) s))
     | WakeParent pp \<Rightarrow> Some (obind (wake_transition pp k) (\<lambda>(k, r). Val (case r of
           None \<Rightarrow> goto c Pick k s
         | Some q \<Rightarrow> goto c (PushThen q 0 Pick) k s)))
     | ReapSeed i \<Rightarrow> Some (obind (reap_round [i] k) (\<lambda>(stack, k). Val (goto c (Reap stack i) k s)))
     | Reap stack seed \<Rightarrow> Some (if stack = [] then Val (goto c Pick (clear_current_slot_if seed k) s)
         else obind (reap_round stack k) (\<lambda>(stack, k). Val (goto c (Reap stack seed) k s)))
     | PushThen p l pc \<Rightarrow> Some (obind (queue_push p l k) (\<lambda>k. Val (goto c pc k s))))"

section \<open>Events of a process or an interrupt\<close>

text \<open>
  A process that is going to block first registers, with a channel, a futex, the clock or (by
  \<open>waitpid_step\<close>) for a child, and then has no other way to go than into \<open>block_current\<close>. A wake
  comes from such a registration: it names a process that is blocked or between registration and
  the end of the hand-off. A process that waits for a child is registered nowhere else and is woken
  by that child's exit alone. This is the discipline that the comments of \<open>request_wake\<close> rely on.
\<close>

fun in_window :: "cpu_pc \<Rightarrow> nat option" where
  "in_window (WaitBlock i) = Some i"
| "in_window (BlockDetach i) = Some i"
| "in_window (BlockFinish i) = Some i"
| "in_window _ = None"

definition delivering :: "pid \<Rightarrow> cpu_pc \<Rightarrow> bool" where
  "delivering p pc = (case pc of Deliver i ps pp packed \<Rightarrow> pp = p | WakeParent pp \<Rightarrow> pp = p | _ \<Rightarrow> False)"

definition wake_allowed :: "pid \<Rightarrow> smp \<Rightarrow> bool" where
  "wake_allowed p s \<longleftrightarrow> (case pt_find_record p (sm_k s) of None \<Rightarrow> True
      | Some r \<Rightarrow> p_wait_target r = None \<and>
          (p_state r = Running \<longrightarrow> (\<exists>pc \<in> set (sm_pc s). in_window pc = Some (p_slot r)))) \<and>
     (\<forall>pc \<in> set (sm_pc s). \<not> delivering p pc)"

text \<open>
  A core that has emptied slots of the table and will come back to them: to visit the slots on its
  stack, and to clear current slots that name its seed. In a \<open>serial\<close> run no process is created
  in the meantime.
\<close>

definition pending_reap :: "cpu_pc \<Rightarrow> bool" where
  "pending_reap pc = (case pc of Reap stack seed \<Rightarrow> True | _ \<Rightarrow> False)"

definition create_allowed :: "bool \<Rightarrow> smp \<Rightarrow> bool" where
  "create_allowed serial s \<longleftrightarrow> pid_room (sm_k s) \<and> (serial \<longrightarrow> (\<forall>pc \<in> set (sm_pc s). \<not> pending_reap pc))"

definition start_new :: "nat \<Rightarrow> (kernel \<times> (process_error + pid)) outcome \<Rightarrow> cpu_pc \<Rightarrow> smp \<Rightarrow> smp outcome" where
  "start_new c made pc s =
    obind made (\<lambda>(k, r). case r of
        Inl e \<Rightarrow> Val (goto c pc k s)
      | Inr p \<Rightarrow> obind (enqueue_level p k) (\<lambda>k. Val (goto c (PushThen p 0 pc) k s)))"

definition may_serve :: "cpu_pc \<Rightarrow> bool" where
  "may_serve pc = (case pc of Pick \<Rightarrow> True | Exec i \<Rightarrow> True | _ \<Rightarrow> False)"

definition smp_act :: "bool \<Rightarrow> nat \<Rightarrow> event \<Rightarrow> smp \<Rightarrow> smp outcome option" where
  "smp_act serial c ev s =
    (let k = sm_k s; pc = sm_pc s ! c in
     case ev of
       EvStep \<Rightarrow> smp_step c s
     | EvWake p \<Rightarrow> if may_serve pc \<and> wake_allowed p s
         then Some (obind (wake_transition p k) (\<lambda>(k, r). Val (case r of
             None \<Rightarrow> goto c pc k s | Some q \<Rightarrow> goto c (PushThen q 0 pc) k s)))
         else None
     | EvSpawn ki draw entry name \<Rightarrow> if may_serve pc \<and> create_allowed serial s
         then Some (start_new c (spawn ki draw entry name k) pc s) else None
     | _ \<Rightarrow> (case pc of Exec i \<Rightarrow>
         (case ev of
            EvYield \<Rightarrow> Some (obind (current_slot c k) (\<lambda>slot. Val (goto c (YieldDetach slot) k s)))
          | EvBlock \<Rightarrow> Some (Val (goto c (WaitBlock i) k s))
          | EvExit st \<Rightarrow> Some (obind (current_slot c k) (\<lambda>slot. Val (goto c (ExitDetach slot st) k s)))
          | EvWait target flags \<Rightarrow> Some (obind (waitpid_step c target flags k) (\<lambda>(k, r). Val (case r of
                Inr WsBlocked \<Rightarrow> goto c (WaitBlock i) k s | _ \<Rightarrow> goto c pc k s)))
          | EvFork ki clone \<Rightarrow> if create_allowed serial s
              then Some (start_new c (obind (fork ki clone i (pt_frames k ! i) k)
                (\<lambda>(k, r). Val (k, map_sum id fst r))) pc s) else None
          | EvThread ki entry stack_top tls arg \<Rightarrow> if create_allowed serial s
              then Some (start_new c (create_thread ki i entry stack_top tls arg k) pc s) else None
          | _ \<Rightarrow> None)
        | _ \<Rightarrow> None))"

text \<open>Boot: an empty table, every core about to pick.\<close>

definition kernel_boot :: "grant_book \<Rightarrow> kernel" where
  "kernel_boot book =
    \<lparr>pt_table = [], pt_owner = replicate MAX_PROCESSES PROCESS_OWNER_NONE,
     pt_frames = replicate MAX_PROCESSES frame_new, pt_next_pid = PID_SEQ_FIRST,
     sc_queue = mlfq_new, sc_current = replicate MAX_CPUS None, sc_idle = replicate MAX_CPUS False,
     sc_level = replicate MAX_PROCESSES 0, sc_slice = replicate MAX_PROCESSES 0, sc_tick = 0,
     sc_last_boost = 0, sc_streak = replicate MAX_CPUS 0, sc_sleep = [],
     k_futex = [], k_book = book, k_shm = \<lparr>sh_regions = [], sh_mappings = [], sh_next_id = 1\<rparr>,
     k_destroyed = [], k_freed = []\<rparr>"

definition smp_boot :: smp where
  "smp_boot = \<lparr>sm_k = kernel_boot gb_new, sm_pc = replicate MAX_CPUS Pick\<rparr>"

inductive smp_reach :: "bool \<Rightarrow> smp \<Rightarrow> bool" for serial where
  boot: "smp_reach serial smp_boot"
| act: "smp_reach serial s \<Longrightarrow> c < MAX_CPUS \<Longrightarrow> smp_act serial c ev s = Some (Val s') \<Longrightarrow> smp_reach serial s'"

inductive_cases smp_reachE: "smp_reach serial s"

end
