(* ===== verification/Smp_Invariant.thy ===== *)
theory Smp_Invariant
  imports Smp_Model
begin

text \<open>
  The invariant of the interleaved cores, which ties records, owners, current slots, program counters
  and the run queue together, over an abstract view of the state: what one step of one core has to
  respect, and the two kinds of steps that are most of the hand-offs.
\<close>

section \<open>What a program counter holds\<close>

text \<open>The slot whose owner is the core, the slot that is being taken down, the published current slot,
  and the identifiers that are on their way between the run queue and the table.\<close>

fun held :: "cpu_pc \<Rightarrow> nat option" where
  "held (Enter i) = Some i"
| "held (Exec i) = Some i"
| "held (WaitBlock i) = Some i"
| "held (YieldDetach i) = Some i"
| "held (YieldRelease i) = Some i"
| "held (BlockDetach i) = Some i"
| "held (BlockFinish i) = Some i"
| "held (ExitDetach i st) = Some i"
| "held (ExitRelease i st) = Some i"
| "held (PushThen p l pc) = held pc"
| "held _ = None"

fun exiting :: "cpu_pc \<Rightarrow> nat option" where
  "exiting (ExitPlan i st) = Some i"
| "exiting (ReapSeed i) = Some i"
| "exiting _ = None"

fun shown :: "cpu_pc \<Rightarrow> nat option" where
  "shown (Exec i) = Some i"
| "shown (WaitBlock i) = Some i"
| "shown (YieldDetach i) = Some i"
| "shown (BlockDetach i) = Some i"
| "shown (ExitDetach i st) = Some i"
| "shown (PushThen p l pc) = shown pc"
| "shown _ = None"

fun flying :: "cpu_pc \<Rightarrow> pid list" where
  "flying (Claim p) = [p]"
| "flying (PushThen p l pc) = [p]"
| "flying _ = []"

fun blocking :: "cpu_pc \<Rightarrow> nat option" where
  "blocking (BlockDetach i) = Some i"
| "blocking (BlockFinish i) = Some i"
| "blocking _ = None"

text \<open>A core pushes on the way to picking or while it serves a request, never in between.\<close>

fun pc_ok :: "cpu_pc \<Rightarrow> bool" where
  "pc_ok (PushThen p l pc) = may_serve pc"
| "pc_ok _ = True"

section \<open>The invariant\<close>

text \<open>The fields of a record that scheduling depends on.\<close>

record pcore =
  c_pid :: pid
  c_state :: process_state
  c_intent :: bool
  c_pending :: bool
  c_wait :: "wait_spec option"
  c_parent :: "pid option"
  c_code :: "u32 option"

definition core :: "process_record \<Rightarrow> pcore" where
  "core r = \<lparr>c_pid = p_pid r, c_state = p_state r, c_intent = p_block_intent r, c_pending = p_wake_pending r,
    c_wait = p_wait_target r, c_parent = p_parent r, c_code = p_exit_code r\<rparr>"

type_synonym recs = "nat \<Rightarrow> pcore option"
type_synonym owns = "nat \<Rightarrow> nat option"
type_synonym pcs = "nat \<Rightarrow> cpu_pc"

definition running :: "pcore option \<Rightarrow> bool" where
  "running e \<longleftrightarrow> (\<exists>r. e = Some r \<and> c_state r = Running)"

definition runnable_pid :: "recs \<Rightarrow> pid \<Rightarrow> bool" where
  "runnable_pid rec p \<longleftrightarrow> (\<exists>i r. rec i = Some r \<and> c_pid r = p \<and> c_state r = Runnable)"

definition parked :: "recs \<Rightarrow> pcs \<Rightarrow> nat \<Rightarrow> bool" where
  "parked rec pc i \<longleftrightarrow> (\<exists>r. rec i = Some r \<and> c_state r = Blocked) \<or> (\<exists>c. in_window (pc c) = Some i)"

definition inv_pids :: "recs \<Rightarrow> bool" where
  "inv_pids rec \<longleftrightarrow> (\<forall>i j r s. rec i = Some r \<longrightarrow> rec j = Some s \<longrightarrow> c_pid r = c_pid s \<longrightarrow> i = j)"

definition inv_held :: "recs \<Rightarrow> owns \<Rightarrow> pcs \<Rightarrow> bool" where
  "inv_held rec own pc \<longleftrightarrow> (\<forall>c i. held (pc c) = Some i \<longrightarrow> own i = Some c \<and> running (rec i))"

definition inv_own :: "owns \<Rightarrow> pcs \<Rightarrow> bool" where
  "inv_own own pc \<longleftrightarrow> (\<forall>c i. own i = Some c \<longrightarrow> held (pc c) = Some i)"

definition inv_exit :: "recs \<Rightarrow> owns \<Rightarrow> pcs \<Rightarrow> bool" where
  "inv_exit rec own pc \<longleftrightarrow> (\<forall>c i. exiting (pc c) = Some i \<longrightarrow> own i = None \<and> running (rec i)) \<and>
     (\<forall>c d i. exiting (pc c) = Some i \<longrightarrow> exiting (pc d) = Some i \<longrightarrow> c = d)"

definition inv_run :: "recs \<Rightarrow> owns \<Rightarrow> pcs \<Rightarrow> bool" where
  "inv_run rec own pc \<longleftrightarrow> (\<forall>i. running (rec i) \<longrightarrow> own i \<noteq> None \<or> (\<exists>c. exiting (pc c) = Some i))"

definition inv_cur :: "(nat \<Rightarrow> nat option) \<Rightarrow> pcs \<Rightarrow> bool" where
  "inv_cur cur pc \<longleftrightarrow> (\<forall>c. cur c = shown (pc c))"

definition inv_intent :: "recs \<Rightarrow> pcs \<Rightarrow> bool" where
  "inv_intent rec pc \<longleftrightarrow> (\<forall>c i r. blocking (pc c) = Some i \<longrightarrow> rec i = Some r \<longrightarrow> c_intent r)"

definition in_flight :: "pcs \<Rightarrow> pid multiset" where
  "in_flight pc = (\<Sum>c<MAX_CPUS. mset (flying (pc c)))"

definition inv_queue :: "recs \<Rightarrow> pcs \<Rightarrow> pid multiset \<Rightarrow> bool" where
  "inv_queue rec pc q \<longleftrightarrow> (\<forall>p. count (q + in_flight pc) p = (if runnable_pid rec p then 1 else 0))"

definition inv_latch :: "recs \<Rightarrow> pcs \<Rightarrow> bool" where
  "inv_latch rec pc \<longleftrightarrow> (\<forall>i r. rec i = Some r \<longrightarrow> c_pending r \<longrightarrow>
     c_state r = Running \<and> c_wait r = None \<and> (\<exists>c. in_window (pc c) = Some i))"

definition inv_reap :: "recs \<Rightarrow> pcs \<Rightarrow> bool" where
  "inv_reap rec pc \<longleftrightarrow> (\<forall>c st seed i. pc c = Reap st seed \<longrightarrow> i = seed \<or> i \<in> set st \<longrightarrow> rec i = None)"

text \<open>Who has registered for a child is parked, nobody is about to tell it, and no zombie child of the
  registered kind is left uncollected.\<close>

definition inv_wait :: "recs \<Rightarrow> pcs \<Rightarrow> bool" where
  "inv_wait rec pc \<longleftrightarrow> (\<forall>i r spec. rec i = Some r \<longrightarrow> c_wait r = Some spec \<longrightarrow>
     parked rec pc i \<and> (\<forall>c. \<not> delivering (c_pid r) (pc c)) \<and>
     (\<forall>j z. rec j = Some z \<longrightarrow> c_parent z = Some (c_pid r) \<longrightarrow> c_state z = Zombie \<longrightarrow>
        c_code z \<noteq> None \<longrightarrow> \<not> ws_matches spec (c_pid z)))"

definition inv_deliver :: "recs \<Rightarrow> pcs \<Rightarrow> bool" where
  "inv_deliver rec pc \<longleftrightarrow>
     (\<forall>c i ps pp w. pc c = Deliver i ps pp w \<longrightarrow>
        (\<exists>z r. rec i = Some z \<and> c_state z = Zombie \<and> c_parent z = Some pp \<and> rec ps = Some r \<and> c_pid r = pp)) \<and>
     (\<forall>c p. delivering p (pc c) \<longrightarrow>
        (\<exists>i r. rec i = Some r \<and> c_pid r = p \<and> \<not> c_pending r \<and> parked rec pc i)) \<and>
     (\<forall>c d p. delivering p (pc c) \<longrightarrow> delivering p (pc d) \<longrightarrow> c = d)"

definition inv_pc :: "pcs \<Rightarrow> bool" where
  "inv_pc pc \<longleftrightarrow> (\<forall>c. pc_ok (pc c) \<and> (MAX_CPUS \<le> c \<longrightarrow> pc c = Pick))"

definition ainv :: "recs \<Rightarrow> owns \<Rightarrow> (nat \<Rightarrow> nat option) \<Rightarrow> pcs \<Rightarrow> pid multiset \<Rightarrow> bool" where
  "ainv rec own cur pc q \<longleftrightarrow> inv_pids rec \<and> inv_held rec own pc \<and> inv_own own pc \<and> inv_exit rec own pc \<and>
     inv_run rec own pc \<and> inv_cur cur pc \<and> inv_intent rec pc \<and> inv_queue rec pc q \<and> inv_latch rec pc \<and>
     inv_reap rec pc \<and> inv_wait rec pc \<and> inv_deliver rec pc \<and> inv_pc pc"

lemma ex_upd: "(\<exists>d. P d ((f(c := x)) d)) \<longleftrightarrow> P c x \<or> (\<exists>d. d \<noteq> c \<and> P d (f d))"
  by (metis fun_upd_apply)

lemma in_flight_upd:
  assumes "c < MAX_CPUS"
  shows "in_flight (pc(c := x)) + mset (flying (pc c)) = in_flight pc + mset (flying x)"
proof -
  have "in_flight f = mset (flying (f c)) + (\<Sum>d \<in> {..<MAX_CPUS} - {c}. mset (flying (f d)))" for f
    unfolding in_flight_def using assms by (simp add: sum.remove [of _ c])
  from this [of pc] this [of "pc(c := x)"] show ?thesis by simp
qed

lemma in_flight_same:
  assumes "c < MAX_CPUS" and "flying x = flying (pc c)"
  shows "in_flight (pc(c := x)) = in_flight pc"
  using in_flight_upd [OF assms(1), of pc x] assms(2) by simp

section \<open>One step of one core\<close>

text \<open>
  A step of core \<open>c\<close> changes its program counter to \<open>x\<close> and at most one slot \<open>i\<close> of records and
  owners. For each part of the invariant, what has to be checked at \<open>c\<close> and \<open>i\<close>.
\<close>

lemma held_structure:
  "in_window x = Some i \<Longrightarrow> held x = Some i" "blocking x = Some i \<Longrightarrow> in_window x = Some i"
  "shown x = Some i \<Longrightarrow> held x = Some i" "exiting x = Some i \<Longrightarrow> held x = None"
  by (induction x) auto

lemma inv_pids_upd:
  "inv_pids rec \<Longrightarrow> (\<And>r' j s. e = Some r' \<Longrightarrow> j \<noteq> i \<Longrightarrow> rec j = Some s \<Longrightarrow> c_pid s \<noteq> c_pid r') \<Longrightarrow>
    inv_pids (rec(i := e))"
  unfolding inv_pids_def by (auto split: if_splits) metis

lemma inv_held_upd:
  "inv_held rec own pc \<Longrightarrow>
    (\<And>j. held x = Some j \<Longrightarrow> if j = i then ow = Some c \<and> running e else held (pc c) = Some j) \<Longrightarrow>
    (\<And>d. d \<noteq> c \<Longrightarrow> held (pc d) = Some i \<Longrightarrow> ow = Some d \<and> running e) \<Longrightarrow>
    inv_held (rec(i := e)) (own(i := ow)) (pc(c := x))"
  unfolding inv_held_def by (auto split: if_splits)

lemma inv_own_upd:
  "inv_own own pc \<Longrightarrow>
    (\<And>j. held (pc c) = Some j \<Longrightarrow> held x = Some j \<or> (j = i \<and> ow \<noteq> Some c)) \<Longrightarrow>
    (\<And>d. ow = Some d \<Longrightarrow> if d = c then held x = Some i else held (pc d) = Some i) \<Longrightarrow>
    inv_own (own(i := ow)) (pc(c := x))"
  unfolding inv_own_def by (auto split: if_splits)

lemma inv_exit_upd:
  assumes "inv_exit rec own pc"
    and new: "\<And>j. exiting x = Some j \<Longrightarrow>
      (if j = i then ow = None \<and> running e else own j = None \<and> running (rec j)) \<and>
      (\<forall>d. d \<noteq> c \<longrightarrow> exiting (pc d) \<noteq> Some j)"
    and other: "\<And>d. d \<noteq> c \<Longrightarrow> exiting (pc d) = Some i \<Longrightarrow> ow = None \<and> running e"
  shows "inv_exit (rec(i := e)) (own(i := ow)) (pc(c := x))"
  unfolding inv_exit_def
proof (intro conjI allI impI)
  fix d j assume d: "exiting ((pc(c := x)) d) = Some j"
  have old: "own j = None" "running (rec j)" if "d \<noteq> c"
    using d that assms(1) by (auto simp: inv_exit_def)
  show "(own(i := ow)) j = None"
    using d old new [of j] other [of d] by (cases "d = c"; cases "j = i") auto
  show "running ((rec(i := e)) j)"
    using d old new [of j] other [of d] by (cases "d = c"; cases "j = i") auto
next
  fix d d' j assume "exiting ((pc(c := x)) d) = Some j" "exiting ((pc(c := x)) d') = Some j"
  then show "d = d'"
    using assms(1) new [of j] by (cases "d = c"; cases "d' = c") (auto simp: inv_exit_def)
qed

lemma inv_run_upd:
  "inv_run rec own pc \<Longrightarrow>
    (running e \<Longrightarrow> ow \<noteq> None \<or> exiting x = Some i \<or> (\<exists>d. d \<noteq> c \<and> exiting (pc d) = Some i)) \<Longrightarrow>
    (\<And>j. j \<noteq> i \<Longrightarrow> exiting (pc c) = Some j \<Longrightarrow> exiting x = Some j) \<Longrightarrow>
    inv_run (rec(i := e)) (own(i := ow)) (pc(c := x))"
  unfolding inv_run_def ex_upd [of "\<lambda>d y. exiting y = Some _"] by (metis fun_upd_apply)

lemma inv_cur_upd: "inv_cur cur pc \<Longrightarrow> inv_cur (cur(c := shown x)) (pc(c := x))"
  by (simp add: inv_cur_def)

lemma inv_intent_upd:
  "inv_intent rec pc \<Longrightarrow> (\<And>j r. blocking x = Some j \<Longrightarrow> (rec(i := e)) j = Some r \<Longrightarrow> c_intent r) \<Longrightarrow>
    (\<And>d r. d \<noteq> c \<Longrightarrow> blocking (pc d) = Some i \<Longrightarrow> e = Some r \<Longrightarrow> c_intent r) \<Longrightarrow>
    inv_intent (rec(i := e)) (pc(c := x))"
  unfolding inv_intent_def by (auto split: if_splits)

lemma inv_queue_upd:
  assumes "inv_queue rec pc q" and "c < MAX_CPUS"
    and "\<And>p. count q' p + count (mset (flying x)) p + (if runnable_pid rec p then 1 else 0)
      = count q p + count (mset (flying (pc c))) p + (if runnable_pid rec' p then 1 else 0)"
  shows "inv_queue rec' (pc(c := x)) q'"
  unfolding inv_queue_def
proof
  fix p
  have "count (in_flight (pc(c := x))) p + count (mset (flying (pc c))) p
      = count (in_flight pc) p + count (mset (flying x)) p"
    using in_flight_upd [OF assms(2), of pc x] by (metis count_union)
  moreover have "count (q + in_flight pc) p = (if runnable_pid rec p then 1 else 0)"
    using assms(1) by (simp add: inv_queue_def)
  ultimately show "count (q' + in_flight (pc(c := x))) p = (if runnable_pid rec' p then 1 else 0)"
    using assms(3) [of p] by simp
qed

lemma runnable_pid_here:
  "inv_pids rec \<Longrightarrow> rec i = Some r \<Longrightarrow> runnable_pid rec (c_pid r) \<longleftrightarrow> c_state r = Runnable"
  unfolding inv_pids_def runnable_pid_def by (metis option.inject)

lemma runnable_pid_upd:
  assumes "inv_pids rec" "rec i = Some r" "c_pid r' = c_pid r"
  shows "runnable_pid (rec(i := Some r')) p \<longleftrightarrow> (if p = c_pid r then c_state r' = Runnable else runnable_pid rec p)"
proof (cases "p = c_pid r")
  case True
  have "inv_pids (rec(i := Some r'))"
    using assms unfolding inv_pids_def by (auto split: if_splits)
  then show ?thesis using runnable_pid_here [of "rec(i := Some r')" i r'] assms(3) True by simp
next
  case False
  then have "(rec(i := Some r')) j = Some s \<and> c_pid s = p \<longleftrightarrow> rec j = Some s \<and> c_pid s = p" for j s
    using assms by auto
  then show ?thesis using False unfolding runnable_pid_def by (metis (no_types))
qed

lemma inv_latch_upd:
  "inv_latch rec pc \<Longrightarrow>
    (\<And>r. e = Some r \<Longrightarrow> c_pending r \<Longrightarrow> c_state r = Running \<and> c_wait r = None \<and>
       (in_window x = Some i \<or> (\<exists>d. d \<noteq> c \<and> in_window (pc d) = Some i))) \<Longrightarrow>
    (\<And>j. j \<noteq> i \<Longrightarrow> in_window (pc c) = Some j \<Longrightarrow> in_window x = Some j) \<Longrightarrow>
    inv_latch (rec(i := e)) (pc(c := x))"
  unfolding inv_latch_def ex_upd [of "\<lambda>d y. in_window y = Some _"] by (metis fun_upd_apply)

lemma inv_reap_upd:
  "inv_reap rec pc \<Longrightarrow> (\<And>st seed j. x = Reap st seed \<Longrightarrow> j = seed \<or> j \<in> set st \<Longrightarrow> (rec(i := e)) j = None) \<Longrightarrow>
    (\<And>d st seed. d \<noteq> c \<Longrightarrow> pc d = Reap st seed \<Longrightarrow> i = seed \<or> i \<in> set st \<Longrightarrow> e = None) \<Longrightarrow>
    inv_reap (rec(i := e)) (pc(c := x))"
  unfolding inv_reap_def by (auto split: if_splits)

lemma parked_upd:
  "parked (rec(i := e)) (pc(c := x)) j \<longleftrightarrow> (\<exists>r. (rec(i := e)) j = Some r \<and> c_state r = Blocked) \<or>
    in_window x = Some j \<or> (\<exists>d. d \<noteq> c \<and> in_window (pc d) = Some j)"
  unfolding parked_def ex_upd [of "\<lambda>d y. in_window y = Some _"] ..

lemma parked_keep:
  "parked rec pc j \<Longrightarrow> j \<noteq> i \<Longrightarrow> (in_window (pc c) = Some j \<Longrightarrow> in_window x = Some j) \<Longrightarrow>
    parked (rec(i := e)) (pc(c := x)) j"
  unfolding parked_upd by (auto simp: parked_def) metis

definition wait_done :: "recs \<Rightarrow> wait_spec \<Rightarrow> pid \<Rightarrow> bool" where
  "wait_done rec spec p \<longleftrightarrow> (\<forall>j z. rec j = Some z \<longrightarrow> c_parent z = Some p \<longrightarrow> c_state z = Zombie \<longrightarrow>
     c_code z \<noteq> None \<longrightarrow> \<not> ws_matches spec (c_pid z))"

lemma inv_wait_alt:
  "inv_wait rec pc \<longleftrightarrow> (\<forall>i r spec. rec i = Some r \<longrightarrow> c_wait r = Some spec \<longrightarrow>
     parked rec pc i \<and> (\<forall>c. \<not> delivering (c_pid r) (pc c)) \<and> wait_done rec spec (c_pid r))"
  unfolding inv_wait_def wait_done_def ..

lemma inv_wait_upd:
  assumes "inv_wait rec pc"
    and new: "\<And>r spec. e = Some r \<Longrightarrow> c_wait r = Some spec \<Longrightarrow> parked (rec(i := e)) (pc(c := x)) i \<and>
      (\<forall>d. \<not> delivering (c_pid r) ((pc(c := x)) d)) \<and> wait_done (rec(i := e)) spec (c_pid r)"
    and "\<And>j. j \<noteq> i \<Longrightarrow> in_window (pc c) = Some j \<Longrightarrow> in_window x = Some j"
    and deliv: "\<And>j r spec. j \<noteq> i \<Longrightarrow> rec j = Some r \<Longrightarrow> c_wait r = Some spec \<Longrightarrow> \<not> delivering (c_pid r) x"
    and zombie: "\<And>j r spec z. j \<noteq> i \<Longrightarrow> rec j = Some r \<Longrightarrow> c_wait r = Some spec \<Longrightarrow> e = Some z \<Longrightarrow>
      c_parent z = Some (c_pid r) \<Longrightarrow> c_state z = Zombie \<Longrightarrow> c_code z \<noteq> None \<Longrightarrow> \<not> ws_matches spec (c_pid z)"
  shows "inv_wait (rec(i := e)) (pc(c := x))"
  unfolding inv_wait_alt
proof (intro allI impI)
  fix j r spec assume j: "(rec(i := e)) j = Some r" "c_wait r = Some spec"
  show "parked (rec(i := e)) (pc(c := x)) j \<and> (\<forall>d. \<not> delivering (c_pid r) ((pc(c := x)) d)) \<and>
      wait_done (rec(i := e)) spec (c_pid r)"
  proof (cases "j = i")
    case True
    then show ?thesis using new j by simp
  next
    case False
    then have r: "rec j = Some r" using j by simp
    then have old: "parked rec pc j" "\<forall>d. \<not> delivering (c_pid r) (pc d)" "wait_done rec spec (c_pid r)"
      using assms(1) j(2) unfolding inv_wait_alt by blast+
    have "wait_done (rec(i := e)) spec (c_pid r)"
      using old(3) zombie [OF False r j(2)] unfolding wait_done_def by auto
    then show ?thesis
      using parked_keep [OF old(1) False] assms(3) [OF False] deliv [OF False r j(2)] old(2) by simp
  qed
qed

lemma inv_deliver_upd:
  assumes old: "inv_deliver rec pc"
    and new1: "\<And>a ps pp w. x = Deliver a ps pp w \<Longrightarrow> \<exists>z r. (rec(i := e)) a = Some z \<and> c_state z = Zombie \<and>
      c_parent z = Some pp \<and> (rec(i := e)) ps = Some r \<and> c_pid r = pp"
    and new2: "\<And>p. delivering p x \<Longrightarrow> (\<exists>j r. (rec(i := e)) j = Some r \<and> c_pid r = p \<and> \<not> c_pending r \<and>
      parked (rec(i := e)) (pc(c := x)) j) \<and> (\<forall>d. d \<noteq> c \<longrightarrow> \<not> delivering p (pc d))"
    and other1: "\<And>d ps pp w. d \<noteq> c \<Longrightarrow> pc d = Deliver i ps pp w \<Longrightarrow>
      \<exists>z. e = Some z \<and> c_state z = Zombie \<and> c_parent z = Some pp"
    and other2: "\<And>d a pp w. d \<noteq> c \<Longrightarrow> pc d = Deliver a i pp w \<Longrightarrow> \<exists>r. e = Some r \<and> c_pid r = pp"
    and other3: "\<And>d r. d \<noteq> c \<Longrightarrow> rec i = Some r \<Longrightarrow> delivering (c_pid r) (pc d) \<Longrightarrow>
      \<exists>r'. e = Some r' \<and> c_pid r' = c_pid r \<and> \<not> c_pending r' \<and> parked (rec(i := e)) (pc(c := x)) i"
    and win: "\<And>j. j \<noteq> i \<Longrightarrow> in_window (pc c) = Some j \<Longrightarrow> in_window x = Some j"
  shows "inv_deliver (rec(i := e)) (pc(c := x))"
proof -
  have "\<exists>z r. (rec(i := e)) a = Some z \<and> c_state z = Zombie \<and> c_parent z = Some pp \<and>
      (rec(i := e)) ps = Some r \<and> c_pid r = pp" if "(pc(c := x)) d = Deliver a ps pp w" for d a ps pp w
  proof (cases "d = c")
    case True
    then show ?thesis using new1 that by simp
  next
    case False
    then have d: "pc d = Deliver a ps pp w" using that by simp
    then obtain z r where "rec a = Some z" "c_state z = Zombie" "c_parent z = Some pp" "rec ps = Some r" "c_pid r = pp"
      using old unfolding inv_deliver_def by blast
    then show ?thesis
      using other1 [OF False, of ps pp w] other2 [OF False, of a pp w] d by (cases "a = i"; cases "ps = i") auto
  qed
  moreover have "\<exists>j r. (rec(i := e)) j = Some r \<and> c_pid r = p \<and> \<not> c_pending r \<and> parked (rec(i := e)) (pc(c := x)) j"
    if "delivering p ((pc(c := x)) d)" for d p
  proof (cases "d = c")
    case True
    then show ?thesis using new2 that by simp
  next
    case False
    then have d: "delivering p (pc d)" using that by simp
    then obtain j r where j: "rec j = Some r" "c_pid r = p" "\<not> c_pending r" "parked rec pc j"
      using old unfolding inv_deliver_def by blast
    show ?thesis
    proof (cases "j = i")
      case True
      then obtain r' where "e = Some r'" "c_pid r' = p" "\<not> c_pending r'" "parked (rec(i := e)) (pc(c := x)) i"
        using other3 [OF False, of r] d j by auto
      then show ?thesis by (metis fun_upd_same)
    next
      case False
      then show ?thesis using parked_keep [OF j(4) False win [OF False]] j by (metis fun_upd_apply)
    qed
  qed
  moreover have "d = d'" if "delivering p ((pc(c := x)) d)" "delivering p ((pc(c := x)) d')" for d d' p
    using that old new2 [of p] by (cases "d = c"; cases "d' = c") (auto simp: inv_deliver_def)
  ultimately show ?thesis unfolding inv_deliver_def by blast
qed

lemma inv_deliverD:
  assumes "inv_deliver rec pc"
  shows "pc d = Deliver i ps pp w \<Longrightarrow> \<exists>z r. rec i = Some z \<and> c_state z = Zombie \<and> c_parent z = Some pp \<and>
      rec ps = Some r \<and> c_pid r = pp"
    and "delivering p (pc d) \<Longrightarrow> \<exists>i r. rec i = Some r \<and> c_pid r = p \<and> \<not> c_pending r \<and> parked rec pc i"
    and "delivering p (pc d) \<Longrightarrow> delivering p (pc e) \<Longrightarrow> d = e"
  using assms unfolding inv_deliver_def by blast+

lemma inv_pc_upd: "inv_pc pc \<Longrightarrow> c < MAX_CPUS \<Longrightarrow> pc_ok x \<Longrightarrow> inv_pc (pc(c := x))"
  by (simp add: inv_pc_def)

lemmas ainvI = ainv_def [THEN iffD2, OF conjI [OF _ conjI [OF _ conjI [OF _ conjI [OF _ conjI [OF _ conjI
  [OF _ conjI [OF _ conjI [OF _ conjI [OF _ conjI [OF _ conjI [OF _ conjI]]]]]]]]]]]]

lemma ainvD:
  assumes "ainv rec own cur pc q"
  shows "inv_pids rec" "inv_held rec own pc" "inv_own own pc" "inv_exit rec own pc" "inv_run rec own pc"
    "inv_cur cur pc" "inv_intent rec pc" "inv_queue rec pc q" "inv_latch rec pc" "inv_reap rec pc"
    "inv_wait rec pc" "inv_deliver rec pc" "inv_pc pc"
  using assms by (simp_all add: ainv_def)

text \<open>A slot held by a core is not touched by the others, and only its own hand-off parks it.\<close>

lemma held_facts:
  assumes A: "ainv rec own cur pc q" and h: "held (pc c) = Some i"
  shows "own i = Some c" "\<exists>r. rec i = Some r \<and> c_state r = Running"
    "held (pc d) = Some i \<Longrightarrow> d = c" "in_window (pc d) = Some i \<Longrightarrow> d = c" "blocking (pc d) = Some i \<Longrightarrow> d = c"
    "exiting (pc d) \<noteq> Some i"
    "parked rec pc i \<Longrightarrow> in_window (pc c) = Some i" "\<not> (pc d = Reap st seed \<and> (i = seed \<or> i \<in> set st))"
proof -
  show own: "own i = Some c" and r: "\<exists>r. rec i = Some r \<and> c_state r = Running"
    using ainvD(2) [OF A] h by (auto simp: inv_held_def running_def)
  show held: "held (pc d) = Some i \<Longrightarrow> d = c" for d
    using ainvD(2) [OF A] own by (force simp: inv_held_def)
  then show win: "in_window (pc d) = Some i \<Longrightarrow> d = c" for d using held_structure(1) by blast
  then show "blocking (pc d) = Some i \<Longrightarrow> d = c" using held_structure(2) by blast
  show "exiting (pc d) \<noteq> Some i" using ainvD(4) [OF A] own by (force simp: inv_exit_def)
  show "parked rec pc i \<Longrightarrow> in_window (pc c) = Some i" using r win by (auto simp: parked_def)
  show "\<not> (pc d = Reap st seed \<and> (i = seed \<or> i \<in> set st))" using ainvD(10) [OF A] r unfolding inv_reap_def by fastforce
qed

lemma unparked:
  assumes A: "ainv rec own cur pc q" and "rec i = Some r" "\<not> parked rec pc i"
  shows "c_wait r = None" "\<not> delivering (c_pid r) (pc d)" "\<not> c_pending r"
proof -
  show "c_wait r = None" using ainvD(11) [OF A] assms(2,3) unfolding inv_wait_alt by (cases "c_wait r") auto
  show "\<not> delivering (c_pid r) (pc d)"
    using ainvD(12) [OF A] ainvD(1) [OF A] assms(2,3) unfolding inv_deliver_def inv_pids_def by blast
  show "\<not> c_pending r" using ainvD(9) [OF A] assms(2,3) unfolding inv_latch_def parked_def by blast
qed

lemma pending_free:
  assumes A: "ainv rec own cur pc q" and "rec i = Some r" "c_pending r"
  shows "c_wait r = None" "\<not> delivering (c_pid r) (pc d)"
proof -
  show "c_wait r = None" using ainvD(9) [OF A] assms(2,3) unfolding inv_latch_def by blast
  show "\<not> delivering (c_pid r) (pc d)"
    using ainvD(12) [OF A] ainvD(1) [OF A] assms(2,3) unfolding inv_deliver_def inv_pids_def by (metis option.inject)
qed

section \<open>Steps on the slot a core holds\<close>

text \<open>
  The hand-offs of a yield, a block and an exit, up to the end of the ownership: the record keeps
  identifier, parent, exit code and wait registration, and the slot is either held on, or given up as
  runnable and on its way to the queue, as blocked, or as exiting.
\<close>

definition handoff_ok :: "nat \<Rightarrow> nat \<Rightarrow> pcore \<Rightarrow> pcore \<Rightarrow> nat option \<Rightarrow> cpu_pc \<Rightarrow> cpu_pc \<Rightarrow> bool" where
  "handoff_ok c i r r' ow y x \<longleftrightarrow> held y = Some i \<and> flying y = [] \<and>
     c_pid r' = c_pid r \<and> c_wait r' = c_wait r \<and> c_parent r' = c_parent r \<and> c_code r' = c_code r \<and>
     c_state r' \<noteq> Zombie \<and>
     (held x = Some i \<and> ow = Some c \<and> c_state r' = Running \<and> exiting x = None \<or>
      held x = None \<and> ow = None \<and> (if c_state r' = Running then exiting x = Some i else exiting x = None)) \<and>
     (\<forall>j. blocking x = Some j \<longrightarrow> c_intent r') \<and>
     flying x = (if c_state r' = Runnable then [c_pid r] else []) \<and>
     (c_pending r' \<longrightarrow> c_pending r \<and> in_window x = Some i) \<and>
     (in_window y = Some i \<longrightarrow> c_state r' = Blocked \<or> in_window x = Some i \<or> c_pending r) \<and>
     (\<forall>st seed. x \<noteq> Reap st seed) \<and> (\<forall>p. \<not> delivering p x) \<and> pc_ok x"

lemma ainv_handoff:
  assumes A: "ainv rec own cur pc q" and c: "c < MAX_CPUS" and r: "rec i = Some r"
    and ok: "handoff_ok c i r r' ow (pc c) x"
  shows "ainv (rec(i := Some r')) (own(i := ow)) (cur(c := shown x)) (pc(c := x)) q"
proof -
  have h: "held (pc c) = Some i" and pid: "c_pid r' = c_pid r"
    and f: "flying (pc c) = []" "flying x = (if c_state r' = Runnable then [c_pid r] else [])"
    using ok by (auto simp: handoff_ok_def)
  note h' = held_facts [OF A h]
  have run: "c_state r = Running" using h'(2) r by auto
  have win: "in_window (pc c) \<noteq> Some j" if "j \<noteq> i" for j using held_structure(1) [of "pc c" j] h that by auto
  have dead: "blocking x = Some j \<Longrightarrow> j = i" for j
    using held_structure(1,2) [of x j] ok by (auto simp: handoff_ok_def)
  have deliv: "\<not> delivering p x" for p using ok by (simp add: handoff_ok_def)
  have parked: "parked (rec(i := Some r')) (pc(c := x)) i" if "parked rec pc i" "\<not> c_pending r"
    using h'(7) [OF that(1)] that(2) ok unfolding parked_upd by (auto simp: handoff_ok_def)
  have wait: "c_wait r = Some spec \<Longrightarrow> parked rec pc i \<and> \<not> c_pending r" for spec
    using unparked(1) [OF A r] pending_free(1) [OF A r] by auto
  have del: "delivering (c_pid r) (pc d) \<Longrightarrow> parked rec pc i \<and> \<not> c_pending r" for d
    using unparked(2) [OF A r] pending_free(2) [OF A r] by auto
  have zombie: "(rec(i := Some r')) j = Some z \<and> c_state z = Zombie \<longleftrightarrow> rec j = Some z \<and> c_state z = Zombie" for j z
    using r run ok by (auto simp: handoff_ok_def)
  have wd: "wait_done (rec(i := Some r')) spec p \<longleftrightarrow> wait_done rec spec p" for spec p
    unfolding wait_done_def using zombie by (metis (no_types, lifting))
  show ?thesis
  proof (rule ainvI)
    show "inv_pids (rec(i := Some r'))"
      using ainvD(1) [OF A] r pid by (intro inv_pids_upd) (auto simp: inv_pids_def)
    show "inv_held (rec(i := Some r')) (own(i := ow)) (pc(c := x))"
      using ok h'(3) by (intro inv_held_upd ainvD(2) [OF A]) (auto simp: handoff_ok_def running_def)
    show "inv_own (own(i := ow)) (pc(c := x))"
      using ok by (intro inv_own_upd ainvD(3) [OF A]) (auto simp: handoff_ok_def)
    show "inv_exit (rec(i := Some r')) (own(i := ow)) (pc(c := x))"
      using ok h'(6) by (intro inv_exit_upd ainvD(4) [OF A]) (auto simp: handoff_ok_def running_def split: if_splits)
    show "inv_run (rec(i := Some r')) (own(i := ow)) (pc(c := x))"
      using ok h held_structure(4) [of "pc c"] by (intro inv_run_upd ainvD(5) [OF A]) (auto simp: handoff_ok_def running_def)
    show "inv_cur (cur(c := shown x)) (pc(c := x))" by (rule inv_cur_upd [OF ainvD(6) [OF A]])
    show "inv_intent (rec(i := Some r')) (pc(c := x))"
      using ok dead h'(5) by (intro inv_intent_upd ainvD(7) [OF A]) (auto simp: handoff_ok_def)
    show "inv_queue (rec(i := Some r')) (pc(c := x)) q"
      using runnable_pid_upd [OF ainvD(1) [OF A] r pid] runnable_pid_here [OF ainvD(1) [OF A] r] run f
      by (intro inv_queue_upd [OF ainvD(8) [OF A] c]) auto
    show "inv_latch (rec(i := Some r')) (pc(c := x))"
      using ok win pending_free(1) [OF A r] held_structure(1) [of x i] by (intro inv_latch_upd ainvD(9) [OF A]) (auto simp: handoff_ok_def)
    show "inv_reap (rec(i := Some r')) (pc(c := x))"
      using ok h'(8) by (intro inv_reap_upd ainvD(10) [OF A]) (auto simp: handoff_ok_def)
    show "inv_wait (rec(i := Some r')) (pc(c := x))"
    proof (rule inv_wait_upd [OF ainvD(11) [OF A]])
      fix r1 spec assume "Some r' = Some r1" "c_wait r1 = Some spec"
      then have w: "c_wait r = Some spec" "r1 = r'" using ok by (auto simp: handoff_ok_def)
      then show "parked (rec(i := Some r')) (pc(c := x)) i \<and> (\<forall>d. \<not> delivering (c_pid r1) ((pc(c := x)) d)) \<and>
          wait_done (rec(i := Some r')) spec (c_pid r1)"
        unfolding wd using parked wait [OF w(1)] deliv ainvD(11) [OF A] r pid unfolding inv_wait_alt by simp
    qed (use win deliv ok in \<open>auto simp: handoff_ok_def\<close>)
    show "inv_deliver (rec(i := Some r')) (pc(c := x))"
    proof (rule inv_deliver_upd [OF ainvD(12) [OF A]])
      fix d ps pp w assume "pc d = Deliver i ps pp w"
      then show "\<exists>z. Some r' = Some z \<and> c_state z = Zombie \<and> c_parent z = Some pp"
        using ainvD(12) [OF A] r run unfolding inv_deliver_def by fastforce
    next
      fix d a pp w assume "pc d = Deliver a i pp w"
      then show "\<exists>r. Some r' = Some r \<and> c_pid r = pp"
        using ainvD(12) [OF A] r pid unfolding inv_deliver_def by fastforce
    next
      fix d s assume "rec i = Some s" "delivering (c_pid s) (pc d)"
      then show "\<exists>r1. Some r' = Some r1 \<and> c_pid r1 = c_pid s \<and> \<not> c_pending r1 \<and> parked (rec(i := Some r')) (pc(c := x)) i"
        using del [of d] parked r pid ok by (auto simp: handoff_ok_def)
    qed (use deliv win ok in \<open>auto simp: delivering_def\<close>)
    show "inv_pc (pc(c := x))" using ok c by (intro inv_pc_upd ainvD(13) [OF A]) (auto simp: handoff_ok_def)
  qed
qed

section \<open>Steps that move only the program counter\<close>

definition pc_move :: "recs \<Rightarrow> pid multiset \<Rightarrow> pid multiset \<Rightarrow> cpu_pc \<Rightarrow> cpu_pc \<Rightarrow> bool" where
  "pc_move rec q q' y x \<longleftrightarrow> held x = held y \<and> exiting x = exiting y \<and> blocking x = blocking y \<and>
     in_window x = in_window y \<and> q' + mset (flying x) = q + mset (flying y) \<and>
     (\<forall>st seed j. x = Reap st seed \<longrightarrow> j = seed \<or> j \<in> set st \<longrightarrow> rec j = None) \<and>
     (\<forall>p. delivering p x \<longrightarrow> delivering p y) \<and> (\<forall>a ps pp w. x \<noteq> Deliver a ps pp w) \<and> pc_ok x"

lemma ainv_move:
  assumes A: "ainv rec own cur pc q" and c: "c < MAX_CPUS" and ok: "pc_move rec q q' (pc c) x"
  shows "ainv rec own (cur(c := shown x)) (pc(c := x)) q'"
proof -
  note m = ok [unfolded pc_move_def]
  have view: "held ((pc(c := x)) d) = held (pc d)" "exiting ((pc(c := x)) d) = exiting (pc d)"
    "blocking ((pc(c := x)) d) = blocking (pc d)" "in_window ((pc(c := x)) d) = in_window (pc d)" for d
    using m by simp_all
  have par: "parked rec (pc(c := x)) j \<longleftrightarrow> parked rec pc j" for j
    unfolding parked_def view ..
  have del: "delivering p ((pc(c := x)) d) \<Longrightarrow> delivering p (pc d)" for p d using m by (simp split: if_splits)
  have "count q' p + count (mset (flying x)) p = count q p + count (mset (flying (pc c))) p" for p
    using m by (metis count_union)
  then have queue: "inv_queue rec (pc(c := x)) q'" by (intro inv_queue_upd [OF ainvD(8) [OF A] c]) simp
  have wait: "inv_wait rec (pc(c := x))"
    using ainvD(11) [OF A] del unfolding inv_wait_alt par by blast
  have deliver: "inv_deliver rec (pc(c := x))"
  proof -
    have "(pc(c := x)) d = Deliver a ps pp w \<Longrightarrow> pc d = Deliver a ps pp w" for d a ps pp w
      using m by (simp split: if_splits)
    then show ?thesis
      using inv_deliverD [OF ainvD(12) [OF A]] del unfolding inv_deliver_def par
      by (intro conjI allI impI) (blast | metis)+
  qed
  have "inv_held rec own (pc(c := x))" using ainvD(2) [OF A] unfolding inv_held_def view .
  moreover have "inv_own own (pc(c := x))" using ainvD(3) [OF A] unfolding inv_own_def view .
  moreover have "inv_exit rec own (pc(c := x))" using ainvD(4) [OF A] unfolding inv_exit_def view .
  moreover have "inv_run rec own (pc(c := x))" using ainvD(5) [OF A] unfolding inv_run_def view .
  moreover have "inv_intent rec (pc(c := x))" using ainvD(7) [OF A] unfolding inv_intent_def view .
  moreover have "inv_latch rec (pc(c := x))" using ainvD(9) [OF A] unfolding inv_latch_def view .
  moreover have "inv_reap rec (pc(c := x))" 
    unfolding inv_reap_def
  proof (intro allI impI)
    fix d st seed j assume "(pc(c := x)) d = Reap st seed" "j = seed \<or> j \<in> set st"
    then show "rec j = None" using ainvD(10) [OF A] m unfolding inv_reap_def by (cases "d = c") auto
  qed
  moreover have "inv_pc (pc(c := x))" using m c by (intro inv_pc_upd ainvD(13) [OF A]) blast+
  ultimately show ?thesis
    using queue wait deliver ainvD(1) [OF A] inv_cur_upd [OF ainvD(6) [OF A]] by (simp add: ainv_def)
qed

end
