(* ===== verification/Smp_Steps.thy ===== *)
theory Smp_Steps
  imports Smp_Invariant
begin

text \<open>
  The steps that claim, wake, create, register, collect, bury and reap a process keep the invariant.
\<close>

section \<open>Claiming, waking and creating\<close>

lemma in_flight_self:
  assumes "c < MAX_CPUS"
  shows "count (mset (flying (pc c))) p \<le> count (in_flight pc) p"
proof -
  have "in_flight pc = in_flight (pc(c := Pick)) + mset (flying (pc c))"
    using in_flight_upd [OF assms, of pc Pick] by simp
  then show ?thesis by simp
qed

lemma queued_runnable:
  assumes A: "ainv rec own cur pc q" and "0 < count (q + in_flight pc) p"
  obtains i r where "rec i = Some r" "c_pid r = p" "c_state r = Runnable"
proof -
  have "runnable_pid rec p" using ainvD(8) [OF A] assms(2) by (auto simp: inv_queue_def split: if_splits)
  then show thesis using that by (auto simp: runnable_pid_def)
qed

text \<open>A slot whose record is neither running nor dying is free of every core but for deliveries.\<close>

lemma resting_facts:
  assumes A: "ainv rec own cur pc q" and r: "rec i = Some r" "c_state r \<noteq> Running"
  shows "own i = None" "held (pc d) \<noteq> Some i" "in_window (pc d) \<noteq> Some i" "blocking (pc d) \<noteq> Some i"
    "exiting (pc d) \<noteq> Some i" "\<not> c_pending r" "\<not> (pc d = Reap st seed \<and> (i = seed \<or> i \<in> set st))"
    "parked rec pc i \<longleftrightarrow> c_state r = Blocked"
proof -
  show held: "held (pc d) \<noteq> Some i" for d
    using ainvD(2) [OF A] r unfolding inv_held_def running_def by fastforce
  then show "own i = None" using ainvD(3) [OF A] unfolding inv_own_def by (metis not_None_eq)
  show win: "in_window (pc d) \<noteq> Some i" for d using held held_structure(1) by blast
  then show "blocking (pc d) \<noteq> Some i" using held_structure(2) by blast
  show "exiting (pc d) \<noteq> Some i"
    using ainvD(4) [OF A] r unfolding inv_exit_def running_def by fastforce
  show "\<not> c_pending r" using ainvD(9) [OF A] r unfolding inv_latch_def by blast
  show "\<not> (pc d = Reap st seed \<and> (i = seed \<or> i \<in> set st))" using ainvD(10) [OF A] r unfolding inv_reap_def by fastforce
  show "parked rec pc i \<longleftrightarrow> c_state r = Blocked" using win r by (simp add: parked_def)
qed

lemma ainv_claim:
  assumes A: "ainv rec own cur pc q" and c: "c < MAX_CPUS" and pc: "pc c = Claim (c_pid r)"
    and r: "rec i = Some r" "c_state r = Runnable"
  shows "ainv (rec(i := Some (r\<lparr>c_state := Running, c_intent := False, c_pending := False\<rparr>))) (own(i := Some c))
    (cur(c := None)) (pc(c := Enter i)) q" (is "ainv ?rec ?own _ ?pc q")
proof -
  note f = resting_facts [OF A r(1), simplified r(2), simplified]
  have np: "\<not> parked rec pc i" using f(8) r(2) by simp
  note u = unparked [OF A r(1) np]
  have nz: "(?rec j = Some z \<and> c_state z = Zombie) = (rec j = Some z \<and> c_state z = Zombie)" for j z using r by auto
  have wd: "wait_done ?rec spec p \<longleftrightarrow> wait_done rec spec p" for spec p
    unfolding wait_done_def using nz by (metis (no_types, lifting))
  show ?thesis
  proof (rule ainvI)
    show "inv_pids ?rec" using ainvD(1) [OF A] r by (intro inv_pids_upd) (auto simp: inv_pids_def)
    show "inv_held ?rec ?own ?pc" using f by (intro inv_held_upd ainvD(2) [OF A]) (auto simp: running_def)
    show "inv_own ?own ?pc" using pc by (intro inv_own_upd ainvD(3) [OF A]) auto
    show "inv_exit ?rec ?own ?pc" using f by (intro inv_exit_upd ainvD(4) [OF A]) auto
    show "inv_run ?rec ?own ?pc" using pc by (intro inv_run_upd ainvD(5) [OF A]) auto
    show "inv_cur (cur(c := None)) ?pc" using inv_cur_upd [OF ainvD(6) [OF A], of c "Enter i"] by simp
    show "inv_intent ?rec ?pc" using f by (intro inv_intent_upd ainvD(7) [OF A]) auto
    show "inv_queue ?rec ?pc q"
      using runnable_pid_upd [OF ainvD(1) [OF A] r(1), of "r\<lparr>c_state := Running, c_intent := False, c_pending := False\<rparr>"]
        runnable_pid_here [OF ainvD(1) [OF A] r(1)] r(2) pc
      by (intro inv_queue_upd [OF ainvD(8) [OF A] c]) auto
    show "inv_latch ?rec ?pc" using pc by (intro inv_latch_upd ainvD(9) [OF A]) auto
    show "inv_reap ?rec ?pc" using f(7) by (intro inv_reap_upd ainvD(10) [OF A]) auto
    show "inv_wait ?rec ?pc"
      using u(1) pc by (intro inv_wait_upd ainvD(11) [OF A]) (auto simp: delivering_def)
    show "inv_deliver ?rec ?pc"
    proof (rule inv_deliver_upd [OF ainvD(12) [OF A]])
      fix d ps pp w assume "pc d = Deliver i ps pp w"
      then have False using inv_deliverD(1) [OF ainvD(12) [OF A]] r by fastforce
      then show "\<exists>z. Some (r\<lparr>c_state := Running, c_intent := False, c_pending := False\<rparr>) = Some z \<and>
          c_state z = Zombie \<and> c_parent z = Some pp" ..
    next
      fix d a pp w assume d: "pc d = Deliver a i pp w"
      have "delivering (c_pid r) (pc d)" using inv_deliverD(1) [OF ainvD(12) [OF A] d] r d by (auto simp: delivering_def)
      then show "\<exists>s. Some (r\<lparr>c_state := Running, c_intent := False, c_pending := False\<rparr>) = Some s \<and> c_pid s = pp"
        using u(2) by blast
    qed (use u(2) r pc in \<open>auto simp: delivering_def\<close>)
    show "inv_pc ?pc" using c by (intro inv_pc_upd ainvD(13) [OF A]) auto
  qed
qed

text \<open>The program counter of a core that serves a request changes only by a push to come.\<close>

definition serves :: "pid list \<Rightarrow> cpu_pc \<Rightarrow> cpu_pc \<Rightarrow> bool" where
  "serves ps y x \<longleftrightarrow> held x = held y \<and> exiting y = None \<and> exiting x = None \<and> in_window y = None \<and>
     in_window x = None \<and> flying y = [] \<and> flying x = ps \<and> (\<forall>p. \<not> delivering p x) \<and>
     (\<forall>st seed. x \<noteq> Reap st seed) \<and> pc_ok x"

lemma serves_blocking: "serves ps y x \<Longrightarrow> blocking x = None \<and> blocking y = None"
  using held_structure(2) [of x] held_structure(2) [of y] unfolding serves_def by (metis not_None_eq)

lemma deliver_other:
  assumes A: "ainv rec own cur pc q" and r: "rec i = Some r" and nz: "c_state r \<noteq> Zombie"
    and nd: "\<And>d. d \<noteq> c \<Longrightarrow> \<not> delivering (c_pid r) (pc d)" and "d \<noteq> c"
  shows "pc d \<noteq> Deliver i ps pp w" "pc d \<noteq> Deliver a i pp w"
proof -
  show "pc d \<noteq> Deliver i ps pp w" using inv_deliverD(1) [OF ainvD(12) [OF A], of d i] r nz by fastforce
  show "pc d \<noteq> Deliver a i pp w"
  proof
    assume d: "pc d = Deliver a i pp w"
    then have "delivering (c_pid r) (pc d)"
      using inv_deliverD(1) [OF ainvD(12) [OF A] d] r by (auto simp: delivering_def)
    then show False using nd assms(5) by blast
  qed
qed

lemma ainv_wake:
  assumes A: "ainv rec own cur pc q" and c: "c < MAX_CPUS"
    and r: "rec i = Some r" "c_state r = Blocked" "c_wait r = None"
    and nd: "\<And>d. d \<noteq> c \<Longrightarrow> \<not> delivering (c_pid r) (pc d)"
    and pc: "serves [c_pid r] (pc c) x"
  shows "ainv (rec(i := Some (r\<lparr>c_state := Runnable, c_intent := False, c_pending := False\<rparr>))) own
    (cur(c := shown x)) (pc(c := x)) q" (is "ainv (rec(i := Some ?r)) own _ ?pc q")
proof -
  note f = resting_facts [OF A r(1), simplified r(2), simplified]
  note s = pc [unfolded serves_def] and b = serves_blocking [OF pc]
  note other = deliver_other [OF A r(1) _ nd, simplified r(2), simplified]
  have own: "own = own(i := None)" using f(1) by (simp add: fun_upd_idem)
  have sh: "held (pc c) = held x" and hc: "held x \<noteq> Some i" using f(2) [of c] s by metis+
  show ?thesis
  proof (rule ainvI)
    show "inv_pids (rec(i := Some ?r))" using ainvD(1) [OF A] r by (intro inv_pids_upd) (auto simp: inv_pids_def)
    show "inv_held (rec(i := Some ?r)) own ?pc"
      using f(2) hc sh by (subst own, intro inv_held_upd ainvD(2) [OF A]) (auto simp: running_def)
    show "inv_own own ?pc" using s by (subst own, intro inv_own_upd ainvD(3) [OF A]) auto
    show "inv_exit (rec(i := Some ?r)) own ?pc" using s f by (subst own, intro inv_exit_upd ainvD(4) [OF A]) auto
    show "inv_run (rec(i := Some ?r)) own ?pc" using s by (subst own, intro inv_run_upd ainvD(5) [OF A]) (auto simp: running_def)
    show "inv_cur (cur(c := shown x)) ?pc" by (rule inv_cur_upd [OF ainvD(6) [OF A]])
    show "inv_intent (rec(i := Some ?r)) ?pc" using f b by (intro inv_intent_upd ainvD(7) [OF A]) auto
    show "inv_queue (rec(i := Some ?r)) ?pc q"
      using runnable_pid_upd [OF ainvD(1) [OF A] r(1), of ?r] runnable_pid_here [OF ainvD(1) [OF A] r(1)] r(2) s
      by (intro inv_queue_upd [OF ainvD(8) [OF A] c]) auto
    show "inv_latch (rec(i := Some ?r)) ?pc" using s by (intro inv_latch_upd ainvD(9) [OF A]) auto
    show "inv_reap (rec(i := Some ?r)) ?pc" using f(7) s by (intro inv_reap_upd ainvD(10) [OF A]) auto
    show "inv_wait (rec(i := Some ?r)) ?pc" using r s by (intro inv_wait_upd ainvD(11) [OF A]) auto
    show "inv_deliver (rec(i := Some ?r)) ?pc"
      using other nd r s by (intro inv_deliver_upd ainvD(12) [OF A]) (auto simp: delivering_def)
    show "inv_pc ?pc" using c s by (intro inv_pc_upd ainvD(13) [OF A]) auto
  qed
qed

lemma ainv_latch:
  assumes A: "ainv rec own cur pc q" and c: "c < MAX_CPUS"
    and r: "rec i = Some r" "c_state r = Running" "c_wait r = None" and win: "in_window (pc d) = Some i"
    and nd: "\<And>d. d \<noteq> c \<Longrightarrow> \<not> delivering (c_pid r) (pc d)"
    and pc: "serves [] (pc c) x"
  shows "ainv (rec(i := Some (r\<lparr>c_pending := True\<rparr>))) own (cur(c := shown x)) (pc(c := x)) q"
    (is "ainv (rec(i := Some ?r)) own _ ?pc q")
proof -
  note s = pc [unfolded serves_def] and b = serves_blocking [OF pc]
  note f = held_facts [OF A held_structure(1) [OF win]]
  have d: "d \<noteq> c" using win s by auto
  note other = deliver_other [OF A r(1) _ nd, simplified r(2), simplified]
  have own: "own = own(i := own i)" by simp
  have run: "running (Some ?r) = running (rec i)" using r by (simp add: running_def)
  have hc: "held x \<noteq> Some i" using f(3) [of c] d s by auto
  show ?thesis
  proof (rule ainvI)
    show "inv_pids (rec(i := Some ?r))" using ainvD(1) [OF A] r by (intro inv_pids_upd) (auto simp: inv_pids_def)
    show "inv_held (rec(i := Some ?r)) own ?pc"
      using f hc s r by (subst own, intro inv_held_upd ainvD(2) [OF A]) (auto simp: running_def)
    show "inv_own own ?pc" using s f d by (subst own, intro inv_own_upd ainvD(3) [OF A]) (auto simp: held_structure(1) [OF win])
    show "inv_exit (rec(i := Some ?r)) own ?pc" using s f by (subst own, intro inv_exit_upd ainvD(4) [OF A]) auto
    show "inv_run (rec(i := Some ?r)) own ?pc" using s f by (subst own, intro inv_run_upd ainvD(5) [OF A]) (auto simp: running_def)
    show "inv_cur (cur(c := shown x)) ?pc" by (rule inv_cur_upd [OF ainvD(6) [OF A]])
    show "inv_intent (rec(i := Some ?r)) ?pc"
      using ainvD(7) [OF A] r b by (intro inv_intent_upd ainvD(7) [OF A]) (auto simp: inv_intent_def)
    show "inv_queue (rec(i := Some ?r)) ?pc q"
      using runnable_pid_upd [OF ainvD(1) [OF A] r(1), of ?r] runnable_pid_here [OF ainvD(1) [OF A] r(1)] r(2) s
      by (intro inv_queue_upd [OF ainvD(8) [OF A] c]) auto
    show "inv_latch (rec(i := Some ?r)) ?pc" using s r d win by (intro inv_latch_upd ainvD(9) [OF A]) auto
    show "inv_reap (rec(i := Some ?r)) ?pc" using f(8) s by (intro inv_reap_upd ainvD(10) [OF A]) auto
    show "inv_wait (rec(i := Some ?r)) ?pc" using r s by (intro inv_wait_upd ainvD(11) [OF A]) auto
    show "inv_deliver (rec(i := Some ?r)) ?pc"
      using other nd r s by (intro inv_deliver_upd ainvD(12) [OF A]) (auto simp: delivering_def)
    show "inv_pc ?pc" using c s by (intro inv_pc_upd ainvD(13) [OF A]) auto
  qed
qed

lemma ainv_create:
  assumes A: "ainv rec own cur pc q" and c: "c < MAX_CPUS" and r: "rec i = None"
    and new: "c_state r = Runnable" "\<not> c_pending r" "c_wait r = None"
    and fresh: "\<And>j s. rec j = Some s \<Longrightarrow> c_pid s \<noteq> c_pid r"
    and idle: "\<And>d st seed. pc d \<noteq> Reap st seed"
    and pc: "serves [c_pid r] (pc c) x"
  shows "ainv (rec(i := Some r)) (own(i := None)) (cur(c := shown x)) (pc(c := x)) q"
    (is "ainv ?rec ?own _ ?pc q")
proof -
  note s = pc [unfolded serves_def] and b = serves_blocking [OF pc]
  have held: "held (pc d) \<noteq> Some i" for d using ainvD(2) [OF A] r unfolding inv_held_def running_def by fastforce
  have sh: "held (pc c) = held x" and hc: "held x \<noteq> Some i" using held [of c] s by metis+
  have bl: "blocking (pc d) \<noteq> Some i" for d using held held_structure(1,2) by blast
  have ex: "exiting (pc d) \<noteq> Some i" for d using ainvD(4) [OF A] r unfolding inv_exit_def running_def by fastforce
  have run: "runnable_pid ?rec p \<longleftrightarrow> p = c_pid r \<or> runnable_pid rec p" for p
    using r new(1) unfolding runnable_pid_def by (auto split: if_splits) (metis option.distinct(1))
  have nrun: "\<not> runnable_pid rec (c_pid r)" using fresh by (auto simp: runnable_pid_def)
  have nd: "\<not> delivering (c_pid r) (pc d)" for d using inv_deliverD(2) [OF ainvD(12) [OF A]] fresh by blast
  have ndel: "pc d \<noteq> Deliver i ps pp w" "pc d \<noteq> Deliver a i pp w" for d a ps pp w
    using inv_deliverD(1) [OF ainvD(12) [OF A], of d] r by fastforce+
  show ?thesis
  proof (rule ainvI)
    show "inv_pids ?rec" using fresh by (intro inv_pids_upd ainvD(1) [OF A]) auto
    show "inv_held ?rec ?own ?pc" using held hc sh by (intro inv_held_upd ainvD(2) [OF A]) auto
    show "inv_own ?own ?pc" using sh by (intro inv_own_upd ainvD(3) [OF A]) auto
    show "inv_exit ?rec ?own ?pc" using ex s by (intro inv_exit_upd ainvD(4) [OF A]) auto
    show "inv_run ?rec ?own ?pc" using s new by (intro inv_run_upd ainvD(5) [OF A]) (auto simp: running_def)
    show "inv_cur (cur(c := shown x)) ?pc" by (rule inv_cur_upd [OF ainvD(6) [OF A]])
    show "inv_intent ?rec ?pc" using bl b by (intro inv_intent_upd ainvD(7) [OF A]) auto
    show "inv_queue ?rec ?pc q"
      using run nrun s by (intro inv_queue_upd [OF ainvD(8) [OF A] c]) auto
    show "inv_latch ?rec ?pc" using s new by (intro inv_latch_upd ainvD(9) [OF A]) auto
    show "inv_reap ?rec ?pc" using idle s by (intro inv_reap_upd ainvD(10) [OF A]) auto
    show "inv_wait ?rec ?pc" using new s by (intro inv_wait_upd ainvD(11) [OF A]) auto
    show "inv_deliver ?rec ?pc"
      using ndel nd r s by (intro inv_deliver_upd ainvD(12) [OF A]) (auto simp: delivering_def)
    show "inv_pc ?pc" using c s by (intro inv_pc_upd ainvD(13) [OF A]) auto
  qed
qed

section \<open>Waiting, exiting and burying\<close>

lemma ainv_register:
  assumes A: "ainv rec own cur pc q" and c: "c < MAX_CPUS" and pc: "pc c = Exec i"
    and r: "rec i = Some r" and wd: "wait_done rec spec (c_pid r)"
  shows "ainv (rec(i := Some (r\<lparr>c_wait := Some spec\<rparr>))) own cur (pc(c := WaitBlock i)) q"
    (is "ainv (rec(i := Some ?r)) own _ ?pc q")
proof -
  have h: "held (pc c) = Some i" using pc by simp
  note f = held_facts [OF A h]
  have run: "c_state r = Running" using f(2) r by simp
  have np: "\<not> parked rec pc i" using f(7) pc by auto
  note u = unparked [OF A r np]
  note other = deliver_other [OF A r _ u(2), simplified run, simplified]
  have dw: "\<not> delivering p (WaitBlock i)" for p by (simp add: delivering_def)
  have own: "own = own(i := Some c)" using f(1) by (simp add: fun_upd_idem)
  have cur: "cur = cur(c := shown (WaitBlock i))"
    using ainvD(6) [OF A] pc by (simp add: inv_cur_def fun_upd_idem)
  have zombie: "(rec(i := Some ?r)) j = Some z \<and> c_state z = Zombie \<longleftrightarrow> rec j = Some z \<and> c_state z = Zombie" for j z
    using r run by auto
  have wd': "wait_done (rec(i := Some ?r)) spec (c_pid r)"
    using wd zombie unfolding wait_done_def by (metis (no_types, lifting))
  show ?thesis
  proof (rule ainvI)
    show "inv_pids (rec(i := Some ?r))" using ainvD(1) [OF A] r by (intro inv_pids_upd) (auto simp: inv_pids_def)
    show "inv_held (rec(i := Some ?r)) own ?pc"
      using f(3) run by (subst own, intro inv_held_upd ainvD(2) [OF A]) (auto simp: running_def)
    show "inv_own own ?pc" using h by (subst own, intro inv_own_upd ainvD(3) [OF A]) auto
    show "inv_exit (rec(i := Some ?r)) own ?pc" using f(6) by (subst own, intro inv_exit_upd ainvD(4) [OF A]) auto
    show "inv_run (rec(i := Some ?r)) own ?pc" using pc by (subst own, intro inv_run_upd ainvD(5) [OF A]) auto
    show "inv_cur cur ?pc" by (subst cur, rule inv_cur_upd [OF ainvD(6) [OF A]])
    show "inv_intent (rec(i := Some ?r)) ?pc" using f(5) by (intro inv_intent_upd ainvD(7) [OF A]) auto
    show "inv_queue (rec(i := Some ?r)) ?pc q"
      using runnable_pid_upd [OF ainvD(1) [OF A] r, of ?r] runnable_pid_here [OF ainvD(1) [OF A] r] run pc
      by (intro inv_queue_upd [OF ainvD(8) [OF A] c]) auto
    show "inv_latch (rec(i := Some ?r)) ?pc" using u(3) pc by (intro inv_latch_upd ainvD(9) [OF A]) auto
    show "inv_reap (rec(i := Some ?r)) ?pc" using f(8) by (intro inv_reap_upd ainvD(10) [OF A]) auto
    show "inv_wait (rec(i := Some ?r)) ?pc"
      using u(2) pc dw wd' run by (intro inv_wait_upd ainvD(11) [OF A]) (auto simp: parked_upd split: if_splits)
    show "inv_deliver (rec(i := Some ?r)) ?pc"
      using other u(2) r pc by (intro inv_deliver_upd ainvD(12) [OF A]) (auto simp: delivering_def)
    show "inv_pc ?pc" using c by (intro inv_pc_upd ainvD(13) [OF A]) auto
  qed
qed

text \<open>A zombie's record goes away: it was collected, or its exit was delivered.\<close>

lemma ainv_remove:
  assumes A: "ainv rec own cur pc q" and c: "c < MAX_CPUS" and r: "rec i = Some z" "c_state z = Zombie"
    and nd: "\<And>d ps pp w. d \<noteq> c \<Longrightarrow> pc d \<noteq> Deliver i ps pp w"
    and x: "held x = held (pc c)" "exiting x = exiting (pc c)" "in_window x = in_window (pc c)"
      "blocking x = blocking (pc c)" "flying x = flying (pc c)" "\<And>p. delivering p x \<Longrightarrow> delivering p (pc c)"
      "\<And>a ps pp w. x \<noteq> Deliver a ps pp w" "\<And>st seed. x \<noteq> Reap st seed" "pc_ok x"
  shows "ainv (rec(i := None)) own (cur(c := shown x)) (pc(c := x)) q" (is "ainv ?rec own _ ?pc q")
proof -
  note f = resting_facts [OF A r(1), simplified r(2), simplified]
  have np: "\<not> parked rec pc i" using f(8) by simp
  note u = unparked [OF A r(1) np]
  have own: "own = own(i := None)" using f(1) by (simp add: fun_upd_idem)
  have hc: "held x \<noteq> Some i" "exiting x \<noteq> Some i" "blocking x \<noteq> Some i" using f(2,4,5) x by simp_all
  have run: "runnable_pid ?rec p \<longleftrightarrow> runnable_pid rec p" for p
    using r unfolding runnable_pid_def by (auto split: if_splits) (metis option.inject process_state.distinct(7))
  have ps: "pc d \<noteq> Deliver a i pp w" for d a pp w
  proof
    assume d: "pc d = Deliver a i pp w"
    then have "delivering (c_pid z) (pc d)" using inv_deliverD(1) [OF ainvD(12) [OF A] d] r by (auto simp: delivering_def)
    then show False using u(2) by blast
  qed
  have keep: "parked ?rec ?pc j" if "parked rec pc j" "j \<noteq> i" for j
    using parked_keep [OF that] x(3) by simp
  show ?thesis
  proof (rule ainvI)
    show "inv_pids ?rec" by (intro inv_pids_upd ainvD(1) [OF A]) auto
    show "inv_held ?rec own ?pc" using f(2) hc(1) x(1) [symmetric] by (subst own, intro inv_held_upd ainvD(2) [OF A]) auto
    show "inv_own own ?pc" using x(1) by (subst own, intro inv_own_upd ainvD(3) [OF A]) auto
    show "inv_exit ?rec own ?pc"
      unfolding inv_exit_def using ainvD(4) [OF A] f(5) x(2) unfolding inv_exit_def by (metis fun_upd_apply)
    show "inv_run ?rec own ?pc" using x(2) by (subst own, intro inv_run_upd ainvD(5) [OF A]) (auto simp: running_def)
    show "inv_cur (cur(c := shown x)) ?pc" by (rule inv_cur_upd [OF ainvD(6) [OF A]])
    show "inv_intent ?rec ?pc"
      unfolding inv_intent_def using ainvD(7) [OF A] x(4) unfolding inv_intent_def
      by (metis fun_upd_apply option.distinct(1))
    show "inv_queue ?rec ?pc q" using run x(5) by (intro inv_queue_upd [OF ainvD(8) [OF A] c]) auto
    show "inv_latch ?rec ?pc" using x(3) by (intro inv_latch_upd ainvD(9) [OF A]) auto
    show "inv_reap ?rec ?pc" using x(8) by (intro inv_reap_upd ainvD(10) [OF A]) auto
    show "inv_wait ?rec ?pc"
    proof (rule inv_wait_upd [OF ainvD(11) [OF A]])
      fix j s spec assume "rec j = Some s" "c_wait s = Some spec"
      then have "\<not> delivering (c_pid s) (pc c)" using ainvD(11) [OF A] unfolding inv_wait_alt by blast
      then show "\<not> delivering (c_pid s) x" using x(6) by blast
    qed (use x(3) in auto)
    show "inv_deliver ?rec ?pc"
    proof (rule inv_deliver_upd [OF ainvD(12) [OF A]])
      fix p assume "delivering p x"
      then have p: "delivering p (pc c)" by (rule x(6))
      then obtain j s where j: "rec j = Some s" "c_pid s = p" "\<not> c_pending s" "parked rec pc j"
        using inv_deliverD(2) [OF ainvD(12) [OF A]] by blast
      have ji: "j \<noteq> i" using j(4) np by auto
      then have "?rec j = Some s" using j(1) by simp
      moreover have "d \<noteq> c \<Longrightarrow> \<not> delivering p (pc d)" for d
        using inv_deliverD(3) [OF ainvD(12) [OF A]] p by blast
      ultimately show "(\<exists>j r. ?rec j = Some r \<and> c_pid r = p \<and> \<not> c_pending r \<and> parked ?rec ?pc j) \<and>
          (\<forall>d. d \<noteq> c \<longrightarrow> \<not> delivering p (pc d))"
        using keep [OF j(4) ji] j by blast
    qed (use x nd ps u(2) r in \<open>auto\<close>)
    show "inv_pc ?pc" using c x(9) by (intro inv_pc_upd ainvD(13) [OF A])
  qed
qed

text \<open>The slot of an exiting process belongs to the core that takes it down.\<close>

lemma exit_facts:
  assumes A: "ainv rec own cur pc q" and h: "exiting (pc c) = Some i"
  shows "own i = None" "\<exists>r. rec i = Some r \<and> c_state r = Running" "held (pc d) \<noteq> Some i"
    "in_window (pc d) \<noteq> Some i" "blocking (pc d) \<noteq> Some i" "exiting (pc d) = Some i \<Longrightarrow> d = c"
    "\<not> (pc d = Reap st seed \<and> (i = seed \<or> i \<in> set st))" "\<not> parked rec pc i"
proof -
  show own: "own i = None" and r: "\<exists>r. rec i = Some r \<and> c_state r = Running"
    using ainvD(4) [OF A] h by (auto simp: inv_exit_def running_def)
  show held: "held (pc d) \<noteq> Some i" for d using ainvD(2) [OF A] own by (force simp: inv_held_def)
  then show win: "in_window (pc d) \<noteq> Some i" for d using held_structure(1) by blast
  then show "blocking (pc d) \<noteq> Some i" using held_structure(2) by blast
  show "exiting (pc d) = Some i \<Longrightarrow> d = c" using ainvD(4) [OF A] h by (auto simp: inv_exit_def)
  show "\<not> (pc d = Reap st seed \<and> (i = seed \<or> i \<in> set st))" using ainvD(10) [OF A] r unfolding inv_reap_def by fastforce
  show "\<not> parked rec pc i" using r win by (auto simp: parked_def)
qed

lemma ainv_unwait:
  assumes A: "ainv rec own cur pc q" and s: "rec i = Some s"
  shows "ainv (rec(i := Some (s\<lparr>c_wait := None\<rparr>))) own cur pc q" (is "ainv ?rec own cur pc q")
proof -
  have get: "?rec j = Some t' \<longleftrightarrow> (\<exists>t. rec j = Some t \<and> t' = (if j = i then t\<lparr>c_wait := None\<rparr> else t))" for j t'
    using s by auto
  have run: "running (?rec j) = running (rec j)" for j using s by (auto simp: running_def)
  have par: "parked ?rec pc j = parked rec pc j" for j using s by (auto simp: parked_def)
  have runnable: "runnable_pid ?rec p = runnable_pid rec p" for p
    using runnable_pid_upd [OF ainvD(1) [OF A] s, of "s\<lparr>c_wait := None\<rparr>" p] runnable_pid_here [OF ainvD(1) [OF A] s] by auto
  have wd: "wait_done rec spec p \<Longrightarrow> wait_done ?rec spec p" for spec p
    unfolding wait_done_def using s by auto
  have none: "?rec j = None \<longleftrightarrow> rec j = None" for j using s by auto
  show ?thesis
  proof (rule ainvI)
    show "inv_pids ?rec" using ainvD(1) [OF A] s by (intro inv_pids_upd) (auto simp: inv_pids_def)
    show "inv_held ?rec own pc" using ainvD(2) [OF A] unfolding inv_held_def run .
    show "inv_exit ?rec own pc" using ainvD(4) [OF A] unfolding inv_exit_def run .
    show "inv_run ?rec own pc" using ainvD(5) [OF A] unfolding inv_run_def run .
    show "inv_intent ?rec pc" using ainvD(7) [OF A] unfolding inv_intent_def get by force
    show "inv_queue ?rec pc q" using ainvD(8) [OF A] unfolding inv_queue_def runnable .
    show "inv_latch ?rec pc" using ainvD(9) [OF A] unfolding inv_latch_def get by force
    show "inv_reap ?rec pc" using ainvD(10) [OF A] unfolding inv_reap_def none .
    show "inv_wait ?rec pc"
      unfolding inv_wait_alt par
    proof (intro allI impI)
      fix j t spec assume "?rec j = Some t" "c_wait t = Some spec"
      then have "rec j = Some t" by (auto split: if_splits)
      then show "parked rec pc j \<and> (\<forall>d. \<not> delivering (c_pid t) (pc d)) \<and> wait_done ?rec spec (c_pid t)"
        using ainvD(11) [OF A] wd \<open>c_wait t = Some spec\<close> unfolding inv_wait_alt by blast
    qed
    show "inv_deliver ?rec pc"
    proof -
      have "\<exists>z r. ?rec a = Some z \<and> c_state z = Zombie \<and> c_parent z = Some pp \<and> ?rec ps = Some r \<and> c_pid r = pp"
        if "pc d = Deliver a ps pp w" for d a ps pp w
        using inv_deliverD(1) [OF ainvD(12) [OF A] that] s by (cases "a = i"; cases "ps = i") auto
      moreover have "\<exists>j r. ?rec j = Some r \<and> c_pid r = p \<and> \<not> c_pending r \<and> parked ?rec pc j" if d: "delivering p (pc d)" for d p
      proof -
        obtain j r where j: "rec j = Some r" "c_pid r = p" "\<not> c_pending r" "parked rec pc j"
          using inv_deliverD(2) [OF ainvD(12) [OF A] d] by blast
        then show ?thesis using s unfolding par by (intro exI [of _ j]) auto
      qed
      ultimately show ?thesis using inv_deliverD(3) [OF ainvD(12) [OF A]] unfolding inv_deliver_def by blast
    qed
  qed (use ainvD(3,6,13) [OF A] in simp_all)
qed

lemma ainv_zombie:
  assumes A: "ainv rec own cur pc q" and c: "c < MAX_CPUS" and pc: "pc c = ExitPlan i st" and r: "rec i = Some r"
    and quiet: "\<And>j s spec. rec j = Some s \<Longrightarrow> c_wait s = Some spec \<Longrightarrow> c_parent r = Some (c_pid s) \<Longrightarrow>
      \<not> ws_matches spec (c_pid r)"
    and x: "x = Pick \<or> (\<exists>ps pp w s. x = Deliver i ps pp w \<and> c_parent r = Some pp \<and> rec ps = Some s \<and> c_pid s = pp \<and>
      \<not> c_pending s \<and> c_wait s = None \<and> parked rec pc ps \<and> (\<forall>d. \<not> delivering pp (pc d)))"
  shows "ainv (rec(i := Some (r\<lparr>c_state := Zombie, c_code := Some st'\<rparr>))) own cur (pc(c := x)) q"
    (is "ainv (rec(i := Some ?r)) own cur ?pc q")
proof -
  have h: "exiting (pc c) = Some i" using pc by simp
  note f = exit_facts [OF A h]
  note u = unparked [OF A r f(8)]
  have run: "c_state r = Running" using f(2) r by simp
  note other = deliver_other [OF A r _ u(2), simplified run, simplified]
  have own: "own = own(i := None)" using f(1) by (simp add: fun_upd_idem)
  have sx: "held x = None" "exiting x = None" "shown x = None" "blocking x = None" "in_window x = None" "flying x = []"
    "pc_ok x" "x \<noteq> Reap st1 seed" for st1 seed
    using x by auto
  have cur: "cur = cur(c := shown x)" using ainvD(6) [OF A] pc sx by (simp add: inv_cur_def fun_upd_idem)
  have dd: "\<not> delivering p Pick" "delivering p (Deliver a ps pp w) \<longleftrightarrow> pp = p" for p a ps pp w
    by (simp_all add: delivering_def)
  have dx: "delivering p x \<Longrightarrow> \<exists>ps s. c_parent r = Some p \<and> rec ps = Some s \<and> c_pid s = p \<and> \<not> c_pending s \<and>
      c_wait s = None \<and> parked rec pc ps \<and> (\<forall>d. \<not> delivering p (pc d))" for p
    using x dd(1) [of p] dd(2) [of p] by metis
  show ?thesis
  proof (rule ainvI)
    show "inv_pids (rec(i := Some ?r))" using ainvD(1) [OF A] r by (intro inv_pids_upd) (auto simp: inv_pids_def)
    show "inv_held (rec(i := Some ?r)) own ?pc"
      using f(3) sx by (subst own, intro inv_held_upd ainvD(2) [OF A]) auto
    show "inv_own own ?pc" using pc by (subst own, intro inv_own_upd ainvD(3) [OF A]) auto
    show "inv_exit (rec(i := Some ?r)) own ?pc" using f(6) sx by (subst own, intro inv_exit_upd ainvD(4) [OF A]) auto
    show "inv_run (rec(i := Some ?r)) own ?pc" using pc by (subst own, intro inv_run_upd ainvD(5) [OF A]) (auto simp: running_def)
    show "inv_cur cur ?pc" by (subst cur, rule inv_cur_upd [OF ainvD(6) [OF A]])
    show "inv_intent (rec(i := Some ?r)) ?pc" using f(5) sx by (intro inv_intent_upd ainvD(7) [OF A]) auto
    show "inv_queue (rec(i := Some ?r)) ?pc q"
      using runnable_pid_upd [OF ainvD(1) [OF A] r, of ?r] runnable_pid_here [OF ainvD(1) [OF A] r] run pc sx
      by (intro inv_queue_upd [OF ainvD(8) [OF A] c]) auto
    show "inv_latch (rec(i := Some ?r)) ?pc" using u(3) pc by (intro inv_latch_upd ainvD(9) [OF A]) auto
    show "inv_reap (rec(i := Some ?r)) ?pc" using f(7) x by (intro inv_reap_upd ainvD(10) [OF A]) auto
    show "inv_wait (rec(i := Some ?r)) ?pc"
    proof (rule inv_wait_upd [OF ainvD(11) [OF A]])
      fix j s spec assume "rec j = Some s" "c_wait s = Some spec"
      then show "\<not> delivering (c_pid s) x"
        using dx [of "c_pid s"] ainvD(1) [OF A] unfolding inv_pids_def by (metis option.distinct(1) option.inject)
    qed (use u pc quiet in auto)
    show "inv_deliver (rec(i := Some ?r)) ?pc"
    proof (rule inv_deliver_upd [OF ainvD(12) [OF A]])
      fix a ps pp w assume "x = Deliver a ps pp w"
      then have "a = i" "c_parent r = Some pp" "\<exists>s. rec ps = Some s \<and> c_pid s = pp" using x by auto
      then show "\<exists>z r. (rec(i := Some ?r)) a = Some z \<and> c_state z = Zombie \<and> c_parent z = Some pp \<and>
          (rec(i := Some ?r)) ps = Some r \<and> c_pid r = pp" using r by (cases "ps = i") auto
    next
      fix p assume "delivering p x"
      then obtain ps s where s: "rec ps = Some s" "c_pid s = p" "\<not> c_pending s" "parked rec pc ps" "\<forall>d. \<not> delivering p (pc d)"
        using dx by blast
      have ps: "ps \<noteq> i" using s(4) f(8) by auto
      have "parked (rec(i := Some ?r)) ?pc ps" using parked_keep [OF s(4) ps, of c x] pc by simp
      then show "(\<exists>j r. (rec(i := Some ?r)) j = Some r \<and> c_pid r = p \<and> \<not> c_pending r \<and> parked (rec(i := Some ?r)) ?pc j) \<and>
          (\<forall>d. d \<noteq> c \<longrightarrow> \<not> delivering p (pc d))"
        using s ps by (metis fun_upd_apply)
    qed (use other u(2) r pc in auto)
    show "inv_pc ?pc" using c sx by (intro inv_pc_upd ainvD(13) [OF A])
  qed
qed

lemma ainv_doom:
  assumes A: "ainv rec own cur pc q" and c: "c < MAX_CPUS" and pc: "pc c = ExitPlan i st" and r: "rec i = Some r"
  shows "ainv (rec(i := Some (r\<lparr>c_code := Some st'\<rparr>))) own cur (pc(c := ReapSeed i)) q"
    (is "ainv (rec(i := Some ?r)) own cur ?pc q")
proof -
  have h: "exiting (pc c) = Some i" using pc by simp
  note f = exit_facts [OF A h]
  note u = unparked [OF A r f(8)]
  have run: "c_state r = Running" using f(2) r by simp
  note other = deliver_other [OF A r _ u(2), simplified run, simplified]
  have own: "own = own(i := None)" using f(1) by (simp add: fun_upd_idem)
  have cur: "cur = cur(c := shown (ReapSeed i))" using ainvD(6) [OF A] pc by (simp add: inv_cur_def fun_upd_idem)
  show ?thesis
  proof (rule ainvI)
    show "inv_pids (rec(i := Some ?r))" using ainvD(1) [OF A] r by (intro inv_pids_upd) (auto simp: inv_pids_def)
    show "inv_held (rec(i := Some ?r)) own ?pc"
      using f(3) by (subst own, intro inv_held_upd ainvD(2) [OF A]) auto
    show "inv_own own ?pc" using pc by (subst own, intro inv_own_upd ainvD(3) [OF A]) auto
    show "inv_exit (rec(i := Some ?r)) own ?pc"
      using f(6) run by (subst own, intro inv_exit_upd ainvD(4) [OF A]) (auto simp: running_def)
    show "inv_run (rec(i := Some ?r)) own ?pc" using pc by (subst own, intro inv_run_upd ainvD(5) [OF A]) (auto simp: running_def)
    show "inv_cur cur ?pc" by (subst cur, rule inv_cur_upd [OF ainvD(6) [OF A]])
    show "inv_intent (rec(i := Some ?r)) ?pc" using f(5) by (intro inv_intent_upd ainvD(7) [OF A]) auto
    show "inv_queue (rec(i := Some ?r)) ?pc q"
      using runnable_pid_upd [OF ainvD(1) [OF A] r, of ?r] runnable_pid_here [OF ainvD(1) [OF A] r] run pc
      by (intro inv_queue_upd [OF ainvD(8) [OF A] c]) auto
    show "inv_latch (rec(i := Some ?r)) ?pc" using u(3) pc by (intro inv_latch_upd ainvD(9) [OF A]) auto
    show "inv_reap (rec(i := Some ?r)) ?pc" using f(7) by (intro inv_reap_upd ainvD(10) [OF A]) auto
    show "inv_wait (rec(i := Some ?r)) ?pc"
      using u pc run by (intro inv_wait_upd ainvD(11) [OF A]) (auto simp: delivering_def)
    show "inv_deliver (rec(i := Some ?r)) ?pc"
      using other u(2) r pc by (intro inv_deliver_upd ainvD(12) [OF A]) (auto simp: delivering_def)
    show "inv_pc ?pc" using c by (intro inv_pc_upd ainvD(13) [OF A]) auto
  qed
qed

text \<open>
  The first round of \<open>full_reap\<close>: the exiting record and its zombie children go away, its other
  children get another parent.
\<close>

definition reaped :: "recs \<Rightarrow> nat \<Rightarrow> pcore \<Rightarrow> recs \<Rightarrow> bool" where
  "reaped rec i r rec' \<longleftrightarrow> rec i = Some r \<and> rec' i = None \<and>
     (\<forall>j s'. rec' j = Some s' \<longrightarrow> (\<exists>s. rec j = Some s \<and> c_pid s' = c_pid s \<and> c_state s' = c_state s \<and>
        c_intent s' = c_intent s \<and> c_pending s' = c_pending s \<and> c_wait s' = c_wait s \<and>
        (c_state s = Zombie \<longrightarrow> s' = s))) \<and>
     (\<forall>j s. rec j = Some s \<longrightarrow> rec' j = None \<longrightarrow> j \<noteq> i \<longrightarrow> c_state s = Zombie \<and> c_parent s = Some (c_pid r))"

lemma reaped_kept:
  "reaped rec i r rec' \<Longrightarrow> rec' j = Some s' \<Longrightarrow> \<exists>s. rec j = Some s \<and> c_pid s' = c_pid s \<and> c_state s' = c_state s \<and>
    c_intent s' = c_intent s \<and> c_pending s' = c_pending s \<and> c_wait s' = c_wait s \<and> (c_state s = Zombie \<longrightarrow> s' = s)"
  unfolding reaped_def by blast

lemma reaped_stay:
  assumes R: "reaped rec i r rec'" and j: "rec j = Some s" "j \<noteq> i" "c_state s = Zombie \<Longrightarrow> c_parent s \<noteq> Some (c_pid r)"
  shows "\<exists>s'. rec' j = Some s' \<and> c_pid s' = c_pid s \<and> c_state s' = c_state s \<and> c_pending s' = c_pending s \<and>
      (c_state s = Zombie \<longrightarrow> s' = s)"
proof -
  obtain s' where "rec' j = Some s'" using R j unfolding reaped_def by blast
  then show ?thesis using reaped_kept [OF R, of j s'] j(1) by auto
qed

lemma reaped_runnable:
  assumes R: "reaped rec i r rec'" and run: "c_state r = Running"
  shows "runnable_pid rec' p = runnable_pid rec p"
proof
  show "runnable_pid rec' p \<Longrightarrow> runnable_pid rec p" using reaped_kept [OF R] unfolding runnable_pid_def by fastforce
  assume "runnable_pid rec p"
  then obtain j s where j: "rec j = Some s" "c_pid s = p" "c_state s = Runnable" unfolding runnable_pid_def by blast
  then have "j \<noteq> i" using R run by (auto simp: reaped_def)
  then show "runnable_pid rec' p" using reaped_stay [OF R, of j s] j unfolding runnable_pid_def by auto
qed

lemma inv_wait_reaped:
  assumes R: "reaped rec i r rec'" and "inv_wait rec pc" and park: "\<And>j. parked rec pc j \<Longrightarrow> parked rec' pc' j"
    and view: "\<And>p d. delivering p (pc' d) = delivering p (pc d)"
  shows "inv_wait rec' pc'"
  unfolding inv_wait_alt view
proof (intro allI impI)
  fix j s' spec assume s': "rec' j = Some s'" "c_wait s' = Some spec"
  then obtain s where s: "rec j = Some s" "c_pid s' = c_pid s" "c_wait s = Some spec" using reaped_kept [OF R s'(1)] by auto
  then have old: "parked rec pc j" "\<forall>d. \<not> delivering (c_pid s) (pc d)" "wait_done rec spec (c_pid s)"
    using assms(2) unfolding inv_wait_alt by blast+
  have "rec' k = Some z \<and> c_state z = Zombie \<Longrightarrow> rec k = Some z" for k z using reaped_kept [OF R, of k z] by auto
  then have "wait_done rec' spec (c_pid s)" using old(3) unfolding wait_done_def by blast
  then show "parked rec' pc' j \<and> (\<forall>d. \<not> delivering (c_pid s') (pc d)) \<and> wait_done rec' spec (c_pid s')"
    using old park s(2) by simp
qed

lemma inv_deliver_reaped:
  assumes A: "ainv rec own cur pc q" and R: "reaped rec i r rec'" and u: "\<And>d. \<not> delivering (c_pid r) (pc d)"
    and run: "c_state r = Running" and park: "\<And>j. parked rec pc j \<Longrightarrow> parked rec' pc' j"
    and view: "\<And>p d. delivering p (pc' d) = delivering p (pc d)"
      "\<And>d a ps pp w. pc' d = Deliver a ps pp w \<longleftrightarrow> pc d = Deliver a ps pp w"
  shows "inv_deliver rec' pc'"
proof -
  note D = inv_deliverD [OF ainvD(12) [OF A]]
  have ri: "rec i = Some r" using R by (simp add: reaped_def)
  have live: "\<exists>k t'. rec' k = Some t' \<and> c_pid t' = p \<and> \<not> c_pending t' \<and> parked rec' pc' k"
    if d: "delivering p (pc d)" for d p
  proof -
    obtain k t where k: "rec k = Some t" "c_pid t = p" "\<not> c_pending t" "parked rec pc k" using D(2) [OF d] by blast
    then have "k \<noteq> i" using u d ri by auto
    moreover have "c_state t \<noteq> Zombie"
      using k(4) ainvD(2) [OF A] k(1) held_structure(1) unfolding parked_def inv_held_def running_def by fastforce
    ultimately show ?thesis using reaped_stay [OF R, of k t] k park [OF k(4)] by auto
  qed
  have "\<exists>z t. rec' a = Some z \<and> c_state z = Zombie \<and> c_parent z = Some pp \<and> rec' ps = Some t \<and> c_pid t = pp"
    if d: "pc d = Deliver a ps pp w" for d a ps pp w
  proof -
    obtain z t where z: "rec a = Some z" "c_state z = Zombie" "c_parent z = Some pp" "rec ps = Some t" "c_pid t = pp"
      using D(1) [OF d] by blast
    have del: "delivering pp (pc d)" using d by (simp add: delivering_def)
    have "a \<noteq> i" "pp \<noteq> c_pid r" using z ri run u del by auto
    then have a: "rec' a = Some z" using reaped_stay [OF R, of a z] z by auto
    obtain k t' where t': "rec' k = Some t'" "c_pid t' = pp" using live [OF del] by blast
    then obtain t0 where "rec k = Some t0" "c_pid t0 = pp" using reaped_kept [OF R t'(1)] by auto
    then have "k = ps" using ainvD(1) [OF A] z unfolding inv_pids_def by metis
    then show ?thesis using a z t' by auto
  qed
  then show ?thesis using live D(3) unfolding inv_deliver_def view by blast
qed

lemma ainv_reap:
  assumes A: "ainv rec own cur pc q" and c: "c < MAX_CPUS" and pc: "pc c = ReapSeed i"
    and R: "reaped rec i r rec'" and st: "\<And>j. j \<in> set st \<Longrightarrow> rec' j = None"
  shows "ainv rec' own cur (pc(c := Reap st i)) q" (is "ainv rec' own cur ?pc q")
proof -
  have h: "exiting (pc c) = Some i" using pc by simp
  note f = exit_facts [OF A h] and kept = reaped_kept [OF R] and stay = reaped_stay [OF R]
  have ri: "rec i = Some r" "rec' i = None" using R by (auto simp: reaped_def)
  have run: "c_state r = Running" using f(2) ri by simp
  note u = unparked [OF A ri(1) f(8)]
  have gone: "rec j = None \<Longrightarrow> rec' j = None" for j using kept [of j] by (cases "rec' j") auto
  have shrink: "running (rec' j) \<Longrightarrow> running (rec j) \<and> j \<noteq> i" for j using kept [of j] ri by (auto simp: running_def)
  have grow: "running (rec j) \<Longrightarrow> j \<noteq> i \<Longrightarrow> running (rec' j)" for j using stay [of j] unfolding running_def by fastforce
  have view: "held (?pc d) = held (pc d)" "in_window (?pc d) = in_window (pc d)" "blocking (?pc d) = blocking (pc d)"
    "flying (?pc d) = flying (pc d)" "shown (?pc d) = shown (pc d)" "delivering p (?pc d) = delivering p (pc d)"
    "?pc d = Deliver a ps pp w \<longleftrightarrow> pc d = Deliver a ps pp w" for d p a ps pp w
    using pc by (auto simp: delivering_def)
  have ex: "exiting (?pc d) = Some j \<longleftrightarrow> exiting (pc d) = Some j \<and> j \<noteq> i" for d j
  proof (cases "d = c")
    case False
    then show ?thesis using f(6) [of d] by auto
  qed (use h in simp)
  have park: "parked rec pc j \<Longrightarrow> parked rec' ?pc j" for j
    using stay [of j] ri run unfolding parked_def view by fastforce
  show ?thesis
  proof (rule ainvI)
    show "inv_pids rec'" using ainvD(1) [OF A] kept unfolding inv_pids_def by metis
    show "inv_held rec' own ?pc" using ainvD(2) [OF A] grow f(3) unfolding inv_held_def view by blast
    show "inv_own own ?pc" using ainvD(3) [OF A] unfolding inv_own_def view .
    show "inv_exit rec' own ?pc"
      unfolding inv_exit_def ex
    proof (intro conjI allI impI; elim conjE)
      fix d j assume "exiting (pc d) = Some j" "j \<noteq> i"
      then show "own j = None" "running (rec' j)" using ainvD(4) [OF A] grow unfolding inv_exit_def by blast+
    next
      fix d d' j assume "exiting (pc d) = Some j" "exiting (pc d') = Some j"
      then show "d = d'" using ainvD(4) [OF A] unfolding inv_exit_def by blast
    qed
    show "inv_run rec' own ?pc"
      unfolding inv_run_def ex
    proof (intro allI impI)
      fix j assume "running (rec' j)"
      then show "own j \<noteq> None \<or> (\<exists>d. exiting (pc d) = Some j \<and> j \<noteq> i)"
        using ainvD(5) [OF A] shrink [of j] unfolding inv_run_def by blast
    qed
    show "inv_cur cur ?pc" using ainvD(6) [OF A] unfolding inv_cur_def view .
    show "inv_intent rec' ?pc" using ainvD(7) [OF A] kept unfolding inv_intent_def view by metis
    show "inv_queue rec' ?pc q"
      using ainvD(8) [OF A] unfolding inv_queue_def reaped_runnable [OF R run] in_flight_def view .
    show "inv_latch rec' ?pc" using ainvD(9) [OF A] kept unfolding inv_latch_def view by metis
    show "inv_reap rec' ?pc" unfolding inv_reap_def
    proof (intro allI impI)
      fix d st1 seed j assume "?pc d = Reap st1 seed" "j = seed \<or> j \<in> set st1"
      then show "rec' j = None"
        using st ri(2) ainvD(10) [OF A] gone unfolding inv_reap_def by (cases "d = c") auto
    qed
    show "inv_wait rec' ?pc" by (rule inv_wait_reaped [OF R ainvD(11) [OF A] park view(6)])
    show "inv_deliver rec' ?pc" by (rule inv_deliver_reaped [OF A R u(2) run park view(6,7)])
    show "inv_pc ?pc" using c by (intro inv_pc_upd ainvD(13) [OF A]) auto
  qed
qed

end
