(* ===== verification/Smp_Events.thy ===== *)
theory Smp_Events
  imports Smp_Steps
begin

text \<open>
  The kernel state is related to the abstract view of \<open>Smp_Invariant\<close>; the events of hand-offs,
  wakes, pushes and creations are shown to return and to keep the invariant.
\<close>

section \<open>The abstract view of a kernel state\<close>

definition a_rec :: "'a ptable_scheme \<Rightarrow> recs" where
  "a_rec k i = map_option core (pt_get k i)"

definition a_own :: "'a ptable_scheme \<Rightarrow> owns" where
  "a_own k i = (if pt_own k i = PROCESS_OWNER_NONE then None else Some (unat (pt_own k i)))"

definition a_cur :: "'a sched_scheme \<Rightarrow> nat \<Rightarrow> nat option" where
  "a_cur k c = (if c < MAX_CPUS then sc_current k ! c else None)"

definition a_pc :: "smp \<Rightarrow> pcs" where
  "a_pc s c = (if c < MAX_CPUS then sm_pc s ! c else Pick)"

definition a_queue :: "'a sched_scheme \<Rightarrow> pid multiset" where
  "a_queue k = mset (mlfq_all (sc_queue k))"

text \<open>Array lengths and the well-formedness of table and queue.\<close>

definition k_ok :: "'a sched_scheme \<Rightarrow> bool" where
  "k_ok k \<longleftrightarrow> pt_wf k \<and> mlfq_wf (sc_queue k) \<and> length (sc_current k) = MAX_CPUS \<and>
     length (sc_level k) = MAX_PROCESSES \<and> length (sc_slice k) = MAX_PROCESSES"

definition kern :: "nat \<Rightarrow> 'a sched_scheme \<Rightarrow> recs \<Rightarrow> owns \<Rightarrow> (nat \<Rightarrow> nat option) \<Rightarrow> pid multiset \<Rightarrow> bool" where
  "kern n k rec own cur q \<longleftrightarrow> n \<le> length (pt_table k) \<and> k_ok k \<and> a_rec k = rec \<and> a_own k = own \<and> a_cur k = cur \<and> a_queue k = q"

definition size_of :: "smp \<Rightarrow> nat" where
  "size_of s = length (pt_table (sm_k s))"

text \<open>The slots that a core will still visit are within the table, which never shrinks.\<close>

definition reap_range :: "nat \<Rightarrow> cpu_pc \<Rightarrow> bool" where
  "reap_range n pc = (case pc of Reap st seed \<Rightarrow> \<forall>j \<in> set st. j < n | _ \<Rightarrow> True)"

definition smp_inv :: "smp \<Rightarrow> bool" where
  "smp_inv s \<longleftrightarrow> length (sm_pc s) = MAX_CPUS \<and> k_ok (sm_k s) \<and> (\<forall>c. reap_range (size_of s) (a_pc s c)) \<and>
     ainv (a_rec (sm_k s)) (a_own (sm_k s)) (a_cur (sm_k s)) (a_pc s) (a_queue (sm_k s))"

lemma reap_range_simps [simp]:
  "reap_range n Pick" "reap_range n (Claim p)" "reap_range n (Enter i)" "reap_range n (Exec i)" "reap_range n (WaitBlock i)"
  "reap_range n (PushThen p l x)" "reap_range n (ExitPlan i st)" "reap_range n (ReapSeed i)" "reap_range n (WakeParent p)"
  "reap_range n (Deliver i ps p w)" "reap_range n (Reap stack i) \<longleftrightarrow> (\<forall>j \<in> set stack. j < n)" "may_serve x \<Longrightarrow> reap_range n x"
  by (auto simp: reap_range_def may_serve_def split: cpu_pc.splits)

lemma reap_range_mono: "reap_range n pc \<Longrightarrow> n \<le> m \<Longrightarrow> reap_range m pc"
  by (auto simp: reap_range_def split: cpu_pc.splits)

lemma smp_invI:
  assumes s: "smp_inv s" and K: "kern (size_of s) k rec own cur q"
    and A: "ainv rec own cur ((a_pc s)(c := x)) q" and c: "c < MAX_CPUS" and x: "reap_range (size_of s) x"
  shows "smp_inv (goto c x k s)"
proof -
  have "length (sm_pc s) = MAX_CPUS" using s by (simp add: smp_inv_def)
  then have pc: "a_pc (goto c x k s) = (a_pc s)(c := x)" using c by (auto simp: a_pc_def goto_def fun_eq_iff)
  have len: "size_of s \<le> size_of (goto c x k s)" using K by (simp add: kern_def size_of_def goto_def)
  have "reap_range (size_of (goto c x k s)) (a_pc (goto c x k s) d)" for d
    unfolding pc using s x reap_range_mono [OF _ len] by (simp add: smp_inv_def)
  then show ?thesis using s K A pc by (auto simp: smp_inv_def kern_def goto_def)
qed

lemma kern_self: "k_ok k \<Longrightarrow> n \<le> length (pt_table k) \<Longrightarrow> kern n k (a_rec k) (a_own k) (a_cur k) (a_queue k)"
  by (simp add: kern_def)

lemma core_simps [simp]:
  "c_pid (core r) = p_pid r" "c_state (core r) = p_state r" "c_intent (core r) = p_block_intent r"
  "c_pending (core r) = p_wake_pending r" "c_wait (core r) = p_wait_target r" "c_parent (core r) = p_parent r"
  "c_code (core r) = p_exit_code r"
  by (simp_all add: core_def)

lemma a_rec_Some: "a_rec k i = Some r \<longleftrightarrow> (\<exists>p. pt_get k i = Some p \<and> r = core p)"
  by (auto simp: a_rec_def)

lemma cpu_word: "c < MAX_CPUS \<Longrightarrow> unat (of_nat c :: u8) = c" "c < MAX_CPUS \<Longrightarrow> (of_nat c :: u8) \<noteq> PROCESS_OWNER_NONE"
proof -
  assume "c < MAX_CPUS"
  then have c: "c \<in> {0, 1, 2, 3}" by (auto simp: MAX_CPUS_def)
  then show "unat (of_nat c :: u8) = c" "(of_nat c :: u8) \<noteq> PROCESS_OWNER_NONE" by (auto simp: PROCESS_OWNER_NONE_def)
qed

lemma own_word:
  assumes "a_own k i = Some c"
  shows "pt_own k i = of_nat c"
  using assms by (auto simp: a_own_def split: if_splits)

lemma own_free: "a_own k i = None \<longleftrightarrow> pt_own k i = PROCESS_OWNER_NONE"
  by (simp add: a_own_def)

section \<open>Updates of the kernel state\<close>

lemma k_ok_index: "k_ok k \<Longrightarrow> pt_get k i = Some r \<Longrightarrow> i < length (pt_owner k) \<and> i < MAX_PROCESSES"
  using pt_wf_index [of k i r] by (auto simp: k_ok_def pt_wf_def)

lemma pt_modify_more [simp]:
  "sc_queue (pt_modify i f k) = sc_queue k" "sc_current (pt_modify i f k) = sc_current k"
  "sc_level (pt_modify i f k) = sc_level k" "sc_slice (pt_modify i f k) = sc_slice k"
  "sc_queue (pt_set i e k) = sc_queue k" "sc_current (pt_set i e k) = sc_current k"
  "sc_level (pt_set i e k) = sc_level k" "sc_slice (pt_set i e k) = sc_slice k"
  "sc_queue (own_set i w k) = sc_queue k" "sc_current (own_set i w k) = sc_current k"
  "sc_level (own_set i w k) = sc_level k" "sc_slice (own_set i w k) = sc_slice k"
  by (simp_all add: pt_modify_def pt_set_def own_set_def)

lemma view_simps [simp]:
  "a_rec (pt_modify i f k) = (a_rec k)(i := map_option (core \<circ> f) (pt_get k i))"
  "a_own (pt_modify i f k) = a_own k" "a_cur (pt_modify i f ks) = a_cur ks" "a_queue (pt_modify i f ks) = a_queue ks"
  "a_rec (pt_set i None k) = (a_rec k)(i := None)"
  "a_own (pt_set i e k) = a_own k" "a_cur (pt_set i e ks) = a_cur ks" "a_queue (pt_set i e ks) = a_queue ks"
  "a_rec (own_set i w k) = a_rec k" "a_cur (own_set i w ks) = a_cur ks" "a_queue (own_set i w ks) = a_queue ks"
  by (auto simp: a_rec_def a_own_def a_cur_def a_queue_def fun_eq_iff option.map_comp) (auto simp: pt_get_def)

lemma view_other [simp]:
  "a_rec (sc_current_update g ks) = a_rec ks" "a_own (sc_current_update g ks) = a_own ks"
  "a_queue (sc_current_update g ks) = a_queue ks"
  "a_rec (sc_idle_update h ks) = a_rec ks" "a_own (sc_idle_update h ks) = a_own ks"
  "a_cur (sc_idle_update h ks) = a_cur ks" "a_queue (sc_idle_update h ks) = a_queue ks"
  "a_rec (sc_level_update l ks) = a_rec ks" "a_own (sc_level_update l ks) = a_own ks"
  "a_cur (sc_level_update l ks) = a_cur ks" "a_queue (sc_level_update l ks) = a_queue ks"
  "a_rec (sc_slice_update v ks) = a_rec ks" "a_own (sc_slice_update v ks) = a_own ks"
  "a_cur (sc_slice_update v ks) = a_cur ks" "a_queue (sc_slice_update v ks) = a_queue ks"
  "a_rec (pt_frames_update u ks) = a_rec ks" "a_own (pt_frames_update u ks) = a_own ks"
  "a_cur (pt_frames_update u ks) = a_cur ks" "a_queue (pt_frames_update u ks) = a_queue ks"
  "a_rec (sc_queue_update m ks) = a_rec ks" "a_own (sc_queue_update m ks) = a_own ks"
  "a_cur (sc_queue_update m ks) = a_cur ks"
  by (simp_all add: a_rec_def a_own_def a_cur_def a_queue_def fun_eq_iff pt_get_def pt_own_def)

lemma pt_wf_other [simp]:
  "pt_wf (sc_current_update g ks) = pt_wf ks" "pt_wf (sc_idle_update h ks) = pt_wf ks"
  "pt_wf (sc_level_update l ks) = pt_wf ks" "pt_wf (sc_slice_update v ks) = pt_wf ks"
  "pt_wf (sc_queue_update m ks) = pt_wf ks"
  by (simp_all add: pt_wf_def pt_get_def)

lemma kern_modify:
  assumes K: "kern n k rec own cur q" and r: "pt_get k i = Some r"
    and f: "\<And>r. p_pid (f r) = p_pid r" "\<And>r. p_slot (f r) = p_slot r"
  shows "kern n (pt_modify i f k) (rec(i := Some (core (f r)))) own cur q"
  using K r pt_wf_modify [OF _ f, of k i] by (auto simp: kern_def k_ok_def)

lemma kern_remove:
  assumes K: "kern n k rec own cur q"
  shows "kern n (pt_set i None k) (rec(i := None)) own cur q"
  using K pt_wf_remove [of k i] by (auto simp: kern_def k_ok_def)

lemma a_own_set:
  assumes i: "i < length (pt_owner k)"
  shows "a_own (own_set i PROCESS_OWNER_NONE k) = (a_own k)(i := None)"
    "c < MAX_CPUS \<Longrightarrow> a_own (own_set i (of_nat c) k) = (a_own k)(i := Some c)"
  using i cpu_word [of c] by (auto simp: a_own_def fun_eq_iff)

lemma kern_own_set:
  assumes K: "kern n k rec own cur q" and i: "i < length (pt_owner k)"
  shows "kern n (own_set i PROCESS_OWNER_NONE k) rec (own(i := None)) cur q"
    "c < MAX_CPUS \<Longrightarrow> kern n (own_set i (of_nat c) k) rec (own(i := Some c)) cur q"
  using K i by (auto simp: kern_def k_ok_def a_own_set)

lemma kern_current:
  assumes "kern n k rec own cur q" and "c < MAX_CPUS"
  shows "kern n (k\<lparr>sc_current := (sc_current k)[c := v]\<rparr>) rec own (cur(c := v)) q"
proof -
  have "length (sc_current k) = MAX_CPUS" using assms(1) by (simp add: kern_def k_ok_def)
  then have "a_cur (k\<lparr>sc_current := (sc_current k)[c := v]\<rparr>) = (a_cur k)(c := v)"
    using assms(2) by (auto simp: a_cur_def fun_eq_iff)
  then show ?thesis using assms by (auto simp: kern_def k_ok_def)
qed

lemma kern_idle [simp]: "kern n (sc_idle_update f k) rec own cur q \<longleftrightarrow> kern n k rec own cur q"
  by (simp add: kern_def k_ok_def)

lemma kern_set_level:
  assumes "kern n k rec own cur q" and "i < MAX_PROCESSES"
  obtains k' where "set_level i l k = Val k'" "kern n k' rec own cur q"
    "pt_get k' = pt_get k" "pt_owner k' = pt_owner k"
proof
  show "set_level i l k = Val (k\<lparr>sc_level := (sc_level k)[i := of_nat l]\<rparr>)"
    using assms by (auto simp: set_level_def kern_def k_ok_def)
qed (use assms in \<open>auto simp: kern_def k_ok_def pt_get_def fun_eq_iff\<close>)

lemma kern_set_slice:
  assumes "kern n k rec own cur q" and "i < MAX_PROCESSES"
  obtains k' where "set_slice i l k = Val k'" "kern n k' rec own cur q"
    "pt_get k' = pt_get k" "pt_owner k' = pt_owner k"
proof
  show "set_slice i l k = Val (k\<lparr>sc_slice := (sc_slice k)[i := l]\<rparr>)"
    using assms by (auto simp: set_slice_def kern_def k_ok_def)
qed (use assms in \<open>auto simp: kern_def k_ok_def pt_get_def fun_eq_iff\<close>)

lemma kern_frames: "length (f (pt_frames k)) = length (pt_frames k) \<Longrightarrow>
    kern n (pt_frames_update f k) rec own cur q \<longleftrightarrow> kern n k rec own cur q"
  by (simp add: kern_def k_ok_def pt_wf_def)

lemma kern_pop:
  assumes K: "kern n k rec own cur q"
  shows "case queue_pop k of (k', None) \<Rightarrow> kern n k' rec own cur q
    | (k', Some p) \<Rightarrow> \<exists>q'. q = add_mset p q' \<and> kern n k' rec own cur q'"
proof -
  obtain m r where pop: "mlfq_pop (sc_queue k) = (m, r)" by fastforce
  have wf: "\<forall>x \<in> set (sc_queue k). rq_wf x" using K by (simp add: kern_def k_ok_def mlfq_wf_def)
  have eq: "spec_pop (mlfq_levels (sc_queue k)) = (mlfq_levels m, r)" "mlfq_wf m"
    using mlfq_pop_eq [OF wf] pop K by (auto simp: mlfq_levels_def mlfq_wf_def kern_def k_ok_def)
  have q: "q = mset (concat (mlfq_levels (sc_queue k)))" using K by (simp add: kern_def a_queue_def mlfq_all_def)
  have kern: "kern n (k\<lparr>sc_queue := m\<rparr>) rec own cur (mset (concat (mlfq_levels m)))"
    using K eq(2) by (simp add: kern_def k_ok_def a_queue_def mlfq_all_def)
  show ?thesis
  proof (cases r)
    case None
    then have "mlfq_levels m = mlfq_levels (sc_queue k)" using spec_pop_concat [OF eq(1)] by simp
    then show ?thesis using kern q by (simp add: queue_pop_def pop None)
  next
    case (Some p)
    then have "concat (mlfq_levels (sc_queue k)) = p # concat (mlfq_levels m)" using spec_pop_concat [OF eq(1)] by simp
    then show ?thesis using kern q by (simp add: queue_pop_def pop Some)
  qed
qed

lemma kern_push:
  assumes K: "kern n k rec own cur q" and "size q < RUNQUEUE_CAPACITY"
  obtains k' where "queue_push p l k = Val k'" "kern n k' rec own cur (add_mset p q)"
proof -
  have wf: "mlfq_wf (sc_queue k)" and q: "q = mset (mlfq_all (sc_queue k))"
    using K by (simp_all add: kern_def k_ok_def a_queue_def)
  obtain m where m: "mlfq_push_at p l (sc_queue k) = Val m" "mlfq_wf m"
      "mlfq_levels m = spec_push p (min l (MLFQ_LEVELS - 1)) (mlfq_levels (sc_queue k))"
    using mlfq_push_at_eq [OF wf] assms(2) unfolding q size_mset by blast
  have "mset (mlfq_all m) = add_mset p q"
    unfolding q mlfq_all_def m(3) using wf
    by (intro mset_concat_update) (simp add: mlfq_wf_def mlfq_levels_def MLFQ_LEVELS_def)
  then have "kern n (k\<lparr>sc_queue := m\<rparr>) rec own cur (add_mset p q)"
    using K m(2) by (simp add: kern_def k_ok_def a_queue_def)
  then show thesis using that m(1) by (simp add: queue_push_def)
qed

section \<open>Transitions of the table\<close>

lemma claim_runnable_eq:
  assumes "pt_wf t" "pt_get t i = Some r" "p_state r = Runnable" "pt_own t i = PROCESS_OWNER_NONE"
  shows "claim_runnable (p_pid r) cpu t = Val (pt_modify i
    (\<lambda>r. r\<lparr>p_state := Running, p_block_intent := False, p_wake_pending := False\<rparr>) (own_set i cpu t), Some i)"
  using assms pt_find_eq [OF assms(1), of "p_pid r" i] pt_wf_slot [OF assms(1,2)] pt_wf_index [OF assms(1,2)]
  by (simp add: claim_runnable_def owner_load_eq owner_store_eq)

lemma release_running_eq:
  assumes "pt_wf t" "pt_get t i = Some r" "p_state r = Running" "pt_own t i = cpu"
  shows "release_running i cpu t = Val (pt_modify i
    (\<lambda>r. r\<lparr>p_state := Runnable, p_block_intent := False, p_wake_pending := False\<rparr>) (own_set i PROCESS_OWNER_NONE t),
    Some (p_pid r))"
  using assms pt_wf_index [OF assms(1,2)] by (simp add: release_running_def owner_load_eq owner_store_eq)

lemma release_owner_eq:
  assumes "pt_wf t" "pt_get t i = Some r" "p_state r = Running" "pt_own t i = cpu"
  shows "release_owner_for_exit i cpu t = Val (own_set i PROCESS_OWNER_NONE t)"
  using assms pt_wf_index [OF assms(1,2)] by (simp add: release_owner_for_exit_def owner_load_eq owner_store_eq)

lemma begin_block_eq:
  assumes "pt_wf t" "pt_get t i = Some r" "p_state r = Running" "pt_own t i = cpu"
  shows "begin_block i cpu t = Val (pt_modify i (\<lambda>r. r\<lparr>p_block_intent := True\<rparr>) t, True)"
  using assms pt_wf_index [OF assms(1,2)] by (simp add: begin_block_def owner_load_eq)

lemma finish_block_eq:
  assumes "pt_wf t" "pt_get t i = Some r" "p_state r = Running" "p_block_intent r" "pt_own t i = cpu"
  shows "finish_block i cpu t = Val (if p_wake_pending r
    then (pt_modify i (\<lambda>r. r\<lparr>p_block_intent := False, p_wake_pending := False, p_state := Runnable\<rparr>)
      (own_set i PROCESS_OWNER_NONE t), BfRequeue (p_pid r))
    else (pt_modify i (\<lambda>r. r\<lparr>p_block_intent := False, p_state := Blocked\<rparr>) (own_set i PROCESS_OWNER_NONE t), BfBlocked))"
  using assms pt_wf_index [OF assms(1,2)] by (simp add: finish_block_def owner_load_eq owner_store_eq)

lemma request_wake_eq:
  assumes "pt_wf t" "pt_get t i = Some r" "p_state r = Blocked \<Longrightarrow> pt_own t i = PROCESS_OWNER_NONE"
  shows "request_wake (p_pid r) t = Val (case p_state r of
      Blocked \<Rightarrow> (pt_modify i (\<lambda>r. r\<lparr>p_state := Runnable, p_block_intent := False, p_wake_pending := False\<rparr>) t,
        Enqueue (p_pid r) i)
    | Running \<Rightarrow> (pt_modify i (\<lambda>r. r\<lparr>p_wake_pending := True\<rparr>) t, Pending)
    | _ \<Rightarrow> (t, Ignore))"
  using assms pt_find_eq [OF assms(1), of "p_pid r" i] pt_wf_slot [OF assms(1,2)] pt_wf_index [OF assms(1,2)]
  by (simp add: request_wake_def owner_load_eq split: process_state.splits)

section \<open>Events\<close>

text \<open>An event is good if it returns a state that satisfies the invariant.\<close>

definition good :: "smp outcome option \<Rightarrow> bool" where
  "good r \<longleftrightarrow> (\<exists>s. r = Some (Val s) \<and> smp_inv s)"

lemma goodI: "smp_inv s \<Longrightarrow> good (Some (Val s))"
  by (simp add: good_def)

lemma smp_invD:
  assumes "smp_inv s" and "c < MAX_CPUS"
  shows "length (sm_pc s) = MAX_CPUS" "k_ok (sm_k s)" "pt_wf (sm_k s)"
    "kern (size_of s) (sm_k s) (a_rec (sm_k s)) (a_own (sm_k s)) (a_cur (sm_k s)) (a_queue (sm_k s))"
    "ainv (a_rec (sm_k s)) (a_own (sm_k s)) (a_cur (sm_k s)) (a_pc s) (a_queue (sm_k s))"
    "a_pc s c = sm_pc s ! c" "sc_current (sm_k s) ! c = shown (sm_pc s ! c)"
proof -
  show A: "ainv (a_rec (sm_k s)) (a_own (sm_k s)) (a_cur (sm_k s)) (a_pc s) (a_queue (sm_k s))"
    using assms(1) by (simp add: smp_inv_def)
  have "a_cur (sm_k s) c = shown (a_pc s c)" using ainvD(6) [OF A] by (simp add: inv_cur_def)
  then show "sc_current (sm_k s) ! c = shown (sm_pc s ! c)" using assms(2) by (simp add: a_cur_def a_pc_def)
qed (use assms in \<open>simp_all add: smp_inv_def kern_def k_ok_def a_pc_def size_of_def\<close>)

text \<open>What a core knows about the slot it holds.\<close>

lemma held_record:
  assumes I: "smp_inv s" and c: "c < MAX_CPUS" and h: "held (sm_pc s ! c) = Some i"
  obtains r where "pt_get (sm_k s) i = Some r" "p_state r = Running" "pt_own (sm_k s) i = of_nat c"
    "a_rec (sm_k s) i = Some (core r)" "i < length (pt_owner (sm_k s))" "i < MAX_PROCESSES" "i < length (pt_table (sm_k s))"
    "in_window (sm_pc s ! c) \<noteq> Some i \<Longrightarrow> \<not> p_wake_pending r \<and> p_wait_target r = None"
    "blocking (sm_pc s ! c) = Some i \<Longrightarrow> p_block_intent r" "(a_own (sm_k s))(i := Some c) = a_own (sm_k s)"
proof -
  note D = smp_invD [OF I c]
  have h': "held (a_pc s c) = Some i" using h D(6) by simp
  note f = held_facts [OF D(5) h']
  obtain r where r: "pt_get (sm_k s) i = Some r" "p_state r = Running" using f(2) by (auto simp: a_rec_Some)
  have R: "a_rec (sm_k s) i = Some (core r)" using r by (simp add: a_rec_def)
  have "\<not> p_wake_pending r \<and> p_wait_target r = None" if "in_window (sm_pc s ! c) \<noteq> Some i"
  proof -
    have "\<not> parked (a_rec (sm_k s)) (a_pc s) i" using f(7) that D(6) by auto
    then show ?thesis using unparked(1,3) [OF D(5) R] by simp
  qed
  moreover have "p_block_intent r" if "blocking (sm_pc s ! c) = Some i"
    using ainvD(7) [OF D(5)] R D(6) that unfolding inv_intent_def by (metis core_simps(3))
  moreover have "(a_own (sm_k s))(i := Some c) = a_own (sm_k s)" using f(1) by (simp add: fun_upd_idem)
  ultimately show thesis
    using that [OF r own_word [OF f(1)] R] k_ok_index [OF D(2) r(1)] pt_get_length [OF r(1)] by blast
qed

text \<open>A hand-off step: the kernel part and the checks of \<open>handoff_ok\<close>.\<close>

lemma good_handoff:
  assumes I: "smp_inv s" and c: "c < MAX_CPUS" and r: "a_rec (sm_k s) i = Some r"
    and K: "kern (size_of s) k ((a_rec (sm_k s))(i := Some r')) ((a_own (sm_k s))(i := ow)) ((a_cur (sm_k s))(c := shown x)) (a_queue (sm_k s))"
    and ok: "handoff_ok c i r r' ow (sm_pc s ! c) x"
  shows "smp_inv (goto c x k s)"
  using smp_invI [OF I K _ c] ainv_handoff [OF smp_invD(5) [OF I c] c r] ok smp_invD(6) [OF I c]
  by (simp add: handoff_ok_def reap_range_def split: cpu_pc.splits)

lemma good_move:
  assumes I: "smp_inv s" and c: "c < MAX_CPUS"
    and K: "kern (size_of s) k (a_rec (sm_k s)) (a_own (sm_k s)) ((a_cur (sm_k s))(c := shown x)) q'"
    and ok: "pc_move (a_rec (sm_k s)) (a_queue (sm_k s)) q' (sm_pc s ! c) x" and range: "reap_range (size_of s) x"
  shows "smp_inv (goto c x k s)"
  using smp_invI [OF I K _ c] ainv_move [OF smp_invD(5) [OF I c] c, of q' x] ok smp_invD(6) [OF I c] range
  by simp

lemma cur_same:
  assumes "smp_inv s" "c < MAX_CPUS" "shown x = shown (sm_pc s ! c)"
  shows "(a_cur (sm_k s))(c := shown x) = a_cur (sm_k s)"
  using smp_invD(5,6) [OF assms(1,2)] assms(3) by (simp add: ainv_def inv_cur_def fun_upd_idem)

lemma good_pick:
  assumes I: "smp_inv s" and c: "c < MAX_CPUS" and pc: "sm_pc s ! c = Pick"
  shows "good (smp_step c s)"
proof -
  note D = smp_invD [OF I c]
  obtain k r where pop: "queue_pop (sm_k s) = (k, r)" by fastforce
  show ?thesis
  proof (cases r)
    case None
    then have "kern (size_of s) k (a_rec (sm_k s)) (a_own (sm_k s)) (a_cur (sm_k s)) (a_queue (sm_k s))"
      using kern_pop [OF D(4)] pop by simp
    then have "smp_inv (goto c Pick (idle c k) s)"
      unfolding idle_def using c by (intro good_move [OF I c]) (auto simp: pc pc_move_def kern_current delivering_def)
    then show ?thesis by (simp add: smp_step_def pc pop None good_def Let_def)
  next
    case (Some p)
    then obtain q' where q: "a_queue (sm_k s) = add_mset p q'" "kern (size_of s) k (a_rec (sm_k s)) (a_own (sm_k s)) (a_cur (sm_k s)) q'"
      using kern_pop [OF D(4)] pop by auto
    then have "smp_inv (goto c (Claim p) k s)"
      using cur_same [OF I c, of "Claim p"] pc
      by (intro good_move [OF I c]) (auto simp: pc_move_def delivering_def)
    then show ?thesis by (simp add: smp_step_def pc pop Some good_def Let_def)
  qed
qed

lemma good_claim:
  assumes I: "smp_inv s" and c: "c < MAX_CPUS" and pc: "sm_pc s ! c = Claim p"
  shows "good (smp_step c s)"
proof -
  note D = smp_invD [OF I c]
  have fly: "0 < count (a_queue (sm_k s) + in_flight (a_pc s)) p"
    using in_flight_self [OF c, of "a_pc s" p] pc D(6) by simp
  from queued_runnable [OF D(5) fly] obtain i r where r: "pt_get (sm_k s) i = Some r" "p_pid r = p" "p_state r = Runnable"
    by (metis a_rec_Some core_simps(1,2))
  have R: "a_rec (sm_k s) i = Some (core r)" "c_state (core r) = Runnable" using r by (simp_all add: a_rec_Some)
  have own: "pt_own (sm_k s) i = PROCESS_OWNER_NONE"
    using resting_facts(1) [OF D(5) R(1)] R(2) by (simp add: own_free)
  let ?f = "\<lambda>r. r\<lparr>p_state := Running, p_block_intent := False, p_wake_pending := False\<rparr>"
  let ?k = "pt_modify i ?f (own_set i (of_nat c) (sm_k s))"
  have len: "i < length (pt_owner (sm_k s))" "i < MAX_PROCESSES" using k_ok_index [OF D(2) r(1)] by auto
  have "kern (size_of s) (own_set i (of_nat c) (sm_k s)) (a_rec (sm_k s)) ((a_own (sm_k s))(i := Some c)) (a_cur (sm_k s)) (a_queue (sm_k s))"
    using kern_own_set(2) [OF D(4) len(1) c] .
  then have "kern (size_of s) ?k ((a_rec (sm_k s))(i := Some (core (?f r)))) ((a_own (sm_k s))(i := Some c)) (a_cur (sm_k s)) (a_queue (sm_k s))"
    by (rule kern_modify) (use r in simp_all)
  then obtain k where k: "set_slice i 0 ?k = Val k"
    "kern (size_of s) k ((a_rec (sm_k s))(i := Some (core (?f r)))) ((a_own (sm_k s))(i := Some c)) (a_cur (sm_k s)) (a_queue (sm_k s))"
    using kern_set_slice [OF _ len(2)] by metis
  have "ainv ((a_rec (sm_k s))(i := Some (core (?f r)))) ((a_own (sm_k s))(i := Some c)) (a_cur (sm_k s))
      ((a_pc s)(c := Enter i)) (a_queue (sm_k s))"
    using ainv_claim [OF D(5) c _ R] pc D(6) r(2) cur_same [OF I c, of "Enter i"] by (simp add: core_def)
  then have "smp_inv (goto c (Enter i) k s)" by (rule smp_invI [OF I k(2) _ c]) simp
  moreover have "smp_step c s = Some (Val (goto c (Enter i) k s))"
    using claim_runnable_eq [OF D(3) r(1,3) own, of "of_nat c"] r(2) k(1)
    by (simp add: smp_step_def pc dispatch_claim_def Let_def)
  ultimately show ?thesis by (simp add: good_def)
qed

lemma good_enter:
  assumes I: "smp_inv s" and c: "c < MAX_CPUS" and pc: "sm_pc s ! c = Enter i"
  shows "good (smp_step c s)"
proof -
  note D = smp_invD [OF I c]
  have h: "held (sm_pc s ! c) = Some i" using pc by simp
  obtain r where r: "a_rec (sm_k s) i = Some (core r)" "p_state r = Running" "\<not> p_wake_pending r"
      "(a_own (sm_k s))(i := Some c) = a_own (sm_k s)"
    by (rule held_record [OF I c h]) (auto simp: pc)
  have "smp_inv (goto c (Exec i) (dispatch_enter c i (sm_k s)) s)"
    unfolding dispatch_enter_def
    by (rule good_handoff [OF I c r(1), where r' = "core r" and ow = "Some c"])
      (use r kern_current [OF D(4) c] pc in \<open>auto simp: fun_upd_idem handoff_ok_def delivering_def\<close>)
  then show ?thesis by (simp add: smp_step_def pc good_def Let_def)
qed

text \<open>The three hand-offs first take the slot off the core.\<close>

definition detach_next :: "nat \<Rightarrow> cpu_pc \<Rightarrow> cpu_pc option" where
  "detach_next i y = (case y of YieldDetach j \<Rightarrow> if j = i then Some (YieldRelease i) else None
     | BlockDetach j \<Rightarrow> if j = i then Some (BlockFinish i) else None
     | ExitDetach j st \<Rightarrow> if j = i then Some (ExitRelease i st) else None | _ \<Rightarrow> None)"

lemma good_detach:
  assumes I: "smp_inv s" and c: "c < MAX_CPUS" and pc: "detach_next i (sm_pc s ! c) = Some x"
  shows "good (Some (obind (detach_current c i (sm_k s)) (\<lambda>k. Val (goto c x k s))))"
proof -
  note D = smp_invD [OF I c]
  have h: "held (sm_pc s ! c) = Some i" using pc by (auto simp: detach_next_def split: cpu_pc.splits if_splits)
  obtain r where r: "a_rec (sm_k s) i = Some (core r)" "p_state r = Running"
      "in_window (sm_pc s ! c) \<noteq> Some i \<Longrightarrow> \<not> p_wake_pending r" "blocking (sm_pc s ! c) = Some i \<Longrightarrow> p_block_intent r"
      "(a_own (sm_k s))(i := Some c) = a_own (sm_k s)"
    by (rule held_record [OF I c h]) blast
  have cur: "sc_current (sm_k s) ! c = Some i" using D(7) pc by (auto simp: detach_next_def split: cpu_pc.splits if_splits)
  have "smp_inv (goto c x ((sm_k s)\<lparr>sc_current := (sc_current (sm_k s))[c := None]\<rparr>) s)"
    by (rule good_handoff [OF I c r(1), where r' = "core r" and ow = "Some c"])
      (use r kern_current [OF D(4) c, of None] pc
        in \<open>auto simp: fun_upd_idem handoff_ok_def delivering_def detach_next_def split: cpu_pc.splits if_splits\<close>)
  then show ?thesis using cur by (simp add: detach_current_def good_def)
qed

lemma kern_enqueue_level:
  assumes "kern n k rec own cur q"
  obtains k' where "enqueue_level p k = Val k'" "kern n k' rec own cur q"
proof (cases "slot_for_pid p k")
  case None
  then show thesis using that assms by (simp add: enqueue_level_def)
next
  case (Some i)
  then obtain j r where j: "pt_get k j = Some r" "p_slot r = i"
    by (auto simp: slot_for_pid_def pt_find_record_def bind_eq_Some_conv)
  have ok: "k_ok k" using assms by (simp add: kern_def)
  then have "i < MAX_PROCESSES" using k_ok_index [OF ok j(1)] pt_wf_slot [of k j r] j by (simp add: k_ok_def)
  then show thesis using kern_set_level [OF assms] that Some by (metis enqueue_level_def option.simps(5))
qed

lemma good_yield_release:
  assumes I: "smp_inv s" and c: "c < MAX_CPUS" and pc: "sm_pc s ! c = YieldRelease i"
  shows "good (smp_step c s)"
proof -
  note D = smp_invD [OF I c]
  have h: "held (sm_pc s ! c) = Some i" using pc by simp
  obtain r where r: "pt_get (sm_k s) i = Some r" "p_state r = Running" "pt_own (sm_k s) i = of_nat c"
      "a_rec (sm_k s) i = Some (core r)" "i < length (pt_owner (sm_k s))" "i < MAX_PROCESSES"
    by (rule held_record [OF I c h]) blast
  let ?f = "\<lambda>r. r\<lparr>p_state := Runnable, p_block_intent := False, p_wake_pending := False\<rparr>"
  let ?k = "pt_modify i ?f (own_set i PROCESS_OWNER_NONE (sm_k s))"
  let ?K = "\<lambda>k. kern (size_of s) k ((a_rec (sm_k s))(i := Some (core (?f r)))) ((a_own (sm_k s))(i := None)) (a_cur (sm_k s)) (a_queue (sm_k s))"
  have K: "?K ?k" by (rule kern_modify [OF kern_own_set(1) [OF D(4) r(5)]]) (use r in simp_all)
  obtain l where l: "proc_level i ?k = Val l"
    using K r(6) by (auto simp: proc_level_def array_get_def kern_def k_ok_def)
  obtain k1 where k1: "set_level i (next_level_after_yield l) ?k = Val k1" "?K k1" using kern_set_level [OF K r(6)] by blast
  obtain k2 where k2: "set_slice i 0 k1 = Val k2" "?K k2" using kern_set_slice [OF k1(2) r(6)] by blast
  define x where "x = PushThen (p_pid r) (next_level_after_yield l) Pick"
  have "smp_inv (goto c x k2 s)"
    by (rule good_handoff [OF I c r(4), where r' = "core (?f r)" and ow = None])
      (use k2(2) cur_same [OF I c, of x] pc in \<open>auto simp: x_def handoff_ok_def delivering_def may_serve_def\<close>)
  then show ?thesis
    using release_running_eq [OF D(3) r(1-3)] l k1(1) k2(1)
    by (simp add: smp_step_def pc good_def Let_def yield_release_def x_def)
qed

lemma good_block_begin:
  assumes I: "smp_inv s" and c: "c < MAX_CPUS" and pc: "sm_pc s ! c = WaitBlock i"
  shows "good (smp_step c s)"
proof -
  note D = smp_invD [OF I c]
  have h: "held (sm_pc s ! c) = Some i" using pc by simp
  obtain r where r: "pt_get (sm_k s) i = Some r" "p_state r = Running" "pt_own (sm_k s) i = of_nat c"
      "a_rec (sm_k s) i = Some (core r)" "(a_own (sm_k s))(i := Some c) = a_own (sm_k s)"
    by (rule held_record [OF I c h]) blast
  let ?f = "\<lambda>r. r\<lparr>p_block_intent := True\<rparr>"
  have K: "kern (size_of s) (pt_modify i ?f (sm_k s)) ((a_rec (sm_k s))(i := Some (core (?f r)))) (a_own (sm_k s)) (a_cur (sm_k s)) (a_queue (sm_k s))"
    by (rule kern_modify [OF D(4)]) (use r in simp_all)
  have "smp_inv (goto c (BlockDetach i) (pt_modify i ?f (sm_k s)) s)"
    by (rule good_handoff [OF I c r(4), where r' = "core (?f r)" and ow = "Some c"])
      (use K cur_same [OF I c, of "BlockDetach i"] r(2,5) pc in \<open>auto simp: handoff_ok_def delivering_def\<close>)
  moreover have "current_slot c (sm_k s) = Val i" using D(7) pc by (simp add: current_slot_def)
  ultimately show ?thesis
    using begin_block_eq [OF D(3) r(1-3)] by (simp add: smp_step_def pc good_def Let_def block_begin_def)
qed

lemma good_block_finish:
  assumes I: "smp_inv s" and c: "c < MAX_CPUS" and pc: "sm_pc s ! c = BlockFinish i"
  shows "good (smp_step c s)"
proof -
  note D = smp_invD [OF I c]
  have h: "held (sm_pc s ! c) = Some i" using pc by simp
  obtain r where r: "pt_get (sm_k s) i = Some r" "p_state r = Running" "p_block_intent r" "pt_own (sm_k s) i = of_nat c"
      "a_rec (sm_k s) i = Some (core r)" "i < length (pt_owner (sm_k s))"
    by (rule held_record [OF I c h]) (use pc in simp)
  note fin = finish_block_eq [OF D(3) r(1-4)] and K1 = kern_own_set(1) [OF D(4) r(6)]
  show ?thesis
  proof (cases "p_wake_pending r")
    case False
    let ?f = "\<lambda>r. r\<lparr>p_block_intent := False, p_state := Blocked\<rparr>"
    let ?k = "pt_modify i ?f (own_set i PROCESS_OWNER_NONE (sm_k s))"
    have K: "kern (size_of s) ?k ((a_rec (sm_k s))(i := Some (core (?f r)))) ((a_own (sm_k s))(i := None)) (a_cur (sm_k s)) (a_queue (sm_k s))"
      by (rule kern_modify [OF K1]) (use r in simp_all)
    have "smp_inv (goto c Pick ?k s)"
      by (rule good_handoff [OF I c r(5), where r' = "core (?f r)" and ow = None])
        (use K cur_same [OF I c, of Pick] pc False in \<open>auto simp: handoff_ok_def delivering_def\<close>)
    then show ?thesis using fin False by (simp add: smp_step_def pc good_def Let_def block_finish_def)
  next
    case True
    let ?f = "\<lambda>r. r\<lparr>p_block_intent := False, p_wake_pending := False, p_state := Runnable\<rparr>"
    let ?k = "pt_modify i ?f (own_set i PROCESS_OWNER_NONE (sm_k s))" and ?x = "PushThen (p_pid r) 0 Pick"
    let ?K = "\<lambda>k. kern (size_of s) k ((a_rec (sm_k s))(i := Some (core (?f r)))) ((a_own (sm_k s))(i := None)) (a_cur (sm_k s)) (a_queue (sm_k s))"
    have K: "?K ?k" by (rule kern_modify [OF K1]) (use r in simp_all)
    then obtain k where k: "enqueue_level (p_pid r) ?k = Val k" "?K k" by (rule kern_enqueue_level)
    have "smp_inv (goto c ?x k s)"
      by (rule good_handoff [OF I c r(5), where r' = "core (?f r)" and ow = None])
        (use k(2) cur_same [OF I c, of ?x] pc True in \<open>auto simp: handoff_ok_def delivering_def may_serve_def\<close>)
    then show ?thesis using fin True k(1) by (simp add: smp_step_def pc good_def Let_def block_finish_def)
  qed
qed

lemma good_exit_release:
  assumes I: "smp_inv s" and c: "c < MAX_CPUS" and pc: "sm_pc s ! c = ExitRelease i st"
  shows "good (smp_step c s)"
proof -
  note D = smp_invD [OF I c]
  have h: "held (sm_pc s ! c) = Some i" using pc by simp
  obtain r where r: "pt_get (sm_k s) i = Some r" "p_state r = Running" "pt_own (sm_k s) i = of_nat c"
      "a_rec (sm_k s) i = Some (core r)" "i < length (pt_owner (sm_k s))" "\<not> p_wake_pending r"
    by (rule held_record [OF I c h]) (use pc in simp)
  have "smp_inv (goto c (ExitPlan i st) (own_set i PROCESS_OWNER_NONE (sm_k s)) s)"
    by (rule good_handoff [OF I c r(4), where r' = "core r" and ow = None])
      (use kern_own_set(1) [OF D(4) r(5)] cur_same [OF I c, of "ExitPlan i st"] r pc
        in \<open>auto simp: handoff_ok_def delivering_def fun_upd_idem\<close>)
  then show ?thesis
    using release_owner_eq [OF D(3) r(1-3)] by (simp add: smp_step_def pc good_def Let_def)
qed

section \<open>The run queue has room\<close>

lemma queue_room:
  assumes A: "ainv rec own cur pc q" and c: "c < MAX_CPUS" and fly: "flying (pc c) = [p]"
    and bound: "\<And>i r. rec i = Some r \<Longrightarrow> i < n"
  shows "size q < n"
proof -
  let ?M = "q + in_flight pc"
  have count: "count ?M x = (if runnable_pid rec x then 1 else 0)" for x
    using ainvD(8) [OF A] by (simp add: inv_queue_def)
  have sub: "set_mset ?M \<subseteq> (\<lambda>i. c_pid (the (rec i))) ` {..<n}"
  proof
    fix x assume "x \<in> set_mset ?M"
    then have "runnable_pid rec x" using count [of x] by (metis count_eq_zero_iff)
    then obtain i r where "rec i = Some r" "c_pid r = x" by (auto simp: runnable_pid_def)
    then show "x \<in> (\<lambda>i. c_pid (the (rec i))) ` {..<n}" using bound by (intro image_eqI [of _ _ i]) auto
  qed
  have "size ?M = (\<Sum>x \<in> set_mset ?M. count ?M x)" by (simp only: size_multiset_overloaded_eq)
  also have "\<dots> \<le> (\<Sum>x \<in> set_mset ?M. 1)" by (rule sum_mono) (simp only: count, simp)
  also have "\<dots> \<le> card ((\<lambda>i. c_pid (the (rec i))) ` {..<n})" using card_mono [OF _ sub] by simp
  also have "\<dots> \<le> n" using card_image_le [of "{..<n}"] by simp
  finally have "size q + size (in_flight pc) \<le> n" by simp
  moreover have "0 < size (in_flight pc)"
    using in_flight_self [OF c, of pc p] fly by (auto simp: nonempty_has_size [symmetric])
  ultimately show ?thesis by simp
qed

lemma good_push:
  assumes I: "smp_inv s" and c: "c < MAX_CPUS" and pc: "sm_pc s ! c = PushThen p l x"
  shows "good (smp_step c s)"
proof -
  note D = smp_invD [OF I c]
  have room: "size (a_queue (sm_k s)) < RUNQUEUE_CAPACITY"
    unfolding RUNQUEUE_CAPACITY_def
    by (rule queue_room [OF D(5) c, of p]) (use pc D(6) k_ok_index [OF D(2)] in \<open>auto simp: a_rec_Some\<close>)
  obtain k where k: "queue_push p l (sm_k s) = Val k"
    "kern (size_of s) k (a_rec (sm_k s)) (a_own (sm_k s)) (a_cur (sm_k s)) (add_mset p (a_queue (sm_k s)))"
    by (rule kern_push [OF D(4) room])
  have "may_serve x" using ainvD(13) [OF D(5)] D(6) pc unfolding inv_pc_def by (metis pc_ok.simps(1))
  then have x: "x = Pick \<or> (\<exists>i. x = Exec i)" by (auto simp: may_serve_def split: cpu_pc.splits)
  have "smp_inv (goto c x k s)"
    by (rule good_move [OF I c]) (use k(2) cur_same [OF I c, of x] pc x in \<open>auto simp: pc_move_def delivering_def\<close>)
  then show ?thesis using k(1) by (simp add: smp_step_def pc good_def Let_def)
qed

section \<open>Waking\<close>

definition after_wake :: "nat \<Rightarrow> cpu_pc \<Rightarrow> smp \<Rightarrow> kernel \<times> pid option \<Rightarrow> smp" where
  "after_wake c x s kr = (case kr of (k, r) \<Rightarrow> case r of None \<Rightarrow> goto c x k s | Some q \<Rightarrow> goto c (PushThen q 0 x) k s)"

lemma serves_cases:
  assumes "y = WakeParent p \<and> x = Pick \<or> y = x \<and> may_serve x"
  shows "serves [] y x" "serves [q] y (PushThen q l x)" "pc_move rec M M y x"
    "shown x = shown y" "shown (PushThen q l x) = shown y"
  using assms by (auto simp: serves_def pc_move_def delivering_def may_serve_def split: cpu_pc.splits)

lemma good_wake:
  assumes I: "smp_inv s" and c: "c < MAX_CPUS"
    and x: "sm_pc s ! c = WakeParent p \<and> x = Pick \<or> sm_pc s ! c = x \<and> may_serve x"
    and reg: "\<And>i r. pt_get (sm_k s) i = Some r \<Longrightarrow> p_pid r = p \<Longrightarrow> p_wait_target r = None"
    and win: "\<And>i r. pt_get (sm_k s) i = Some r \<Longrightarrow> p_pid r = p \<Longrightarrow> p_state r = Running \<Longrightarrow> \<exists>d. in_window (a_pc s d) = Some i"
    and nd: "\<And>d. d \<noteq> c \<Longrightarrow> \<not> delivering p (a_pc s d)"
  shows "good (Some (obind (wake_transition p (sm_k s)) (\<lambda>kr. Val (after_wake c x s kr))))"
proof -
  note D = smp_invD [OF I c] and S = serves_cases [OF x]
  let ?rec = "a_rec (sm_k s)" and ?own = "a_own (sm_k s)" and ?cur = "a_cur (sm_k s)" and ?q = "a_queue (sm_k s)"
  have cur: "?cur(c := shown x) = ?cur" "?cur(c := shown (PushThen q l x)) = ?cur" for q l
    using cur_same [OF I c] S(4,5) by auto
  have stay: "smp_inv (goto c x (sm_k s) s)" by (rule good_move [OF I c]) (use D(4) cur S(3) x in auto)
  show ?thesis
  proof (cases "pt_find p (sm_k s)")
    case None
    then show ?thesis using stay by (simp add: wake_transition_def request_wake_def after_wake_def good_def)
  next
    case (Some i)
    then obtain r where r: "pt_get (sm_k s) i = Some r" "p_pid r = p" using pt_find_Some by blast
    have R: "?rec i = Some (core r)" using r by (simp add: a_rec_def)
    have free: "p_state r = Blocked \<Longrightarrow> pt_own (sm_k s) i = PROCESS_OWNER_NONE"
      using resting_facts(1) [OF D(5) R] by (simp add: own_free)
    have i: "i < MAX_PROCESSES" using k_ok_index [OF D(2) r(1)] by simp
    note eq = request_wake_eq [OF D(3) r(1) free, unfolded r(2)]
    have pcs: "a_pc s c = sm_pc s ! c" by (rule D(6))
    show ?thesis
    proof (cases "p_state r")
      case Blocked
      let ?f = "\<lambda>r. r\<lparr>p_state := Runnable, p_block_intent := False, p_wake_pending := False\<rparr>"
      have K: "kern (size_of s) (pt_modify i ?f (sm_k s)) (?rec(i := Some (core (?f r)))) ?own ?cur ?q"
        by (rule kern_modify [OF D(4)]) (use r in simp_all)
      obtain k where k: "set_level i 0 (pt_modify i ?f (sm_k s)) = Val k" "kern (size_of s) k (?rec(i := Some (core (?f r)))) ?own ?cur ?q"
        using kern_set_level [OF K i] by blast
      have "ainv (?rec(i := Some (core (?f r)))) ?own ?cur ((a_pc s)(c := PushThen p 0 x)) ?q"
        using ainv_wake [OF D(5) c R, of "PushThen p 0 x"] Blocked reg [OF r] nd r(2) S(2) [of p 0] cur pcs by (simp add: core_def)
      then have "smp_inv (goto c (PushThen p 0 x) k s)" by (rule smp_invI [OF I k(2) _ c]) simp
      then show ?thesis using eq Blocked k(1) by (simp add: wake_transition_def after_wake_def good_def)
    next
      case Running
      let ?f = "\<lambda>r. r\<lparr>p_wake_pending := True\<rparr>"
      obtain d where d: "in_window (a_pc s d) = Some i" using win [OF r Running] by blast
      have K: "kern (size_of s) (pt_modify i ?f (sm_k s)) (?rec(i := Some (core (?f r)))) ?own ?cur ?q"
        by (rule kern_modify [OF D(4)]) (use r in simp_all)
      have "ainv (?rec(i := Some (core (?f r)))) ?own ?cur ((a_pc s)(c := x)) ?q"
        using ainv_latch [OF D(5) c R _ _ d, of x] Running reg [OF r] nd r(2) S(1) cur pcs by (simp add: core_def)
      then have "smp_inv (goto c x (pt_modify i ?f (sm_k s)) s)" by (rule smp_invI [OF I K _ c]) (use x in auto)
      then show ?thesis using eq Running by (simp add: wake_transition_def after_wake_def good_def)
    qed (use eq stay in \<open>simp_all add: wake_transition_def after_wake_def good_def\<close>)
  qed
qed

lemma good_wake_parent:
  assumes I: "smp_inv s" and c: "c < MAX_CPUS" and pc: "sm_pc s ! c = WakeParent p"
  shows "good (smp_step c s)"
proof -
  note D = smp_invD [OF I c] and V = inv_deliverD [OF ainvD(12) [OF smp_invD(5) [OF I c]]]
  have del: "delivering p (a_pc s c)" using pc D(6) by (simp add: delivering_def)
  have "\<not> delivering p (a_pc s d)" if "d \<noteq> c" for d using V(3) [OF del] that by blast
  moreover have "p_wait_target r = None" if "pt_get (sm_k s) i = Some r" "p_pid r = p" for i r
    using ainvD(11) [OF D(5)] del that unfolding inv_wait_alt by (metis a_rec_Some core_simps(1,5) not_Some_eq)
  moreover have "\<exists>d. in_window (a_pc s d) = Some i" if r: "pt_get (sm_k s) i = Some r" "p_pid r = p" "p_state r = Running" for i r
  proof -
    obtain j t where "a_rec (sm_k s) j = Some t" "c_pid t = p" "parked (a_rec (sm_k s)) (a_pc s) j" using V(2) [OF del] by blast
    moreover have "a_rec (sm_k s) i = Some (core r)" using r by (simp add: a_rec_def)
    ultimately have "parked (a_rec (sm_k s)) (a_pc s) i"
      using ainvD(1) [OF D(5)] r(2) unfolding inv_pids_def by (metis core_simps(1))
    then show ?thesis using r by (auto simp: parked_def a_rec_def)
  qed
  ultimately have "good (Some (obind (wake_transition p (sm_k s)) (\<lambda>kr. Val (after_wake c Pick s kr))))"
    using pc by (intro good_wake [OF I c]) auto
  moreover have "smp_step c s = Some (obind (wake_transition p (sm_k s)) (\<lambda>kr. Val (after_wake c Pick s kr)))"
    by (simp add: smp_step_def pc Let_def after_wake_def split_def)
  ultimately show ?thesis by simp
qed

lemma set_pcs: "length (sm_pc s) = MAX_CPUS \<Longrightarrow> (\<exists>pc \<in> set (sm_pc s). P pc) \<longleftrightarrow> (\<exists>d < MAX_CPUS. P (a_pc s d))"
  unfolding a_pc_def by (auto simp: in_set_conv_nth) (metis nth_mem)

lemma good_wake_event:
  assumes I: "smp_inv s" and c: "c < MAX_CPUS" and serve: "may_serve (sm_pc s ! c)" and allowed: "wake_allowed p s"
  shows "good (smp_act serial c (EvWake p) s)"
proof -
  note D = smp_invD [OF I c]
  have find: "pt_find_record p (sm_k s) = Some r" if "pt_get (sm_k s) i = Some r" "p_pid r = p" for i r
    using pt_find_eq [OF D(3), of p i] that by (auto simp: pt_find_record_def)
  have "\<not> delivering p (a_pc s d)" for d
    using allowed D(1) by (cases "d < MAX_CPUS") (auto simp: wake_allowed_def a_pc_def delivering_def)
  moreover have "p_wait_target r = None" if "pt_get (sm_k s) i = Some r" "p_pid r = p" for i r
    using allowed find [OF that] by (simp add: wake_allowed_def)
  moreover have "\<exists>d. in_window (a_pc s d) = Some i" if r: "pt_get (sm_k s) i = Some r" "p_pid r = p" "p_state r = Running" for i r
    using allowed find [OF r(1,2)] r(3) pt_wf_slot [OF D(3) r(1)] set_pcs [OF D(1), of "\<lambda>pc. in_window pc = Some i"]
    by (auto simp: wake_allowed_def)
  ultimately have "good (Some (obind (wake_transition p (sm_k s)) (\<lambda>kr. Val (after_wake c (sm_pc s ! c) s kr))))"
    using serve by (intro good_wake [OF I c]) auto
  then show ?thesis using serve allowed by (simp add: smp_act_def Let_def after_wake_def split_def)
qed

section \<open>Creating\<close>

text \<open>The creation paths touch the process table only, which does not shrink.\<close>

definition grown :: "'a ptable_scheme \<Rightarrow> 'a ptable_scheme \<Rightarrow> bool" where
  "grown t t' \<longleftrightarrow> ptable.more t' = ptable.more t \<and> length (pt_table t) \<le> length (pt_table t')"

lemma alloc_pid_grown: "alloc_pid t = (t', p) \<Longrightarrow> grown t t'"
  by (auto simp: alloc_pid_def grown_def)

lemma owner_store_grown: "owner_store i w t = Val t' \<Longrightarrow> grown t t'"
  by (auto simp: owner_store_def grown_def split: if_splits)

lemma grown_trans: "grown t u \<Longrightarrow> grown u v \<Longrightarrow> grown t v"
  by (simp add: grown_def)

lemma grown_updates [simp]: "grown t (pt_set i e u) = grown t u" "grown t (pt_frames_update f u) = grown t u"
  by (simp_all add: grown_def pt_set_def)

lemma alloc_slot_grown:
  assumes "alloc_table_slot_locked t = Val (t', r)"
  shows "grown t t'"
proof -
  have "grown t u \<Longrightarrow> grown t (u\<lparr>pt_table := pt_table u @ [None]\<rparr>)" for u by (simp add: grown_def)
  moreover have "grown t t" by (simp add: grown_def)
  ultimately show ?thesis using assms owner_store_grown
    by (auto simp: alloc_table_slot_locked_def Let_def outcome_simps split: option.splits if_splits)
qed

lemma alloc_both_grown: "alloc_pid t = (t1, p) \<Longrightarrow> alloc_table_slot_locked t1 = Val (t2, r) \<Longrightarrow> grown t t2"
  using alloc_pid_grown alloc_slot_grown grown_trans by blast

lemma spawn_grown: "spawn ki draw entry name t = Val (t', r) \<Longrightarrow> grown t t'"
  by (auto simp: spawn_def Let_def outcome_simps split: prod.splits option.splits
      dest: alloc_pid_grown) (metis alloc_both_grown)+

lemma fork_grown: "fork ki clone ps f t = Val (t', r) \<Longrightarrow> grown t t'"
  using grown_def [of t t]
  by (auto simp: fork_def Let_def outcome_simps split: prod.splits option.splits sum.splits
      dest: alloc_pid_grown) (metis alloc_both_grown)+

lemma create_thread_grown: "create_thread ki ps entry st tls arg t = Val (t', r) \<Longrightarrow> grown t t'"
  using grown_def [of t t]
  by (auto simp: create_thread_def Let_def outcome_simps split: prod.splits option.splits if_splits
      dest: alloc_pid_grown) (metis alloc_both_grown)+

lemma more_sched:
  assumes "grown k (k' :: kernel)"
  shows "sc_queue k' = sc_queue k" "sc_current k' = sc_current k" "sc_level k' = sc_level k" "sc_slice k' = sc_slice k"
  using assms by (cases k; cases k'; simp add: grown_def)+

lemma kern_same:
  assumes K: "kern n k rec own cur q" and same: "same_records k k'" and more: "grown k (k' :: kernel)"
  shows "kern n k' rec own cur q"
proof -
  have "a_rec k' = a_rec k" "a_own k' = a_own k" "pt_wf k'"
    using same by (simp_all add: same_records_def a_rec_def a_own_def fun_eq_iff)
  moreover have "a_cur k' = a_cur k" "a_queue k' = a_queue k"
    using more_sched [OF more] by (simp_all add: a_cur_def a_queue_def fun_eq_iff)
  ultimately show ?thesis using K more more_sched [OF more] by (simp add: kern_def k_ok_def grown_def)
qed

lemma kern_created:
  assumes K: "kern n k rec own cur q" and new: "created k k' i r" and more: "grown k (k' :: kernel)"
  shows "kern n k' (rec(i := Some (core r))) (own(i := None)) cur q"
proof -
  have "a_rec k' = (a_rec k)(i := Some (core r))" "a_own k' = (a_own k)(i := None)" "pt_wf k'"
    using new by (simp_all add: created_def a_rec_def a_own_def fun_eq_iff)
  moreover have "a_cur k' = a_cur k" "a_queue k' = a_queue k"
    using more_sched [OF more] by (simp_all add: a_cur_def a_queue_def fun_eq_iff)
  ultimately show ?thesis using K more more_sched [OF more] by (auto simp: kern_def k_ok_def grown_def)
qed

lemma good_create:
  assumes I: "smp_inv s" and c: "c < MAX_CPUS" and serve: "may_serve (sm_pc s ! c)" and allowed: "create_allowed True s"
    and made: "made = Val (k, res)" "grown (sm_k s) k"
    and res: "(\<exists>e. res = Inl e) \<and> same_records (sm_k s) k \<or>
      (\<exists>i r. res = Inr (p_pid r) \<and> created (sm_k s) k i r \<and> p_wait_target r = None)"
  shows "good (Some (start_new c made (sm_pc s ! c) s))"
proof -
  note D = smp_invD [OF I c]
  have x: "sm_pc s ! c = WakeParent 0 \<and> sm_pc s ! c = Pick \<or> sm_pc s ! c = sm_pc s ! c \<and> may_serve (sm_pc s ! c)"
    using serve by simp
  note S = serves_cases [OF x]
  from res show ?thesis
  proof (elim disjE conjE exE)
    fix e assume e: "res = Inl e" "same_records (sm_k s) k"
    have "smp_inv (goto c (sm_pc s ! c) k s)"
      by (rule good_move [OF I c])
        (use kern_same [OF D(4) e(2) made(2)] cur_same [OF I c] S(3) serve in simp_all)
    then show ?thesis by (simp add: start_new_def made e good_def)
  next
    fix i r assume new: "res = Inr (p_pid r)" "created (sm_k s) k i r" "p_wait_target r = None"
    note n = new(2) [unfolded created_def]
    let ?x = "PushThen (p_pid r) 0 (sm_pc s ! c)"
    obtain k' where k': "enqueue_level (p_pid r) k = Val k'" "kern (size_of s) k' ((a_rec (sm_k s))(i := Some (core r)))
        ((a_own (sm_k s))(i := None)) (a_cur (sm_k s)) (a_queue (sm_k s))"
      using kern_enqueue_level [OF kern_created [OF D(4) new(2) made(2)]] by blast
    have fresh: "c_pid t \<noteq> c_pid (core r)" if "a_rec (sm_k s) j = Some t" for j t
      using n that by (auto simp: a_rec_Some)
    have idle: "a_pc s d \<noteq> Reap st seed" for d st seed
    proof (cases "d < MAX_CPUS")
      case True
      then have "\<not> pending_reap (a_pc s d)" using allowed D(1) by (simp add: create_allowed_def a_pc_def)
      then show ?thesis by (auto simp: pending_reap_def)
    qed (simp add: a_pc_def)
    have "ainv ((a_rec (sm_k s))(i := Some (core r))) ((a_own (sm_k s))(i := None)) ((a_cur (sm_k s))(c := shown ?x))
        ((a_pc s)(c := ?x)) (a_queue (sm_k s))"
      by (rule ainv_create [OF D(5) c _ _ _ _ fresh idle])
        (use n new(3) S(2) [of "p_pid r" 0] D(6) in \<open>simp_all add: a_rec_def\<close>)
    then have "smp_inv (goto c ?x k' s)"
      using smp_invI [OF I k'(2) _ c] cur_same [OF I c, of ?x] S(5) by simp
    then show ?thesis by (simp add: start_new_def made new(1) k'(1) good_def)
  qed
qed

lemma good_created:
  assumes I: "smp_inv s" and c: "c < MAX_CPUS" and serve: "may_serve (sm_pc s ! c)" and allowed: "create_allowed True s"
    and made: "made = Val (k, Inr p)" "grown (sm_k s) k"
    and new: "created (sm_k s) k i r" "p_pid r = p" "p_wait_target r = None"
  shows "good (Some (start_new c made (sm_pc s ! c) s))"
  by (rule good_create [OF I c serve allowed made]) (use new in blast)

lemma good_spawn:
  assumes I: "smp_inv s" and c: "c < MAX_CPUS" and "may_serve (sm_pc s ! c)" and allowed: "create_allowed True s"
  shows "good (Some (start_new c (spawn ki draw entry name (sm_k s)) (sm_pc s ! c) s))"
proof -
  have room: "pid_room (sm_k s)" using allowed by (simp add: create_allowed_def)
  note D = smp_invD [OF I c]
  show ?thesis
  proof (rule spawn_cases [OF D(3) room, of ki draw entry name])
    fix t' assume "spawn ki draw entry name (sm_k s) = Val (t', Inl PTableFull)" "same_records (sm_k s) t'"
    then show ?thesis by (intro good_create [OF assms, where k = t']) (auto dest: spawn_grown)
  next
    fix t' i assume "spawn ki draw entry name (sm_k s) = Val (t', Inr (pt_next_pid (sm_k s)))"
      "created (sm_k s) t' i (spawn_record (pt_next_pid (sm_k s)) i entry name)"
    moreover have "p_wait_target (spawn_record (pt_next_pid (sm_k s)) i entry name) = None" by (simp add: spawn_record_def)
    ultimately show ?thesis using spawn_grown by (intro good_created [OF assms, where k = t']) (auto simp: spawn_record_def)
  qed
qed

lemma good_fork:
  assumes I: "smp_inv s" and c: "c < MAX_CPUS" and pc: "sm_pc s ! c = Exec i" and allowed: "create_allowed True s"
  shows "good (Some (start_new c (obind (fork ki clone i f (sm_k s)) (\<lambda>(k, r). Val (k, map_sum id fst r))) (sm_pc s ! c) s))"
proof -
  have room: "pid_room (sm_k s)" using allowed by (simp add: create_allowed_def)
  note D = smp_invD [OF I c]
  have serve: "may_serve (sm_pc s ! c)" and h: "held (sm_pc s ! c) = Some i" using pc by (simp_all add: may_serve_def)
  obtain r where r: "pt_get (sm_k s) i = Some r" by (rule held_record [OF I c h])
  show ?thesis
  proof (rule fork_cases [OF D(3) room r, of ki clone f])
    fix t' e assume "fork ki clone i f (sm_k s) = Val (t', Inl e)" "same_records (sm_k s) t'"
    then show ?thesis by (intro good_create [OF I c serve allowed, where k = t']) (auto dest: fork_grown)
  next
    fix t' j sp assume "fork ki clone i f (sm_k s) = Val (t', Inr (pt_next_pid (sm_k s), j))"
      "created (sm_k s) t' j (fork_record r (pt_next_pid (sm_k s)) j sp)"
    moreover have "p_wait_target (fork_record r (pt_next_pid (sm_k s)) j sp) = None" by (simp add: fork_record_def)
    ultimately show ?thesis using fork_grown by (intro good_created [OF I c serve allowed, where k = t']) (auto simp: fork_record_def)
  qed
qed

lemma good_thread:
  assumes I: "smp_inv s" and c: "c < MAX_CPUS" and pc: "sm_pc s ! c = Exec i" and allowed: "create_allowed True s"
  shows "good (Some (start_new c (create_thread ki i entry stack_top tls arg (sm_k s)) (sm_pc s ! c) s))"
proof -
  have room: "pid_room (sm_k s)" using allowed by (simp add: create_allowed_def)
  note D = smp_invD [OF I c]
  have serve: "may_serve (sm_pc s ! c)" using pc by (simp add: may_serve_def)
  show ?thesis
  proof (rule create_thread_cases [OF D(3) room, of ki i entry stack_top tls arg])
    fix t' e assume "create_thread ki i entry stack_top tls arg (sm_k s) = Val (t', Inl e)" "same_records (sm_k s) t'"
    then show ?thesis by (intro good_create [OF I c serve allowed, where k = t']) (auto dest: create_thread_grown)
  next
    fix t' j r assume "create_thread ki i entry stack_top tls arg (sm_k s) = Val (t', Inr (pt_next_pid (sm_k s)))"
      "created (sm_k s) t' j (thread_record r (pt_next_pid (sm_k s)) j entry stack_top)"
    moreover have "p_wait_target (thread_record r (pt_next_pid (sm_k s)) j entry stack_top) = None" by (simp add: thread_record_def)
    ultimately show ?thesis using create_thread_grown by (intro good_created [OF I c serve allowed, where k = t']) (auto simp: thread_record_def)
  qed
qed

end
