(* ===== verification/Smp_Reach.thy ===== *)
theory Smp_Reach
  imports Smp_Events
begin

text \<open>
  Waiting, exiting and reaping keep the invariant as well, so that it holds in every state that a
  serial run reaches.
\<close>

section \<open>Requests of a running process\<close>

lemma good_request:
  assumes I: "smp_inv s" and c: "c < MAX_CPUS" and pc: "sm_pc s ! c = Exec i"
    and x: "x \<in> {YieldDetach i, WaitBlock i, ExitDetach i st}"
  shows "smp_inv (goto c x (sm_k s) s)"
proof -
  note D = smp_invD [OF I c]
  have h: "held (sm_pc s ! c) = Some i" using pc by simp
  obtain r where r: "a_rec (sm_k s) i = Some (core r)" "p_state r = Running" "\<not> p_wake_pending r"
      "(a_own (sm_k s))(i := Some c) = a_own (sm_k s)"
    by (rule held_record [OF I c h]) (auto simp: pc)
  show ?thesis
    by (rule good_handoff [OF I c r(1), where r' = "core r" and ow = "Some c"])
      (use r D(4) cur_same [OF I c, of x] x pc in \<open>auto simp: fun_upd_idem handoff_ok_def delivering_def\<close>)
qed

text \<open>Hooks that leave the scheduling fields alone.\<close>

lemma kern_table:
  assumes K: "kern n k rec own cur q" and h: "h None = None"
    "\<And>r. \<exists>r'. h (Some r) = Some r' \<and> core r' = core r \<and> p_slot r' = p_slot r"
  shows "kern n (k\<lparr>pt_table := map h (pt_table k)\<rparr>) rec own cur q"
proof -
  let ?k = "k\<lparr>pt_table := map h (pt_table k)\<rparr>"
  have get: "pt_get ?k i = h (pt_get k i)" for i using h(1) by (simp add: pt_get_def)
  have core: "map_option core (h e) = map_option core e" for e
  proof (cases e)
    case (Some r)
    then show ?thesis using h(2) [of r] by auto
  qed (simp add: h(1))
  have old: "\<exists>r. pt_get k i = Some r \<and> core r' = core r \<and> p_slot r' = p_slot r" if "pt_get ?k i = Some r'" for i r'
  proof (cases "pt_get k i")
    case (Some r)
    then show ?thesis using that h(2) [of r] unfolding get by auto
  qed (use that h(1) get in simp)
  have pid: "core r' = core r \<Longrightarrow> p_pid r' = p_pid r" for r r' by (metis core_simps(1))
  have wf: "pt_wf k" using K by (simp add: kern_def k_ok_def)
  have "p_slot r = i \<and> p_pid r < pt_next_pid ?k" if ri: "pt_get ?k i = Some r" for i r
  proof -
    obtain r0 where "pt_get k i = Some r0" "p_pid r = p_pid r0" "p_slot r = p_slot r0" using old [OF ri] pid by blast
    then show ?thesis using pt_wf_slot [OF wf, of i r0] pt_wf_pid [OF wf, of i r0] by simp
  qed
  moreover have "i = j" if ij: "pt_get ?k i = Some r" "pt_get ?k j = Some t" "p_pid r = p_pid t" for i j r t
  proof -
    obtain r0 t0 where "pt_get k i = Some r0" "p_pid r = p_pid r0" "pt_get k j = Some t0" "p_pid t = p_pid t0"
      using old [OF ij(1)] old [OF ij(2)] pid by blast
    then show ?thesis using pt_wf_inj [OF wf, of i r0 j t0] ij(3) by simp
  qed
  moreover have "length (pt_table ?k) \<le> MAX_PROCESSES" "length (pt_owner ?k) = MAX_PROCESSES" "length (pt_frames ?k) = MAX_PROCESSES"
    using wf by (simp_all add: pt_wf_def)
  ultimately have "pt_wf ?k" unfolding pt_wf_def by blast
  moreover have "a_rec ?k = a_rec k" "a_own ?k = a_own k" "a_cur ?k = a_cur k" "a_queue ?k = a_queue k"
    using core by (simp_all add: a_rec_def get a_own_def pt_own_def a_cur_def a_queue_def fun_eq_iff)
  ultimately show ?thesis using K by (simp add: kern_def k_ok_def)
qed

lemma kern_cong:
  assumes "pt_table k' = pt_table k" "pt_owner k' = pt_owner k" "pt_frames k' = pt_frames k" "pt_next_pid k' = pt_next_pid k"
    "sc_queue k' = sc_queue k" "sc_current k' = sc_current k" "sc_level k' = sc_level k" "sc_slice k' = sc_slice k"
  shows "kern n k' rec own cur q \<longleftrightarrow> kern n k rec own cur q"
proof -
  have "pt_get k' = pt_get k" "pt_own k' = pt_own k" using assms by (simp_all add: pt_get_def pt_own_def fun_eq_iff)
  then have "a_rec k' = a_rec k" "a_own k' = a_own k" "pt_wf k' = pt_wf k" "a_cur k' = a_cur k" "a_queue k' = a_queue k"
    using assms by (simp_all add: a_rec_def a_own_def pt_wf_def a_cur_def a_queue_def fun_eq_iff)
  then show ?thesis using assms by (simp add: kern_def k_ok_def)
qed

lemma kern_extra [simp]:
  "kern n (k_futex_update f k) rec own cur q \<longleftrightarrow> kern n k rec own cur q"
  "kern n (k_book_update f1 k) rec own cur q \<longleftrightarrow> kern n k rec own cur q"
  "kern n (k_shm_update f2 k) rec own cur q \<longleftrightarrow> kern n k rec own cur q"
  "kern n (k_destroyed_update f3 k) rec own cur q \<longleftrightarrow> kern n k rec own cur q"
  "kern n (k_freed_update f4 k) rec own cur q \<longleftrightarrow> kern n k rec own cur q"
  by (rule kern_cong; simp)+

lemma kern_clear_session:
  assumes "kern n k rec own cur q"
  shows "kern n (fst (clear_session_members sid keep k)) rec own cur q"
proof (cases "sid = 0")
  case False
  have "kern n (k\<lparr>pt_table := map (\<lambda>e. if in_session sid keep e then map_option (p_session_update (\<lambda>_. 0)) e else e)
      (pt_table k)\<rparr>) rec own cur q"
    by (rule kern_table [OF assms]) (auto simp: core_def)
  then show ?thesis using False by (simp add: clear_session_members_def)
qed (use assms in \<open>simp add: clear_session_members_def\<close>)

lemma kern_hooks:
  assumes "kern n k rec own cur q"
  shows "kern n (destroy_space sp k) rec own cur q" "kern n (shm_gone p k) rec own cur q"
    "kern n (security_process_gone p k) rec own cur q" "kern n (futex_detach p k) rec own cur q"
proof -
  show "kern n (security_process_gone p k) rec own cur q"
    using assms kern_clear_session [where k = "k\<lparr>k_book := fst (gb_process_gone p (k_book k))\<rparr>"]
    by (auto simp: security_process_gone_def Let_def split: prod.splits option.splits)
qed (use assms in \<open>simp_all add: destroy_space_def shm_gone_def futex_detach_def split: option.splits prod.splits\<close>)

lemma wait_scan_collect:
  "wait_scan_from caller target live vs = WdCollect sl p code \<Longrightarrow>
    \<exists>v. Some v \<in> set vs \<and> v_slot v = sl \<and> v_pid v = p \<and> v_parent v = Some caller \<and> v_state v = Zombie"
  by (induction caller target live vs rule: wait_scan_from.induct) (auto split: if_splits option.splits)

lemma wait_scan_block:
  "wait_scan_from caller target live vs = WdBlock \<Longrightarrow> Some v \<in> set vs \<Longrightarrow> v_parent v = Some caller \<Longrightarrow>
    target = 0 \<or> v_pid v = target \<Longrightarrow> v_state v = Zombie \<Longrightarrow> v_exit_code v = None"
  by (induction caller target live vs rule: wait_scan_from.induct) (auto split: if_splits option.splits)

lemma table_view:
  "Some v \<in> set (table_views t) \<longleftrightarrow> (\<exists>i r. i < MAX_PROCESSES \<and> pt_get t i = Some r \<and> v = view_of i r)"
proof -
  have "set (table_views t) = (\<lambda>i. map_option (view_of i) (pt_get t i)) ` {..<MAX_PROCESSES}"
    by (auto simp: table_views_def)
  moreover have "Some v = map_option (view_of i) (pt_get t i) \<longleftrightarrow> (\<exists>r. pt_get t i = Some r \<and> v = view_of i r)" for i
    by (cases "pt_get t i") auto
  ultimately show ?thesis unfolding image_iff by blast
qed

lemma good_collect:
  assumes I: "smp_inv s" and c: "c < MAX_CPUS" and pc: "sm_pc s ! c = Exec i"
    and me: "pt_get (sm_k s) i = Some me" and z: "pt_get (sm_k s) j = Some z" "p_parent z = Some (p_pid me)" "p_state z = Zombie"
    and K: "\<And>rec own cur q. kern (size_of s) (pt_set j None (sm_k s)) rec own cur q \<Longrightarrow> kern (size_of s) k rec own cur q"
  shows "smp_inv (goto c (Exec i) k s)"
proof -
  note D = smp_invD [OF I c]
  have pc': "a_pc s c = Exec i" using pc D(6) by simp
  have h: "held (a_pc s c) = Some i" using pc' by simp
  note f = held_facts [OF D(5) h]
  have R: "a_rec (sm_k s) i = Some (core me)" "a_rec (sm_k s) j = Some (core z)" "c_state (core z) = Zombie"
    using me z by (simp_all add: a_rec_def)
  have "\<not> parked (a_rec (sm_k s)) (a_pc s) i" using f(7) pc' by auto
  note u = unparked(2) [OF D(5) R(1) this]
  have nd: "a_pc s d \<noteq> Deliver j ps pp w" for d ps pp w
  proof
    assume d: "a_pc s d = Deliver j ps pp w"
    then have "pp = p_pid me" using inv_deliverD(1) [OF ainvD(12) [OF D(5)] d] R(2) z(2) by auto
    then show False using u [of d] d by (simp add: delivering_def)
  qed
  have cur: "(a_cur (sm_k s))(c := shown (Exec i)) = a_cur (sm_k s)" using cur_same [OF I c, of "Exec i"] pc by simp
  have "ainv ((a_rec (sm_k s))(j := None)) (a_own (sm_k s)) ((a_cur (sm_k s))(c := shown (Exec i))) ((a_pc s)(c := Exec i))
      (a_queue (sm_k s))"
    by (rule ainv_remove [OF D(5) c R(2,3)]) (use nd pc' in auto)
  then show ?thesis using smp_invI [OF I K [OF kern_remove [OF D(4)]] _ c] cur by simp
qed

lemma good_wait:
  assumes I: "smp_inv s" and c: "c < MAX_CPUS" and pc: "sm_pc s ! c = Exec i"
  shows "good (smp_act serial c (EvWait target flags) s)"
proof -
  note D = smp_invD [OF I c]
  have h: "held (sm_pc s ! c) = Some i" using pc by simp
  obtain me where me: "pt_get (sm_k s) i = Some me" "i < length (pt_table (sm_k s))" "a_rec (sm_k s) i = Some (core me)"
    by (rule held_record [OF I c h])
  have slot: "current_slot c (sm_k s) = Val i" using D(7) pc by (simp add: current_slot_def)
  have entry: "pt_table (sm_k s) ! i = Some me" using me by (simp add: pt_get_def)
  have pc': "a_pc s c = Exec i" using pc D(6) by simp
  have stay: "smp_inv (goto c (Exec i) (sm_k s) s)"
    by (rule good_move [OF I c]) (use D(4) cur_same [OF I c, of "Exec i"] pc in \<open>auto simp: pc_move_def delivering_def\<close>)
  note act = smp_act_def waitpid_step_def slot me(2) entry pc Let_def good_def
  show ?thesis
  proof (cases "wait_plan (p_pid me) target flags (table_views (sm_k s))")
    case (WaCollect j packed)
    then obtain p code where "wait_scan (p_pid me) target (table_views (sm_k s)) = WdCollect j p code"
      by (auto simp: wait_plan_def split: wait_decision.splits if_splits)
    then obtain z where z: "pt_get (sm_k s) j = Some z" "p_parent z = Some (p_pid me)" "p_state z = Zombie"
      using wait_scan_collect [of "p_pid me" target False "table_views (sm_k s)" j p code]
      by (auto simp: wait_scan_def table_view view_of_def)
    let ?k = "shm_gone (drop_bit 32 packed) (security_process_gone (drop_bit 32 packed)
      (destroy_space (p_addr_space z) (pt_set j None (sm_k s))))"
    have "smp_inv (goto c (Exec i) ?k s)" by (rule good_collect [OF I c pc me(1) z]) (intro kern_hooks)
    moreover have "j < length (pt_table (sm_k s))" "pt_table (sm_k s) ! j = Some z"
      using z(1) by (auto simp: pt_get_def split: if_splits)
    ultimately show ?thesis by (simp add: act WaCollect)
  next
    case WaSleep
    let ?spec = "if target = 0 then WaitAny else WaitPid target"
    have scan: "wait_scan_from (p_pid me) target False (table_views (sm_k s)) = WdBlock"
      using WaSleep by (auto simp: wait_plan_def wait_scan_def split: wait_decision.splits if_splits)
    have wd: "wait_done (a_rec (sm_k s)) ?spec (c_pid (core me))"
      unfolding wait_done_def
    proof (intro allI impI notI)
      fix j z assume z: "a_rec (sm_k s) j = Some z" "c_parent z = Some (c_pid (core me))" "c_state z = Zombie"
        "c_code z \<noteq> None" "ws_matches ?spec (c_pid z)"
      then obtain r where r: "pt_get (sm_k s) j = Some r" "z = core r" by (auto simp: a_rec_Some)
      then have "Some (view_of j r) \<in> set (table_views (sm_k s))" using k_ok_index [OF D(2)] by (auto simp: table_view)
      then show False using wait_scan_block [OF scan, of "view_of j r"] z r(2) by (auto simp: view_of_def split: if_splits)
    qed
    let ?f = "\<lambda>r. r\<lparr>p_wait_target := Some ?spec\<rparr>"
    have K: "kern (size_of s) (pt_modify i ?f (sm_k s)) ((a_rec (sm_k s))(i := Some (core (?f me)))) (a_own (sm_k s)) (a_cur (sm_k s)) (a_queue (sm_k s))"
      by (rule kern_modify [OF D(4) me(1)]) simp_all
    have "ainv ((a_rec (sm_k s))(i := Some (core (?f me)))) (a_own (sm_k s)) (a_cur (sm_k s)) ((a_pc s)(c := WaitBlock i)) (a_queue (sm_k s))"
      using ainv_register [OF D(5) c pc' me(3) wd] by (simp add: core_def)
    then have "smp_inv (goto c (WaitBlock i) (pt_modify i ?f (sm_k s)) s)" by (rule smp_invI [OF I K _ c]) simp
    then show ?thesis by (simp add: act WaSleep)
  qed (use stay in \<open>simp_all add: act\<close>)
qed

section \<open>Exiting\<close>

lemma kern_transfer:
  assumes K: "kern n k rec own cur q"
  shows "kern n (fst (transfer_group_space_locked tg dying sp k)) rec own cur q"
proof (cases "group_survivor_index tg dying k")
  case None
  then show ?thesis using K by (simp add: transfer_group_space_locked_def)
next
  case (Some i)
  then obtain r where r: "pt_get k i = Some r"
    by (auto simp: group_survivor_index_def position_Some_iff survives_def pt_get_def split: option.splits)
  let ?f = "\<lambda>r. r\<lparr>p_addr_space := Some sp\<rparr>"
  have "kern n (pt_modify i ?f k) (rec(i := Some (core (?f r)))) own cur q" by (rule kern_modify [OF K r]) simp_all
  moreover have "rec i = Some (core (?f r))" using K r by (auto simp: kern_def a_rec_def core_def)
  ultimately show ?thesis using Some by (simp add: transfer_group_space_locked_def fun_upd_idem)
qed

lemma transfer_get:
  assumes "pt_get (fst (transfer_group_space_locked tg dying sp k)) i = Some r'"
  obtains r where "pt_get k i = Some r" "core r' = core r"
  using assms by (auto simp: transfer_group_space_locked_def core_def split: option.splits if_splits)

lemma transfer_sel [simp]:
  "length (pt_table (fst (transfer_group_space_locked tg dying sp k))) = length (pt_table k)"
  "pt_next_pid (fst (transfer_group_space_locked tg dying sp k)) = pt_next_pid k"
  by (simp_all add: transfer_group_space_locked_def split: option.splits)

lemma parent_entry_Some:
  "parent_entry parent k = Some (ps, pr) \<Longrightarrow> parent = Some (p_pid pr) \<and> pt_get k ps = Some pr"
  by (auto simp: parent_entry_def bind_eq_Some_conv dest: pt_find_Some)

lemma kern_insert:
  assumes K: "kern n k rec own cur q" and i: "i < length (pt_table k)" "p_slot r = i" "p_pid r < pt_next_pid k"
    and fresh: "\<And>j s. j \<noteq> i \<Longrightarrow> rec j = Some s \<Longrightarrow> c_pid s \<noteq> p_pid r"
  shows "kern n (pt_set i (Some r) k) (rec(i := Some (core r))) own cur q"
proof -
  have wf: "pt_wf k" and rec: "rec = a_rec k" using K by (auto simp: kern_def k_ok_def)
  have "pt_wf (pt_set i (Some r) k)"
    by (rule pt_wf_insert [OF wf i]) (use fresh rec in \<open>force simp: a_rec_Some\<close>)
  moreover have "a_rec (pt_set i (Some r) k) = rec(i := Some (core r))"
    using i(1) by (auto simp: rec a_rec_def fun_eq_iff)
  ultimately show ?thesis using K by (simp add: kern_def k_ok_def)
qed

text \<open>What the core that takes a process down knows.\<close>

lemma exit_record:
  assumes I: "smp_inv s" and c: "c < MAX_CPUS" and h: "exiting (sm_pc s ! c) = Some i"
  obtains r where "pt_get (sm_k s) i = Some r" "p_state r = Running" "a_rec (sm_k s) i = Some (core r)"
    "i < length (pt_table (sm_k s))" "pt_table (sm_k s) ! i = Some r" "p_wait_target r = None" "p_slot r = i"
    "p_pid r < pt_next_pid (sm_k s)" "\<And>j t. j \<noteq> i \<Longrightarrow> a_rec (sm_k s) j = Some t \<Longrightarrow> c_pid t \<noteq> p_pid r"
proof -
  note D = smp_invD [OF I c]
  have h': "exiting (a_pc s c) = Some i" using h D(6) by simp
  note f = exit_facts [OF D(5) h']
  obtain r where r: "pt_get (sm_k s) i = Some r" "p_state r = Running" using f(2) by (auto simp: a_rec_Some)
  have R: "a_rec (sm_k s) i = Some (core r)" using r by (simp add: a_rec_def)
  have "p_wait_target r = None" using unparked(1) [OF D(5) R f(8)] by simp
  moreover have "c_pid t \<noteq> p_pid r" if "j \<noteq> i" "a_rec (sm_k s) j = Some t" for j t
    using ainvD(1) [OF D(5)] that R unfolding inv_pids_def by (metis core_simps(1))
  moreover have "i < length (pt_table (sm_k s))" "pt_table (sm_k s) ! i = Some r"
    using r(1) by (auto simp: pt_get_def split: if_splits)
  ultimately show thesis using that r R pt_wf_slot [OF D(3) r(1)] pt_wf_pid [OF D(3) r(1)] by blast
qed

lemma good_exit_reap:
  assumes I: "smp_inv s" and c: "c < MAX_CPUS" and pc: "sm_pc s ! c = ExitPlan i st"
    and me: "pt_get (sm_k s) i = Some me"
    and k: "exit_reap i st me (futex_detach (p_pid me) (sm_k s)) = (k, plan)"
  shows "plan = EpReapNow" "smp_inv (goto c (ReapSeed i) k s)"
proof -
  note D = smp_invD [OF I c]
  have h: "exiting (sm_pc s ! c) = Some i" using pc by simp
  obtain r where r: "pt_get (sm_k s) i = Some r" "a_rec (sm_k s) i = Some (core r)" "i < length (pt_table (sm_k s))"
      "p_slot r = i" "p_pid r < pt_next_pid (sm_k s)" "\<And>j t. j \<noteq> i \<Longrightarrow> a_rec (sm_k s) j = Some t \<Longrightarrow> c_pid t \<noteq> p_pid r"
    by (rule exit_record [OF I c h]) blast
  have me: "me = r" using me r(1) by simp
  let ?k1 = "pt_set i None (futex_detach (p_pid me) (sm_k s))"
  define k2 where "k2 = (case p_addr_space me of None \<Rightarrow> ?k1
    | Some sp \<Rightarrow> fst (transfer_group_space_locked (p_tgid me) (p_pid me) sp ?k1))"
  let ?me = "me\<lparr>p_exit_code := Some st, p_addr_space := None\<rparr>"
  have k': "k = pt_set i (Some ?me) k2" and plan: "plan = EpReapNow"
    using k by (auto simp: exit_reap_def Let_def k2_def)
  let ?rec = "a_rec (sm_k s)" and ?own = "a_own (sm_k s)" and ?cur = "a_cur (sm_k s)" and ?q = "a_queue (sm_k s)"
  have "kern (size_of s) ?k1 (?rec(i := None)) ?own ?cur ?q" by (intro kern_remove kern_hooks D(4))
  then have K2: "kern (size_of s) k2 (?rec(i := None)) ?own ?cur ?q"
    unfolding k2_def by (cases "p_addr_space me") (simp_all add: kern_transfer)
  have len: "length (pt_table k2) = length (pt_table (sm_k s))" "pt_next_pid k2 = pt_next_pid (sm_k s)"
    unfolding k2_def by (simp_all add: futex_detach_def split: option.splits)
  have "kern (size_of s) (pt_set i (Some ?me) k2) ((?rec(i := None))(i := Some (core ?me))) ?own ?cur ?q"
    by (rule kern_insert [OF K2]) (use r me len in \<open>auto split: if_splits\<close>)
  then have K: "kern (size_of s) k (?rec(i := Some (core ?me))) ?own ?cur ?q" unfolding k' by simp
  have "a_pc s c = ExitPlan i st" using pc D(6) by simp
  then have "ainv (?rec(i := Some (core ?me))) ?own ?cur ((a_pc s)(c := ReapSeed i)) ?q"
    using ainv_doom [OF D(5) c _ r(2), of st st] me by (simp add: core_def)
  then show "smp_inv (goto c (ReapSeed i) k s)" by (rule smp_invI [OF I K _ c]) simp
  show "plan = EpReapNow" by (rule plan)
qed

text \<open>The zombie's kernel state before the parent is looked at, and the decision about the parent.\<close>

definition zombie_state :: "nat \<Rightarrow> u32 \<Rightarrow> process_record \<Rightarrow> kernel \<Rightarrow> kernel \<times> aspace option" where
  "zombie_state i st me k =
    (let k = pt_modify i (\<lambda>r. r\<lparr>p_exit_code := Some st, p_state := Zombie, p_addr_space := None\<rparr>) k in
     case p_addr_space me of None \<Rightarrow> (k, None) | Some sp \<Rightarrow> transfer_group_space_locked (p_tgid me) (p_pid me) sp k)"

lemma exit_zombie_eq:
  "exit_zombie i st me k = (case zombie_state i st me k of (k3, space) \<Rightarrow>
     (case parent_entry (p_parent me) k of
        None \<Rightarrow> (k3, EpZombie None (pack_wait_result (p_pid me) st) space)
      | Some (ps, pr) \<Rightarrow> (case pt_get k3 ps of
          None \<Rightarrow> (k3, EpZombie None (pack_wait_result (p_pid me) st) space)
        | Some r \<Rightarrow> if wait_wake_decision (p_wait_target r) (p_pid me)
            then (pt_modify ps (\<lambda>r. r\<lparr>p_wait_target := None\<rparr>) k3,
                  EpZombie (Some (ps, p_pid pr)) (pack_wait_result (p_pid me) st) space)
            else (k3, EpZombie None (pack_wait_result (p_pid me) st) space))))"
  by (simp add: exit_zombie_def zombie_state_def Let_def split: option.splits prod.splits)

lemma zombie_state_kern:
  assumes K: "kern n k rec own cur q" and me: "pt_get k i = Some me" and z: "zombie_state i st me k = (k3, space)"
  shows "kern n k3 (rec(i := Some ((core me)\<lparr>c_state := Zombie, c_code := Some st\<rparr>))) own cur q"
proof -
  let ?f = "\<lambda>r. r\<lparr>p_exit_code := Some st, p_state := Zombie, p_addr_space := None\<rparr>"
  have "kern n (pt_modify i ?f k) (rec(i := Some (core (?f me)))) own cur q" by (rule kern_modify [OF K me]) simp_all
  moreover have "core (?f me) = (core me)\<lparr>c_state := Zombie, c_code := Some st\<rparr>" by (simp add: core_def)
  ultimately have K2: "kern n (pt_modify i ?f k) (rec(i := Some ((core me)\<lparr>c_state := Zombie, c_code := Some st\<rparr>))) own cur q"
    by simp
  show ?thesis
    using K2 kern_transfer [OF K2] z by (auto simp: zombie_state_def Let_def split: option.splits) (metis fst_conv)
qed

lemma good_exit_zombie:
  assumes I: "smp_inv s" and c: "c < MAX_CPUS" and pc: "sm_pc s ! c = ExitPlan i st"
    and me: "pt_get (sm_k s) i = Some me" and par: "parent_entry (p_parent me) (futex_detach (p_pid me) (sm_k s)) = Some (ps, pr)"
    and k: "exit_zombie i st me (futex_detach (p_pid me) (sm_k s)) = (k, plan)"
  obtains space where "plan = EpZombie None (pack_wait_result (p_pid me) st) space" "smp_inv (goto c Pick (destroy_space space k) s)"
  | space pp where "plan = EpZombie (Some (ps, pp)) (pack_wait_result (p_pid me) st) space"
      "smp_inv (goto c (Deliver i ps pp (pack_wait_result (p_pid me) st)) (destroy_space space k) s)"
proof -
  note D = smp_invD [OF I c]
  let ?rec = "a_rec (sm_k s)" and ?own = "a_own (sm_k s)" and ?cur = "a_cur (sm_k s)" and ?q = "a_queue (sm_k s)"
  let ?w = "pack_wait_result (p_pid me) st" and ?k1 = "futex_detach (p_pid me) (sm_k s)"
  let ?z = "(core me)\<lparr>c_state := Zombie, c_code := Some st\<rparr>"
  have h: "exiting (sm_pc s ! c) = Some i" and pc': "a_pc s c = ExitPlan i st" using pc D(6) by simp_all
  have R: "?rec i = Some (core me)" and nowait: "p_wait_target me = None"
    by (rule exit_record [OF I c h], use me in \<open>simp add: a_rec_def\<close>)+
  have get1: "pt_get ?k1 = pt_get (sm_k s)" by (simp add: futex_detach_def pt_get_def fun_eq_iff)
  obtain k3 space where z: "zombie_state i st me ?k1 = (k3, space)" by fastforce
  have K3: "kern (size_of s) k3 (?rec(i := Some ?z)) ?own ?cur ?q"
    by (rule zombie_state_kern [OF kern_hooks(4) [OF D(4)] _ z]) (simp add: get1 me)
  have pr: "p_parent me = Some (p_pid pr)" "pt_get (sm_k s) ps = Some pr" using parent_entry_Some [OF par] by (auto simp: get1)
  have P: "?rec ps = Some (core pr)" using pr by (simp add: a_rec_def)
  obtain r3 where r3: "pt_get k3 ps = Some r3" "p_wait_target r3 = p_wait_target pr"
  proof -
    have "map_option core (pt_get k3 ps) = (?rec(i := Some ?z)) ps" using K3 by (auto simp: kern_def a_rec_def fun_eq_iff)
    moreover have "c_wait (the ((?rec(i := Some ?z)) ps)) = p_wait_target pr" using P R pr(2) me by auto
    moreover have "(?rec(i := Some ?z)) ps \<noteq> None" using P by simp
    ultimately show thesis using that by (cases "pt_get k3 ps") (auto simp: core_def)
  qed
  have parent: "j = ps \<and> t = core pr" if "?rec j = Some t" "c_parent (core me) = Some (c_pid t)" for j t
    using ainvD(1) [OF D(5)] that P pr(1) unfolding inv_pids_def by (metis core_simps(1,6) option.inject)
  show thesis
  proof (cases "wait_wake_decision (p_wait_target r3) (p_pid me)")
    case False
    then have kp: "k = k3" "plan = EpZombie None ?w space" using k z par r3 by (auto simp: exit_zombie_eq)
    have quiet: "\<not> ws_matches spec (c_pid (core me))"
      if "?rec j = Some t" "c_wait t = Some spec" "c_parent (core me) = Some (c_pid t)" for j t spec
      using parent [OF that(1,3)] that(2) False r3(2) by (simp add: wait_wake_decision_def)
    have "ainv (?rec(i := Some ?z)) ?own ?cur ((a_pc s)(c := Pick)) ?q"
      by (rule ainv_zombie [OF D(5) c pc' R quiet]) blast+
    then have "smp_inv (goto c Pick (destroy_space space k) s)"
      unfolding kp by (rule smp_invI [OF I kern_hooks(1) [OF K3] _ c]) simp
    then show thesis using that(1) kp by blast
  next
    case True
    then obtain spec where spec: "p_wait_target pr = Some spec" "ws_matches spec (p_pid me)"
      using r3(2) by (auto simp: wait_wake_decision_def split: option.splits)
    let ?pr = "(core pr)\<lparr>c_wait := None\<rparr>" and ?x = "Deliver i ps (p_pid pr) ?w"
    have psi: "ps \<noteq> i" using spec nowait pr(2) me by auto
    have kp: "k = pt_modify ps (\<lambda>r. r\<lparr>p_wait_target := None\<rparr>) k3" "plan = EpZombie (Some (ps, p_pid pr)) ?w space"
      using True k z par r3 by (auto simp: exit_zombie_eq)
    have "a_rec k3 ps = Some (core pr)" using K3 P psi by (auto simp: kern_def)
    then have core3: "core r3 = core pr" using r3(1) by (simp add: a_rec_def)
    have "kern (size_of s) k ((?rec(i := Some ?z))(ps := Some (core (r3\<lparr>p_wait_target := None\<rparr>)))) ?own ?cur ?q"
      unfolding kp by (rule kern_modify [OF K3 r3(1)]) simp_all
    moreover have "core (r3\<lparr>p_wait_target := None\<rparr>) = ?pr" using core3 by (simp add: core_def)
    ultimately have K: "kern (size_of s) k ((?rec(ps := Some ?pr))(i := Some ?z)) ?own ?cur ?q"
      using psi by (simp add: fun_upd_twist)
    have wait: "parked ?rec (a_pc s) ps" "\<forall>d. \<not> delivering (p_pid pr) (a_pc s d)"
      using ainvD(11) [OF D(5)] P spec(1) unfolding inv_wait_alt by (metis core_simps(1,5))+
    have A: "ainv (?rec(ps := Some ?pr)) ?own ?cur (a_pc s) ?q" by (rule ainv_unwait [OF D(5) P])
    have park: "parked (?rec(ps := Some ?pr)) (a_pc s) ps" using wait(1) P by (auto simp: parked_def)
    have pend: "\<not> c_pending ?pr" using pending_free(1) [OF D(5) P] spec(1) by auto
    have quiet: "\<not> ws_matches spec' (c_pid (core me))"
      if "(?rec(ps := Some ?pr)) j = Some t" "c_wait t = Some spec'" "c_parent (core me) = Some (c_pid t)" for j t spec'
      using that parent [of j t] by (auto split: if_splits)
    have Ri: "(?rec(ps := Some ?pr)) i = Some (core me)" using psi R by simp
    have "ainv ((?rec(ps := Some ?pr))(i := Some ?z)) ?own ?cur ((a_pc s)(c := ?x)) ?q"
    proof (rule ainv_zombie [OF A c pc' Ri quiet], assumption+, rule disjI2, intro exI conjI)
      show "parked (?rec(ps := Some ?pr)) (a_pc s) ps" "\<not> c_pending ?pr" "\<forall>d. \<not> delivering (p_pid pr) (a_pc s d)"
        by (fact park pend wait(2))+
    qed (simp_all add: pr(1))
    then have "smp_inv (goto c ?x (destroy_space space k) s)" by (rule smp_invI [OF I kern_hooks(1) [OF K] _ c]) simp
    then show thesis using that(2) kp by blast
  qed
qed

lemma good_exit_plan:
  assumes I: "smp_inv s" and c: "c < MAX_CPUS" and pc: "sm_pc s ! c = ExitPlan i st"
  shows "good (smp_step c s)"
proof -
  have h: "exiting (sm_pc s ! c) = Some i" using pc by simp
  obtain me where me: "pt_get (sm_k s) i = Some me" "i < length (pt_table (sm_k s))" "pt_table (sm_k s) ! i = Some me"
    by (rule exit_record [OF I c h]) blast
  let ?k = "futex_detach (p_pid me) (sm_k s)"
  define alive where "alive = (case parent_entry (p_parent me) ?k of Some (_, r) \<Rightarrow> p_state r \<noteq> Zombie | None \<Rightarrow> False)"
  have plan: "exit_plan i st (sm_k s) = Val (case exit_disposition (p_parent me) alive (p_adopted me) of
      BecomeZombie \<Rightarrow> exit_zombie i st me ?k | ReapImmediately \<Rightarrow> exit_reap i st me ?k)"
    using me by (simp add: exit_plan_def Let_def alive_def)
  show ?thesis
  proof (cases "exit_disposition (p_parent me) alive (p_adopted me)")
    case BecomeZombie
    then have alive by (auto simp: exit_disposition_def split: if_splits option.splits)
    then obtain ps pr where par: "parent_entry (p_parent me) ?k = Some (ps, pr)"
      by (auto simp: alive_def split: option.splits)
    obtain k pl where k: "exit_zombie i st me ?k = (k, pl)" by fastforce
    show ?thesis
      by (rule good_exit_zombie [OF I c pc me(1) par k])
        (use plan BecomeZombie k in \<open>simp_all add: smp_step_def pc Let_def good_def\<close>)
  next
    case ReapImmediately
    obtain k pl where k: "exit_reap i st me ?k = (k, pl)" by fastforce
    show ?thesis
      using good_exit_reap [OF I c pc me(1) k] plan ReapImmediately k by (simp add: smp_step_def pc Let_def good_def)
  qed
qed

lemma good_deliver:
  assumes I: "smp_inv s" and c: "c < MAX_CPUS" and pc: "sm_pc s ! c = Deliver i ps pp w"
  shows "good (smp_step c s)"
proof -
  note D = smp_invD [OF I c]
  have pc': "a_pc s c = Deliver i ps pp w" using pc D(6) by simp
  obtain z where z: "a_rec (sm_k s) i = Some z" "c_state z = Zombie" "c_parent z = Some pp"
    using inv_deliverD(1) [OF ainvD(12) [OF D(5)] pc'] by blast
  have nd: "a_pc s d \<noteq> Deliver i ps' pp' w'" if "d \<noteq> c" for d ps' pp' w'
  proof
    assume d: "a_pc s d = Deliver i ps' pp' w'"
    then have "pp' = pp" using inv_deliverD(1) [OF ainvD(12) [OF D(5)] d] z by auto
    then have "d = c" using inv_deliverD(3) [OF ainvD(12) [OF D(5)], of pp d c] d pc' by (simp add: delivering_def)
    then show False using that by simp
  qed
  have "ainv ((a_rec (sm_k s))(i := None)) (a_own (sm_k s)) ((a_cur (sm_k s))(c := shown (WakeParent pp)))
      ((a_pc s)(c := WakeParent pp)) (a_queue (sm_k s))"
    by (rule ainv_remove [OF D(5) c z(1,2) nd]) (use pc' in \<open>auto simp: delivering_def\<close>)
  moreover have "kern (size_of s) (deliver_exit i ps w (sm_k s)) ((a_rec (sm_k s))(i := None)) (a_own (sm_k s)) (a_cur (sm_k s)) (a_queue (sm_k s))"
    unfolding deliver_exit_def by (rule kern_remove) (use D(4) in \<open>simp add: kern_frames\<close>)
  ultimately have "smp_inv (goto c (WakeParent pp) (deliver_exit i ps w (sm_k s)) s)"
    using smp_invI [OF I _ _ c] cur_same [OF I c, of "WakeParent pp"] pc by simp
  then show ?thesis by (simp add: smp_step_def pc Let_def good_def)
qed

section \<open>Reaping\<close>

lemma pt_wf_sub:
  assumes wf: "pt_wf t" and sub: "\<And>j r'. pt_get t' j = Some r' \<Longrightarrow> \<exists>r. pt_get t j = Some r \<and> p_pid r' = p_pid r \<and> p_slot r' = p_slot r"
    and same: "length (pt_table t') = length (pt_table t)" "pt_owner t' = pt_owner t" "pt_frames t' = pt_frames t" "pt_next_pid t' = pt_next_pid t"
  shows "pt_wf t'"
  unfolding pt_wf_def
proof (intro conjI allI impI)
  fix j r' assume "pt_get t' j = Some r'"
  then obtain r where "pt_get t j = Some r" "p_pid r' = p_pid r" "p_slot r' = p_slot r" using sub by blast
  then show "p_slot r' = j" "p_pid r' < pt_next_pid t'" using pt_wf_slot [OF wf] pt_wf_pid [OF wf] same by auto
next
  fix j l r' t1 assume "pt_get t' j = Some r'" "pt_get t' l = Some t1" and pid: "p_pid r' = p_pid t1"
  then obtain r t2 where "pt_get t j = Some r" "p_pid r' = p_pid r" "pt_get t l = Some t2" "p_pid t1 = p_pid t2"
    using sub by blast
  then show "j = l" using pt_wf_inj [OF wf, of j r l t2] pid by simp
qed (use wf same in \<open>auto simp: pt_wf_def\<close>)

lemma orphan_entry_Some:
  "orphan_entry d e = Some r' \<Longrightarrow> \<exists>r. e = Some r \<and> p_slot r' = p_slot r \<and> c_pid (core r') = c_pid (core r) \<and>
    c_state (core r') = c_state (core r) \<and> c_intent (core r') = c_intent (core r) \<and>
    c_pending (core r') = c_pending (core r) \<and> c_wait (core r') = c_wait (core r) \<and> (c_state (core r) = Zombie \<longrightarrow> r' = r)"
  by (auto simp: orphan_entry_def orphan_action_def split: option.splits orphan_fate.splits if_splits)

lemma reap_take_kern:
  assumes K: "kern n k rec own cur q" and r: "pt_get k i = Some r"
  obtains k1 casc where "reap_take i k = Val (k1, Some (r, casc))" "kern n k1 (a_rec k1) own cur q"
    "reaped rec i (core r) (a_rec k1)" "\<And>j. j \<in> set (map fst casc) \<Longrightarrow> j < length (pt_table k) \<and> a_rec k1 j = None"
proof -
  have i: "i < length (pt_table k)" "pt_table k ! i = Some r" using r by (auto simp: pt_get_def split: if_splits)
  let ?t = "(pt_table k)[i := None]"
  let ?k = "k\<lparr>pt_table := map (orphan_entry (p_pid r)) ?t\<rparr>"
  let ?casc = "map (\<lambda>j. (j, Option.bind (?t ! j) p_addr_space)) (filter (\<lambda>j. cascades (p_pid r) (?t ! j)) [0..<length ?t])"
  have take: "reap_take i k = Val (?k, Some (r, ?casc))" using i by (simp add: reap_take_def Let_def)
  have rec: "rec j = map_option core (pt_get k j)" for j using K by (auto simp: kern_def a_rec_def)
  have get: "pt_get ?k j = orphan_entry (p_pid r) (if j = i then None else pt_get k j)" for j
    using i(1) by (auto simp: pt_get_def orphan_entry_def)
  have wf: "pt_wf ?k"
  proof (rule pt_wf_sub)
    show "pt_wf k" using K by (simp add: kern_def k_ok_def)
    show "\<exists>r0. pt_get k j = Some r0 \<and> p_pid r' = p_pid r0 \<and> p_slot r' = p_slot r0" if "pt_get ?k j = Some r'" for j r'
      using that orphan_entry_Some [of "p_pid r" "pt_get k j" r'] unfolding get by (auto simp: orphan_entry_def split: if_splits)
  qed simp_all
  have same: "a_own ?k = a_own k" "a_cur ?k = a_cur k" "a_queue ?k = a_queue k"
    by (simp_all add: a_own_def pt_own_def a_cur_def a_queue_def fun_eq_iff)
  have kern: "kern n ?k (a_rec ?k) own cur q" using K wf same by (simp add: kern_def k_ok_def)
  have kept: "\<exists>s. rec j = Some s \<and> c_pid s' = c_pid s \<and> c_state s' = c_state s \<and> c_intent s' = c_intent s \<and>
      c_pending s' = c_pending s \<and> c_wait s' = c_wait s \<and> (c_state s = Zombie \<longrightarrow> s' = s)" if a: "a_rec ?k j = Some s'" for j s'
  proof -
    obtain r' where r': "s' = core r'" "orphan_entry (p_pid r) (if j = i then None else pt_get k j) = Some r'"
      using a by (auto simp: a_rec_Some get)
    then have "j \<noteq> i" by (auto simp: orphan_entry_def)
    then show ?thesis using orphan_entry_Some [of "p_pid r" "pt_get k j" r'] r' by (auto simp: rec)
  qed
  have gone: "c_state s = Zombie \<and> c_parent s = Some (c_pid (core r))"
    if a: "rec j = Some s" "a_rec ?k j = None" "j \<noteq> i" for j s
  proof -
    obtain t where t: "pt_get k j = Some t" "s = core t" using a(1) by (auto simp: rec)
    then have "cascades (p_pid r) (Some t)" using a(2,3) by (simp add: a_rec_def get orphan_entry_None)
    then show ?thesis using t by (auto simp: cascades_def orphan_action_def split: option.splits if_splits)
  qed
  have "a_rec ?k i = None" by (simp add: a_rec_def get orphan_entry_def)
  then have "reaped rec i (core r) (a_rec ?k)"
    unfolding reaped_def using kept gone by (auto simp: rec r)
  moreover have "j < length (pt_table k) \<and> a_rec ?k j = None" if "j \<in> set (map fst ?casc)" for j
    using that by (auto simp: a_rec_def pt_get_def orphan_entry_None)
  ultimately show thesis using that take kern by blast
qed

lemma kern_reap_finish:
  assumes "kern n k rec own cur q"
  shows "kern n (fold (\<lambda>(_, sp). destroy_space sp) casc (reap_finish r k)) rec own cur q"
proof -
  let ?k = "shm_gone (p_pid r) (security_process_gone (p_pid r) k)"
  have K: "kern n ?k rec own cur q" by (intro kern_hooks assms)
  have "kern n (reap_finish r k) rec own cur q"
  proof (cases "p_addr_space r")
    case (Some sp)
    obtain k2 rest where t: "transfer_group_space_locked (p_tgid r) (p_pid r) sp ?k = (k2, rest)" by fastforce
    then have "kern n k2 rec own cur q" using kern_transfer [OF K] by (metis fst_conv)
    then show ?thesis using Some t by (simp add: reap_finish_def Let_def kern_hooks(1))
  qed (use K in \<open>simp add: reap_finish_def\<close>)
  moreover have "kern n k' rec own cur q \<Longrightarrow> kern n (fold (\<lambda>(_, sp). destroy_space sp) casc k') rec own cur q" for k'
    by (induction casc arbitrary: k') (auto simp: kern_hooks(1))
  ultimately show ?thesis by blast
qed

lemma good_reap_seed:
  assumes I: "smp_inv s" and c: "c < MAX_CPUS" and pc: "sm_pc s ! c = ReapSeed i"
  shows "good (smp_step c s)"
proof -
  note D = smp_invD [OF I c]
  have h: "exiting (sm_pc s ! c) = Some i" and pc': "a_pc s c = ReapSeed i" using pc D(6) by simp_all
  obtain r where r: "pt_get (sm_k s) i = Some r" by (rule exit_record [OF I c h])
  obtain k1 casc where t: "reap_take i (sm_k s) = Val (k1, Some (r, casc))"
      "kern (size_of s) k1 (a_rec k1) (a_own (sm_k s)) (a_cur (sm_k s)) (a_queue (sm_k s))"
      "reaped (a_rec (sm_k s)) i (core r) (a_rec k1)"
      "\<And>j. j \<in> set (map fst casc) \<Longrightarrow> j < length (pt_table (sm_k s)) \<and> a_rec k1 j = None"
    by (rule reap_take_kern [OF D(4) r]) blast
  let ?st = "foldl push_slot [] (map fst casc)" and ?k = "fold (\<lambda>(_, sp). destroy_space sp) casc (reap_finish r k1)"
  have st: "j < length (pt_table (sm_k s)) \<and> a_rec k1 j = None" if "j \<in> set ?st" for j
  proof (rule t(4))
    show "j \<in> set (map fst casc)" using push_slots_set [of "[]" "map fst casc"] that by auto
  qed
  have "ainv (a_rec k1) (a_own (sm_k s)) (a_cur (sm_k s)) ((a_pc s)(c := Reap ?st i)) (a_queue (sm_k s))"
    by (rule ainv_reap [OF D(5) c pc' t(3)]) (use st in blast)
  then have "smp_inv (goto c (Reap ?st i) ?k s)"
    by (rule smp_invI [OF I kern_reap_finish [OF t(2)] _ c]) (use st in \<open>simp add: size_of_def\<close>)
  then show ?thesis using t(1) by (simp add: smp_step_def pc Let_def good_def reap_round_def)
qed

lemma good_reap_rest:
  assumes I: "smp_inv s" and c: "c < MAX_CPUS" and pc: "sm_pc s ! c = Reap st i"
  shows "good (smp_step c s)"
proof -
  note D = smp_invD [OF I c]
  have pc': "a_pc s c = Reap st i" using pc D(6) by simp
  have none: "a_rec (sm_k s) j = None" if "j = i \<or> j \<in> set st" for j
    by (rule ainvD(10) [OF D(5), unfolded inv_reap_def, rule_format, OF pc' that])
  have "reap_range (size_of s) (a_pc s c)" using I by (simp add: smp_inv_def)
  then have range: "\<forall>j \<in> set st. j < size_of s" using pc' by simp
  show ?thesis
  proof (cases st)
    case Nil
    have cur: "sc_current (sm_k s) ! d \<noteq> Some i" if "d < MAX_CPUS" for d
    proof
      assume "sc_current (sm_k s) ! d = Some i"
      then have "held (a_pc s d) = Some i"
        using smp_invD(6,7) [OF I that] held_structure(3) [of "sm_pc s ! d" i] by simp
      then show False using held_facts(2) [OF D(5), of d i] none [of i] by auto
    qed
    have "length (sc_current (sm_k s)) = MAX_CPUS" using D(2) by (simp add: k_ok_def)
    then have "v \<noteq> Some i" if "v \<in> set (sc_current (sm_k s))" for v using that cur by (auto simp: in_set_conv_nth)
    then have "map (\<lambda>v. if v = Some i then None else v) (sc_current (sm_k s)) = sc_current (sm_k s)" by (intro map_idI) simp
    then have "clear_current_slot_if i (sm_k s) = sm_k s" by (simp add: clear_current_slot_if_def)
    moreover have "smp_inv (goto c Pick (sm_k s) s)"
      by (rule good_move [OF I c]) (use D(4) cur_same [OF I c, of Pick] pc in \<open>auto simp: pc_move_def delivering_def\<close>)
    ultimately show ?thesis using Nil by (simp add: smp_step_def pc Let_def good_def)
  next
    case (Cons j rest)
    have "pt_table (sm_k s) ! j = None" "j < length (pt_table (sm_k s))"
      using none [of j] range Cons by (auto simp: a_rec_def pt_get_def size_of_def)
    then have "reap_round st (sm_k s) = Val (rest, sm_k s)" by (simp add: reap_round_def Cons reap_take_def)
    moreover have "smp_inv (goto c (Reap rest i) (sm_k s) s)"
    proof (rule good_move [OF I c])
      have "\<forall>j. j = i \<or> j \<in> set rest \<longrightarrow> a_rec (sm_k s) j = None" using none Cons by simp
      then show "pc_move (a_rec (sm_k s)) (a_queue (sm_k s)) (a_queue (sm_k s)) (sm_pc s ! c) (Reap rest i)"
        by (simp add: pc_move_def delivering_def pc)
      show "kern (size_of s) (sm_k s) (a_rec (sm_k s)) (a_own (sm_k s)) ((a_cur (sm_k s))(c := shown (Reap rest i))) (a_queue (sm_k s))"
        using D(4) cur_same [OF I c, of "Reap rest i"] pc by simp
    qed (use range Cons in simp)
    ultimately show ?thesis using Cons by (simp add: smp_step_def pc Let_def good_def)
  qed
qed

section \<open>Every event keeps the invariant\<close>

lemma good_step:
  assumes I: "smp_inv s" and c: "c < MAX_CPUS" and r: "smp_step c s = Some r"
  shows "good (Some r)"
proof (cases "sm_pc s ! c")
  case Pick then show ?thesis using good_pick [OF I c] r by simp
next
  case Claim then show ?thesis using good_claim [OF I c] r by simp
next
  case Enter then show ?thesis using good_enter [OF I c] r by simp
next
  case Exec then show ?thesis using r by (simp add: smp_step_def Let_def)
next
  case WaitBlock then show ?thesis using good_block_begin [OF I c] r by simp
next
  case (YieldDetach i)
  then show ?thesis using good_detach [OF I c, of i] r by (simp add: smp_step_def Let_def detach_next_def)
next
  case YieldRelease then show ?thesis using good_yield_release [OF I c] r by simp
next
  case (BlockDetach i)
  then show ?thesis using good_detach [OF I c, of i] r by (simp add: smp_step_def Let_def detach_next_def)
next
  case BlockFinish then show ?thesis using good_block_finish [OF I c] r by simp
next
  case (ExitDetach i st)
  then show ?thesis using good_detach [OF I c, of i] r by (simp add: smp_step_def Let_def detach_next_def)
next
  case ExitRelease then show ?thesis using good_exit_release [OF I c] r by simp
next
  case ExitPlan then show ?thesis using good_exit_plan [OF I c] r by simp
next
  case Deliver then show ?thesis using good_deliver [OF I c] r by simp
next
  case WakeParent then show ?thesis using good_wake_parent [OF I c] r by simp
next
  case ReapSeed then show ?thesis using good_reap_seed [OF I c] r by simp
next
  case Reap then show ?thesis using good_reap_rest [OF I c] r by simp
next
  case PushThen then show ?thesis using good_push [OF I c] r by simp
qed

lemma good_act:
  assumes I: "smp_inv s" and c: "c < MAX_CPUS" and r: "smp_act True c ev s = Some r"
  shows "good (Some r)"
proof -
  note D = smp_invD [OF I c]
  have slot: "current_slot c (sm_k s) = Val i" if "sm_pc s ! c = Exec i" for i
    using D(7) that by (simp add: current_slot_def)
  note act = smp_act_def Let_def
  show ?thesis
  proof (cases ev)
    case EvStep then show ?thesis using good_step [OF I c] r by (simp add: act)
  next
    case (EvWake p)
    then have "may_serve (sm_pc s ! c)" "wake_allowed p s" using r by (auto simp: act split: if_splits)
    then show ?thesis using good_wake_event [OF I c, of p True] r EvWake by simp
  next
    case (EvSpawn ki draw entry name)
    then have "may_serve (sm_pc s ! c)" "create_allowed True s" using r by (auto simp: act split: if_splits)
    then show ?thesis using good_spawn [OF I c] r EvSpawn by (auto simp: act)
  next
    case EvYield
    then obtain i where "sm_pc s ! c = Exec i" using r by (auto simp: act split: cpu_pc.splits)
    then show ?thesis using good_request [OF I c, of i "YieldDetach i"] r EvYield slot by (auto simp: act good_def)
  next
    case EvBlock
    then obtain i where "sm_pc s ! c = Exec i" using r by (auto simp: act split: cpu_pc.splits)
    then show ?thesis using good_request [OF I c, of i "WaitBlock i"] r EvBlock by (auto simp: act good_def)
  next
    case (EvExit st)
    then obtain i where "sm_pc s ! c = Exec i" using r by (auto simp: act split: cpu_pc.splits)
    then show ?thesis using good_request [OF I c, of i "ExitDetach i st"] r EvExit slot by (auto simp: act good_def)
  next
    case (EvWait target flags)
    then obtain i where "sm_pc s ! c = Exec i" using r by (auto simp: act split: cpu_pc.splits)
    then show ?thesis using good_wait [OF I c, of i True target flags] r EvWait by simp
  next
    case (EvFork ki clone)
    then obtain i where "sm_pc s ! c = Exec i" "create_allowed True s" using r by (auto simp: act split: cpu_pc.splits if_splits)
    then show ?thesis using good_fork [OF I c] r EvFork by (auto simp: act)
  next
    case (EvThread ki entry stack_top tls arg)
    then obtain i where "sm_pc s ! c = Exec i" "create_allowed True s" using r by (auto simp: act split: cpu_pc.splits if_splits)
    then show ?thesis using good_thread [OF I c] r EvThread by (auto simp: act)
  qed
qed

lemma boot_inv: "smp_inv smp_boot"
proof -
  have pc: "a_pc smp_boot = (\<lambda>_. Pick)" by (auto simp: a_pc_def smp_boot_def fun_eq_iff)
  have get: "pt_get (kernel_boot gb_new) = (\<lambda>_. None)" by (simp add: pt_get_def kernel_boot_def fun_eq_iff)
  have own: "pt_own (kernel_boot gb_new) = (\<lambda>_. PROCESS_OWNER_NONE)" by (simp add: pt_own_def kernel_boot_def fun_eq_iff)
  have "k_ok (kernel_boot gb_new)" unfolding k_ok_def pt_wf_def get by (simp add: kernel_boot_def)
  moreover have "ainv (\<lambda>_. None) (\<lambda>_. None) (\<lambda>_. None) (\<lambda>_. Pick) {#}"
    by (simp add: ainv_def inv_pids_def inv_held_def inv_own_def inv_exit_def inv_run_def running_def inv_cur_def inv_intent_def
        inv_queue_def in_flight_def runnable_pid_def inv_latch_def inv_reap_def inv_wait_def inv_deliver_def delivering_def inv_pc_def)
  moreover have "a_rec (kernel_boot gb_new) = (\<lambda>_. None)" "a_own (kernel_boot gb_new) = (\<lambda>_. None)"
    "a_cur (kernel_boot gb_new) = (\<lambda>_. None)" "a_queue (kernel_boot gb_new) = {#}"
    using get own by (simp_all add: a_rec_def a_own_def a_cur_def a_queue_def fun_eq_iff) (simp_all add: kernel_boot_def)
  ultimately show ?thesis by (simp add: smp_inv_def pc) (simp add: smp_boot_def)
qed

lemma reach_inv: "smp_reach True s \<Longrightarrow> smp_inv s"
proof (induction rule: smp_reach.induct)
  case boot
  show ?case by (rule boot_inv)
next
  case (act s c ev s')
  then show ?case using good_act [OF act.IH act.hyps(2,3)] by (simp add: good_def)
qed

end
