(* ===== verification/Smp.thy ===== *)
theory Smp
  imports Smp_Reach
begin

text \<open>
  What holds in every state that the interleaved cores reach: no panic, one core per process, every
  runnable process queued exactly once, no lost wake-up, no overlooked child, and progress of a
  core that picks.
\<close>

section \<open>Single steps of a reachable state\<close>

lemma reach_step:
  assumes "smp_reach True s" "c < MAX_CPUS" "smp_step c s = Some (Val s')"
  shows "smp_reach True s'"
  using smp_reach.act [OF assms(1,2), of EvStep s'] assms(3) by (simp add: smp_act_def)

lemma truncate_get:
  assumes "ptable.truncate k' = ptable.truncate k"
  shows "pt_get k' = pt_get k" "pt_table k' = pt_table k" "pt_next_pid k' = pt_next_pid k"
  using assms by (simp_all add: ptable.truncate_def pt_get_def fun_eq_iff)

lemma run_push:
  assumes s: "smp_reach True s" and c: "c < MAX_CPUS" and pc: "sm_pc s ! c = PushThen p l x"
  obtains s' where "smp_step c s = Some (Val s')" "sm_pc s' = (sm_pc s)[c := x]"
    "ptable.truncate (sm_k s') = ptable.truncate (sm_k s)" "a_queue (sm_k s') = add_mset p (a_queue (sm_k s))"
proof -
  note D = smp_invD [OF reach_inv [OF s] c]
  have room: "size (a_queue (sm_k s)) < RUNQUEUE_CAPACITY"
    unfolding RUNQUEUE_CAPACITY_def
    by (rule queue_room [OF D(5) c, of p]) (use pc D(6) k_ok_index [OF D(2)] in \<open>auto simp: a_rec_Some\<close>)
  obtain k where k: "queue_push p l (sm_k s) = Val k"
    "kern (size_of s) k (a_rec (sm_k s)) (a_own (sm_k s)) (a_cur (sm_k s)) (add_mset p (a_queue (sm_k s)))"
    by (rule kern_push [OF D(4) room])
  have "ptable.truncate k = ptable.truncate (sm_k s)"
    using k(1) by (auto simp: queue_push_def outcome_simps ptable.truncate_def)
  then show thesis using that [of "goto c x k s"] k by (simp add: smp_step_def pc Let_def goto_def kern_def)
qed

lemma run_pick:
  assumes s: "smp_reach True s" and c: "c < MAX_CPUS" and pc: "sm_pc s ! c = Pick" and q: "a_queue (sm_k s) \<noteq> {#}"
  obtains s' p where "smp_step c s = Some (Val s')" "sm_pc s' = (sm_pc s)[c := Claim p]"
    "ptable.truncate (sm_k s') = ptable.truncate (sm_k s)" "snd (queue_pop (sm_k s)) = Some p"
    "a_queue (sm_k s) = add_mset p (a_queue (sm_k s'))"
proof -
  note D = smp_invD [OF reach_inv [OF s] c]
  obtain k r where pop: "queue_pop (sm_k s) = (k, r)" by fastforce
  have tr: "ptable.truncate k = ptable.truncate (sm_k s)"
    using pop by (auto simp: queue_pop_def ptable.truncate_def split: prod.splits)
  show thesis
  proof (cases r)
    case None
    have "mlfq_wf (sc_queue (sm_k s))" using D(2) by (simp add: k_ok_def)
    then have "mlfq_all (sc_queue (sm_k s)) = []"
      using mlfq_pop_eq [of "sc_queue (sm_k s)"] spec_pop_concat [of "mlfq_levels (sc_queue (sm_k s))"] pop None
      by (auto simp: queue_pop_def mlfq_wf_def mlfq_levels_def mlfq_all_def simp del: concat_eq_Nil_conv split: prod.splits)
    then show thesis using q by (simp add: a_queue_def)
  next
    case (Some p)
    then obtain q' where "a_queue (sm_k s) = add_mset p q'" "a_queue k = q'"
      using kern_pop [OF D(4)] pop by (auto simp: kern_def)
    then show thesis
      using that [of "goto c (Claim p) k s" p] tr pop Some by (simp add: smp_step_def pc Let_def goto_def)
  qed
qed

definition claimed :: "process_record \<Rightarrow> process_record" where
  "claimed r = r\<lparr>p_state := Running, p_block_intent := False, p_wake_pending := False\<rparr>"

lemma run_claim:
  assumes s: "smp_reach True s" and c: "c < MAX_CPUS" and pc: "sm_pc s ! c = Claim p"
  obtains s' i r where "smp_step c s = Some (Val s')" "sm_pc s' = (sm_pc s)[c := Enter i]"
    "pt_get (sm_k s) i = Some r" "p_pid r = p" "pt_get (sm_k s') = (pt_get (sm_k s))(i := Some (claimed r))"
    "pt_next_pid (sm_k s') = pt_next_pid (sm_k s)" "a_queue (sm_k s') = a_queue (sm_k s)"
    "length (pt_table (sm_k s')) = length (pt_table (sm_k s))"
proof -
  note D = smp_invD [OF reach_inv [OF s] c]
  have fly: "0 < count (a_queue (sm_k s) + in_flight (a_pc s)) p"
    using in_flight_self [OF c, of "a_pc s" p] pc D(6) by simp
  from queued_runnable [OF D(5) fly] obtain i r where r: "pt_get (sm_k s) i = Some r" "p_pid r = p" "p_state r = Runnable"
    by (metis a_rec_Some core_simps(1,2))
  have own: "pt_own (sm_k s) i = PROCESS_OWNER_NONE"
    using resting_facts(1) [OF D(5), of i "core r"] r by (simp add: own_free a_rec_def)
  have i: "i < length (sc_slice (sm_k s))" using k_ok_index [OF D(2) r(1)] D(2) by (simp add: k_ok_def)
  let ?k = "pt_modify i claimed (own_set i (of_nat c) (sm_k s))"
  let ?k' = "?k\<lparr>sc_slice := (sc_slice ?k)[i := 0]\<rparr>"
  have "dispatch_claim c p (sm_k s) = Val (?k', Some i)"
    using claim_runnable_eq [OF D(3) r(1,3) own, of "of_nat c"] r(2) i
    by (simp add: dispatch_claim_def set_slice_def flip: claimed_def)
  then have "smp_step c s = Some (Val (goto c (Enter i) ?k' s))" by (simp add: smp_step_def pc Let_def)
  moreover have "pt_get ?k' = (pt_get (sm_k s))(i := Some (claimed r))"
  proof -
    have "pt_get ?k' = pt_get ?k" by (simp add: pt_get_def fun_eq_iff)
    then show ?thesis using r(1) by (simp add: fun_eq_iff)
  qed
  ultimately show thesis using that r by (simp add: goto_def)
qed

lemma run_enter:
  assumes pc: "sm_pc s ! c = Enter i"
  obtains s' where "smp_step c s = Some (Val s')" "sm_pc s' = (sm_pc s)[c := Exec i]"
    "ptable.truncate (sm_k s') = ptable.truncate (sm_k s)" "a_queue (sm_k s') = a_queue (sm_k s)"
  using that [of "goto c (Exec i) (dispatch_enter c i (sm_k s)) s"]
  by (simp add: smp_step_def pc Let_def goto_def dispatch_enter_def ptable.truncate_def a_queue_def)

section \<open>A run with a parent that waits\<close>

definition demo_boot_image :: kernel_image where
  "demo_boot_image = \<lparr>ki_thread_exit = 0x1000, ki_kernel_stacks = 0x40000000\<rparr>"

abbreviation demo_init :: process_record where
  "demo_init \<equiv> spawn_record 2 0 0x400000 ''init''"

lemma next_pid_demo: "next_pid_raw 2 = 3" "next_pid_raw 3 = 4"
  by code_simp+

lemma slot_for_pid_one:
  "pt_table t = [Some r] \<Longrightarrow> p_pid r = p \<Longrightarrow> slot_for_pid p t = Some (p_slot r)"
  by (simp add: slot_for_pid_def pt_find_record_def pt_find_def pt_get_def)

lemma demo_spawned:
  "\<exists>s. smp_reach True s \<and> sm_pc s = (replicate MAX_CPUS Pick)[0 := PushThen 2 0 Pick] \<and> pt_table (sm_k s) = [Some demo_init] \<and>
     pt_next_pid (sm_k s) = 3 \<and> a_queue (sm_k s) = {#}"
proof -
  have c: "0 < MAX_CPUS" by (simp add: MAX_CPUS_def)
  have len: "0 < MAX_PROCESSES" by (simp add: MAX_PROCESSES_def)
  have pc: "sm_pc smp_boot ! 0 = Pick" "sm_k smp_boot = kernel_boot gb_new" using c by (simp_all add: smp_boot_def)
  have allowed: "create_allowed True smp_boot"
    by (simp add: create_allowed_def smp_boot_def pid_room_def kernel_boot_def PID_SEQ_FIRST_def pending_reap_def)
  obtain k where k: "spawn demo_boot_image 0 0x400000 ''init'' (kernel_boot gb_new) = Val (k, Inr 2)"
      "pt_table k = [Some demo_init]" "pt_next_pid k = 3" "sc_queue k = mlfq_new" "sc_level k = replicate MAX_PROCESSES 0"
    using len by (auto simp: spawn_def kernel_boot_def alloc_pid_def PID_SEQ_FIRST_def next_pid_demo alloc_table_slot_locked_def
        owner_store_def pt_set_def Let_def)
  have slot: "slot_for_pid 2 k = Some 0" using slot_for_pid_one [OF k(2)] by (simp add: spawn_record_def)
  let ?k = "k\<lparr>sc_level := (sc_level k)[0 := 0]\<rparr>"
  have "smp_act True 0 (EvSpawn demo_boot_image 0 0x400000 ''init'') smp_boot = Some (Val (goto 0 (PushThen 2 0 Pick) ?k smp_boot))"
    using pc allowed k(1,5) slot len
    by (simp add: smp_act_def Let_def may_serve_def start_new_def enqueue_level_def set_level_def)
  then have "smp_reach True (goto 0 (PushThen 2 0 Pick) ?k smp_boot)" using smp_reach.act [OF smp_reach.boot c] by blast
  then show ?thesis
    using k by (intro exI [of _ "goto 0 (PushThen 2 0 Pick) ?k smp_boot"]) (simp add: goto_def smp_boot_def a_queue_def)
qed

lemma demo_running:
  "\<exists>s. smp_reach True s \<and> sm_pc s = (replicate MAX_CPUS Pick)[0 := Exec 0] \<and>
     pt_get (sm_k s) = (\<lambda>_. None)(0 := Some (claimed demo_init)) \<and> pt_next_pid (sm_k s) = 3 \<and>
     length (pt_table (sm_k s)) = 1 \<and> a_queue (sm_k s) = {#}"
proof -
  have c: "0 < MAX_CPUS" by (simp add: MAX_CPUS_def)
  obtain s1 where s1: "smp_reach True s1" "sm_pc s1 = (replicate MAX_CPUS Pick)[0 := PushThen 2 0 Pick]"
      "pt_table (sm_k s1) = [Some demo_init]" "pt_next_pid (sm_k s1) = 3" "a_queue (sm_k s1) = {#}"
    using demo_spawned by blast
  have get1: "pt_get (sm_k s1) = (\<lambda>_. None)(0 := Some demo_init)" using s1(3) by (auto simp: pt_get_def fun_eq_iff)
  obtain s2 where s2: "smp_step 0 s1 = Some (Val s2)" "sm_pc s2 = (sm_pc s1)[0 := Pick]"
      "ptable.truncate (sm_k s2) = ptable.truncate (sm_k s1)" "a_queue (sm_k s2) = {#2#}"
    by (rule run_push [OF s1(1) c, of 2 0 Pick]) (use s1 c in auto)
  note r2 = reach_step [OF s1(1) c s2(1)]
  obtain s3 where s3: "smp_step 0 s2 = Some (Val s3)" "sm_pc s3 = (sm_pc s2)[0 := Claim 2]"
      "ptable.truncate (sm_k s3) = ptable.truncate (sm_k s2)" "a_queue (sm_k s3) = {#}"
  proof (rule run_pick [OF r2 c])
    show "sm_pc s2 ! 0 = Pick" "a_queue (sm_k s2) \<noteq> {#}" using s1(2) s2 c by auto
  qed (use s2(4) that in auto)
  note r3 = reach_step [OF r2 c s3(1)] and t3 = truncate_get [OF s3(3)] truncate_get [OF s2(3)]
  obtain s4 where s4: "smp_step 0 s3 = Some (Val s4)" "sm_pc s4 = (sm_pc s3)[0 := Enter 0]"
      "pt_get (sm_k s4) = (pt_get (sm_k s3))(0 := Some (claimed demo_init))" "pt_next_pid (sm_k s4) = pt_next_pid (sm_k s3)"
      "a_queue (sm_k s4) = {#}" "length (pt_table (sm_k s4)) = length (pt_table (sm_k s3))"
  proof (rule run_claim [OF r3 c])
    show "sm_pc s3 ! 0 = Claim 2" using s3(2) s2(2) s1(2) c by simp
  qed (use s3(4) t3 get1 that in \<open>auto split: if_splits\<close>)
  note r4 = reach_step [OF r3 c s4(1)]
  obtain s5 where s5: "smp_step 0 s4 = Some (Val s5)" "sm_pc s5 = (sm_pc s4)[0 := Exec 0]"
      "ptable.truncate (sm_k s5) = ptable.truncate (sm_k s4)" "a_queue (sm_k s5) = a_queue (sm_k s4)"
    by (rule run_enter [of s4 0 0]) (use s4(2) s3(2) s2(2) s1(2) c in auto)
  note t5 = truncate_get [OF s5(3)]
  show ?thesis
    using reach_step [OF r4 c s5(1)] s5 s4 s3 s2 s1 t3 t5 get1
    by (intro exI [of _ s5]) (simp add: fun_upd_def cong: if_cong)
qed

lemma wait_scan_live:
  "live \<or> (\<exists>v. Some v \<in> set vs \<and> v_parent v = Some caller \<and> (target = 0 \<or> v_pid v = target)) \<Longrightarrow>
   (\<And>v. Some v \<in> set vs \<Longrightarrow> v_parent v = Some caller \<Longrightarrow> v_state v \<noteq> Zombie) \<Longrightarrow>
   wait_scan_from caller target live vs = WdBlock"
  by (induction caller target live vs rule: wait_scan_from.induct) (auto, blast)

lemma demo_forked:
  "\<exists>s. smp_reach True s \<and> sm_pc s = (replicate MAX_CPUS Pick)[0 := Exec 0] \<and>
     pt_get (sm_k s) = (\<lambda>_. None)(0 := Some (claimed demo_init), 1 := Some (fork_record (claimed demo_init) 3 1 None)) \<and>
     length (pt_table (sm_k s)) = 2 \<and> a_queue (sm_k s) = {#3#}"
proof -
  have c: "0 < MAX_CPUS" by (simp add: MAX_CPUS_def)
  obtain s where s: "smp_reach True s" "sm_pc s = (replicate MAX_CPUS Pick)[0 := Exec 0]"
     "pt_get (sm_k s) = (\<lambda>_. None)(0 := Some (claimed demo_init))" "pt_next_pid (sm_k s) = 3"
     "length (pt_table (sm_k s)) = 1" "a_queue (sm_k s) = {#}"
    using demo_running by blast
  note D = smp_invD [OF reach_inv [OF s(1)] c]
  have tab: "pt_table (sm_k s) = [Some (claimed demo_init)]"
    using s(3,5) by (cases "pt_table (sm_k s)") (auto simp: pt_get_def fun_eq_iff dest: spec [of _ 0])
  have own: "length (pt_owner (sm_k s)) = MAX_PROCESSES" "1 < MAX_PROCESSES" using D(3) by (simp_all add: pt_wf_def MAX_PROCESSES_def)
  let ?ch = "fork_record (claimed demo_init) 3 1 None"
  have space: "p_addr_space (claimed demo_init) = None" by (simp add: claimed_def spawn_record_def)
  obtain k where k: "fork demo_boot_image Inr 0 (pt_frames (sm_k s) ! 0) (sm_k s) = Val (k, Inr (3, 1))"
      "pt_table k = [Some (claimed demo_init), Some ?ch]" "sc_queue k = sc_queue (sm_k s)" "sc_level k = sc_level (sm_k s)"
    using own tab s(4) space by (auto simp: fork_def alloc_pid_def alloc_table_slot_locked_def owner_store_def pt_set_def Let_def pt_get_def)
  have slot: "slot_for_pid 3 k = Some 1"
    using k(2) by (simp add: slot_for_pid_def pt_find_record_def pt_find_def pt_get_def claimed_def spawn_record_def fork_record_def)
  have room: "create_allowed True s"
    using s(2,4) by (auto simp: create_allowed_def pid_room_def pending_reap_def dest!: set_update_subset_insert [THEN subsetD])
  let ?k = "k\<lparr>sc_level := (sc_level k)[1 := 0]\<rparr>" and ?x = "PushThen 3 0 (Exec 0)"
  have pc: "sm_pc s ! 0 = Exec 0" using s(2) c by simp
  have "smp_act True 0 (EvFork demo_boot_image Inr) s = Some (Val (goto 0 ?x ?k s))"
    using pc k(1,4) slot own D(2) room
    by (simp add: smp_act_def Let_def start_new_def enqueue_level_def set_level_def k_ok_def)
  then have r1: "smp_reach True (goto 0 ?x ?k s)" using smp_reach.act [OF s(1) c] by blast
  obtain s' where s': "smp_step 0 (goto 0 ?x ?k s) = Some (Val s')" "sm_pc s' = (sm_pc s)[0 := Exec 0]"
      "ptable.truncate (sm_k s') = ptable.truncate ?k" "a_queue (sm_k s') = add_mset 3 (a_queue ?k)"
  proof (rule run_push [OF r1 c, of 3 0 "Exec 0"])
    show "sm_pc (goto 0 ?x ?k s) ! 0 = ?x" using D(1) c by (simp add: goto_def)
  qed (use that in \<open>simp add: goto_def\<close>)
  have "pt_get (sm_k s') = (\<lambda>_. None)(0 := Some (claimed demo_init), 1 := Some ?ch)"
    using truncate_get [OF s'(3)] k(2) by (auto simp: pt_get_def fun_eq_iff less_Suc_eq nth_Cons split: nat.splits)
  moreover have "a_queue ?k = {#}" using s(6) k(3) by (simp add: a_queue_def)
  ultimately show ?thesis
    using reach_step [OF r1 c s'(1)] s' s(2) truncate_get(2) [OF s'(3)] k(2) by (intro exI [of _ s']) simp
qed

lemma demo_waiting:
  "\<exists>s r. smp_reach True s \<and> pt_get (sm_k s) 0 = Some r \<and> p_wait_target r = Some WaitAny \<and> p_pid r = 2 \<and>
     sm_pc s ! 0 = WaitBlock 0 \<and> a_queue (sm_k s) = {#3#} \<and>
     (\<exists>ch. pt_get (sm_k s) 1 = Some ch \<and> p_parent ch = Some 2 \<and> p_pid ch = 3 \<and> p_state ch = Runnable)"
proof -
  have c: "0 < MAX_CPUS" by (simp add: MAX_CPUS_def)
  let ?ch = "fork_record (claimed demo_init) 3 1 None" and ?me = "claimed demo_init"
  obtain s where s: "smp_reach True s" "sm_pc s = (replicate MAX_CPUS Pick)[0 := Exec 0]"
     "pt_get (sm_k s) = (\<lambda>_. None)(0 := Some ?me, 1 := Some ?ch)" "length (pt_table (sm_k s)) = 2" "a_queue (sm_k s) = {#3#}"
    using demo_forked by blast
  note D = smp_invD [OF reach_inv [OF s(1)] c]
  have pc: "sm_pc s ! 0 = Exec 0" using s(2) c by simp
  have slot: "current_slot 0 (sm_k s) = Val 0" using D(7) pc by (simp add: current_slot_def)
  have me: "pt_table (sm_k s) ! 0 = Some ?me" using fun_cong [OF s(3), of 0] s(4) by (simp add: pt_get_def)
  have view: "Some v \<in> set (table_views (sm_k s)) \<Longrightarrow> v = view_of 0 ?me \<or> v = view_of 1 ?ch" for v
    using s(3) by (auto simp: table_view split: if_splits)
  have ch: "Some (view_of 1 ?ch) \<in> set (table_views (sm_k s))" using s(3) by (auto simp: table_view MAX_PROCESSES_def)
  have pids: "p_pid ?me = 2" "p_parent ?me = None" "p_parent ?ch = Some 2" "p_state ?ch = Runnable" "p_pid ?ch = 3"
    by (simp_all add: claimed_def spawn_record_def fork_record_def)
  have "wait_scan (p_pid ?me) 0 (table_views (sm_k s)) = WdBlock"
    unfolding wait_scan_def
  proof (rule wait_scan_live)
    show "False \<or> (\<exists>v. Some v \<in> set (table_views (sm_k s)) \<and> v_parent v = Some (p_pid ?me) \<and> (0 = (0 :: u64) \<or> v_pid v = 0))"
      using ch pids by (auto simp: view_of_def)
    fix v assume "Some v \<in> set (table_views (sm_k s))" "v_parent v = Some (p_pid ?me)"
    then show "v_state v \<noteq> Zombie" using view [of v] pids by (auto simp: view_of_def)
  qed
  then have "waitpid_step 0 0 0 (sm_k s) = Val (pt_modify 0 (\<lambda>r. r\<lparr>p_wait_target := Some WaitAny\<rparr>) (sm_k s), Inr WsBlocked)"
    using slot me s(4) by (simp add: waitpid_step_def wait_plan_def)
  then have "smp_act True 0 (EvWait 0 0) s =
      Some (Val (goto 0 (WaitBlock 0) (pt_modify 0 (\<lambda>r. r\<lparr>p_wait_target := Some WaitAny\<rparr>) (sm_k s)) s))"
    using pc by (simp add: smp_act_def Let_def)
  then have "smp_reach True (goto 0 (WaitBlock 0) (pt_modify 0 (\<lambda>r. r\<lparr>p_wait_target := Some WaitAny\<rparr>) (sm_k s)) s)"
    (is "smp_reach True ?s") using smp_reach.act [OF s(1) c] by blast
  moreover have "pt_get (sm_k ?s) 0 = Some (?me\<lparr>p_wait_target := Some WaitAny\<rparr>)" "pt_get (sm_k ?s) 1 = Some ?ch"
    "sm_pc ?s ! 0 = WaitBlock 0" "a_queue (sm_k ?s) = {#3#}"
    using s D(1) c by (simp_all add: goto_def)
  ultimately show ?thesis using pids by (intro exI [of _ ?s]) auto
qed

lemma in_flight_list:
  assumes "length (sm_pc s) = MAX_CPUS"
  shows "in_flight (a_pc s) = mset (concat (map flying (sm_pc s)))"
proof -
  have "mset (concat (map flying xs)) = (\<Sum>c<length xs. mset (flying (xs ! c)))" for xs
    by (induction xs) (simp_all add: sum.lessThan_Suc_shift del: sum.lessThan_Suc)
  moreover have "in_flight (a_pc s) = (\<Sum>c<length (sm_pc s). mset (flying (sm_pc s ! c)))"
    unfolding in_flight_def assms by (rule sum.cong) (simp_all add: a_pc_def)
  ultimately show ?thesis by simp
qed

section \<open>Properties\<close>

text \<open>
  C1: no event of any core panics. In every state reached by a run in which no process is created
  while a core is inside \<open>full_reap\<close> and wake-ups follow registrations, no critical section of dispatch, yield, block, wake, exit,
  wait, reap, spawn, fork or thread creation fails an assertion, indexes out of range or
  overflows the run queue.
\<close>

theorem smp_no_panic:
  assumes "smp_reach True s" and "c < MAX_CPUS"
  shows "smp_act True c ev s \<noteq> Some Panic"
  using good_act [OF reach_inv [OF assms(1)] assms(2), of ev Panic] by (auto simp: good_def)

theorem smp_no_panic_witness:
  "smp_act True 3 (EvSpawn demo_boot_image 0 0x400000 ''init'') smp_boot \<noteq> Some Panic"
  using smp_no_panic [OF smp_reach.boot, of 3] by (simp add: MAX_CPUS_def)

text \<open>
  C2: a process runs on at most one core, in every state reached by a run in which no process is created
  while a core is inside \<open>full_reap\<close> and wake-ups follow registrations. If two cores publish the same
  current slot they are the same core; the slot then holds a running process and the owner array names
  that core. Without the restriction the claim fails: \<open>full_reap_takes_new_process\<close> in
  \<open>Reap_Effects\<close> empties a slot that was given to a new process.
\<close>

theorem one_core_per_process:
  assumes "smp_reach True s" and "c < MAX_CPUS" and "sc_current (sm_k s) ! c = Some i"
  shows "state_slot i (sm_k s) = Some Running \<and> owner_cpu i (sm_k s) = Some (of_nat c) \<and>
    (\<forall>d < MAX_CPUS. sc_current (sm_k s) ! d = Some i \<longrightarrow> d = c)"
proof -
  note D = smp_invD [OF reach_inv [OF assms(1)]]
  have h: "held (sm_pc s ! d) = Some i" if "d < MAX_CPUS" "sc_current (sm_k s) ! d = Some i" for d
    by (rule held_structure(3)) (use D(7) [OF that(1)] that(2) in simp)
  obtain r where r: "pt_get (sm_k s) i = Some r" "p_state r = Running" "pt_own (sm_k s) i = of_nat c"
      "i < length (pt_owner (sm_k s))" "i < MAX_PROCESSES"
    by (rule held_record [OF reach_inv [OF assms(1)] assms(2) h [OF assms(2,3)]]) blast
  moreover have "d = c" if d: "d < MAX_CPUS" "sc_current (sm_k s) ! d = Some i" for d
    using held_facts(3) [OF D(5) [OF assms(2)], of c i d] h [OF d] h [OF assms(2,3)] D(6) d(1) assms(2) by simp
  moreover have "owner_cpu i (sm_k s) = Some (of_nat c)"
    using r(3-5) cpu_word(2) [OF assms(2)] by (simp add: owner_cpu_def pt_own_def)
  ultimately show ?thesis by (simp add: state_slot_def)
qed

theorem one_core_per_process_witness:
  "\<exists>s. smp_reach True s \<and> sc_current (sm_k s) ! 0 = Some 0 \<and> state_slot 0 (sm_k s) = Some Running \<and>
     owner_cpu 0 (sm_k s) = Some 0"
proof -
  have c: "0 < MAX_CPUS" by (simp add: MAX_CPUS_def)
  obtain s where s: "smp_reach True s" "sm_pc s = (replicate MAX_CPUS Pick)[0 := Exec 0]" using demo_running by blast
  then have "sc_current (sm_k s) ! 0 = Some 0" using smp_invD(7) [OF reach_inv [OF s(1)] c] c by simp
  then show ?thesis using one_core_per_process [OF s(1) c] s(1) by auto
qed

text \<open>
  C3: no process is lost or queued twice. In every state reached by a run in which no process is created
  while a core is inside \<open>full_reap\<close> and wake-ups follow registrations, each identifier occurs in the
  run queue and in the hands of the cores (popped and not yet claimed, or released and not yet
  pushed) exactly once if its process is runnable, and not at all otherwise.
\<close>

theorem runnable_queued_once:
  assumes "smp_reach True s"
  shows "count (mset (mlfq_all (sc_queue (sm_k s)) @ concat (map flying (sm_pc s)))) p =
    (if state_of p (sm_k s) = Some Runnable then 1 else 0)"
proof -
  have c: "0 < MAX_CPUS" by (simp add: MAX_CPUS_def)
  note D = smp_invD [OF reach_inv [OF assms] c]
  have "runnable_pid (a_rec (sm_k s)) p \<longleftrightarrow> state_of p (sm_k s) = Some Runnable"
  proof (cases "pt_find p (sm_k s)")
    case None
    have "\<not> runnable_pid (a_rec (sm_k s)) p"
    proof
      assume "runnable_pid (a_rec (sm_k s)) p"
      then obtain i r where "pt_get (sm_k s) i = Some r" "p_pid r = p" by (auto simp: runnable_pid_def a_rec_Some)
      then show False using None unfolding pt_find_None by blast
    qed
    then show ?thesis using None by (simp add: state_of_def pt_find_record_def)
  next
    case (Some i)
    then obtain r where r: "pt_get (sm_k s) i = Some r" "p_pid r = p" using pt_find_Some by blast
    then show ?thesis
      using runnable_pid_here [OF ainvD(1) [OF D(5)], of i "core r"] Some by (simp add: a_rec_def state_of_def pt_find_record_def)
  qed
  then show ?thesis
    using ainvD(8) [OF D(5)] in_flight_list [OF D(1)] by (simp add: inv_queue_def a_queue_def)
qed

theorem runnable_queued_once_witness:
  "\<exists>s. smp_reach True s \<and> state_of 3 (sm_k s) = Some Runnable \<and>
     count (mset (mlfq_all (sc_queue (sm_k s)) @ concat (map flying (sm_pc s)))) 3 = 1"
proof -
  have c: "0 < MAX_CPUS" by (simp add: MAX_CPUS_def)
  obtain s ch where s: "smp_reach True s" "pt_get (sm_k s) 1 = Some ch" "p_pid ch = 3" "p_state ch = Runnable"
    using demo_waiting by blast
  have "pt_find 3 (sm_k s) = Some 1"
    using pt_find_eq [OF smp_invD(3) [OF reach_inv [OF s(1)] c], of 3 1] s by blast
  then have "state_of 3 (sm_k s) = Some Runnable" using s by (simp add: state_of_def pt_find_record_def)
  then show ?thesis using runnable_queued_once [OF s(1), of 3] s(1) by auto
qed

text \<open>
  C4: no wake-up and no child is lost, in every state reached by a run in which no process is created
  while a core is inside \<open>full_reap\<close>, and in which a wake from a channel, a futex or the clock names a
  process that is blocked or between registration and the end of its hand-off, and not one that waits
  for a child (\<open>wake_allowed\<close>). A latched wake-up belongs to a running process that is on its
  way into \<open>block_current\<close>, so no blocked process ever sits on one. A process that has registered to
  wait is blocked or on that way, and no zombie child of the kind it waits for is left uncollected.
\<close>

theorem no_lost_wake:
  assumes "smp_reach True s" and "pt_get (sm_k s) i = Some r"
  shows "(p_wake_pending r \<longrightarrow> p_state r = Running \<and> (\<exists>c < MAX_CPUS. in_window (sm_pc s ! c) = Some i)) \<and>
    (\<forall>spec. p_wait_target r = Some spec \<longrightarrow>
      (p_state r = Blocked \<or> (\<exists>c < MAX_CPUS. in_window (sm_pc s ! c) = Some i)) \<and>
      (\<forall>j z. pt_get (sm_k s) j = Some z \<longrightarrow> p_parent z = Some (p_pid r) \<longrightarrow> p_state z = Zombie \<longrightarrow>
         p_exit_code z \<noteq> None \<longrightarrow> \<not> ws_matches spec (p_pid z)))"
proof -
  have c: "0 < MAX_CPUS" by (simp add: MAX_CPUS_def)
  note A = smp_invD(5) [OF reach_inv [OF assms(1)] c]
  have R: "a_rec (sm_k s) i = Some (core r)" using assms(2) by (simp add: a_rec_def)
  have win: "\<exists>c < MAX_CPUS. in_window (sm_pc s ! c) = Some i" if "in_window (a_pc s d) = Some i" for d
    using that by (cases "d < MAX_CPUS") (auto simp: a_pc_def)
  have "p_wake_pending r \<longrightarrow> p_state r = Running \<and> (\<exists>c < MAX_CPUS. in_window (sm_pc s ! c) = Some i)"
    using ainvD(9) [OF A] R win unfolding inv_latch_def by (metis core_simps(2,4))
  moreover have "p_state r = Blocked \<or> (\<exists>c < MAX_CPUS. in_window (sm_pc s ! c) = Some i)"
    if "p_wait_target r = Some spec" for spec
    using ainvD(11) [OF A] R that win assms(2) unfolding inv_wait_alt parked_def by (metis core_simps(2,5) option.inject)
  moreover have "\<not> ws_matches spec (p_pid z)"
    if "p_wait_target r = Some spec" "pt_get (sm_k s) j = Some z" "p_parent z = Some (p_pid r)" "p_state z = Zombie"
      "p_exit_code z \<noteq> None" for spec j z
  proof -
    have "wait_done (a_rec (sm_k s)) spec (p_pid r)"
      using ainvD(11) [OF A] R that(1) unfolding inv_wait_alt by (metis core_simps(1,5))
    moreover have "a_rec (sm_k s) j = Some (core z)" using that(2) by (simp add: a_rec_def)
    ultimately show ?thesis using that(3-5) unfolding wait_done_def by (metis core_simps(1,2,6,7))
  qed
  ultimately show ?thesis by blast
qed

theorem no_lost_wake_witness:
  "\<exists>s r. smp_reach True s \<and> pt_get (sm_k s) 0 = Some r \<and> p_wait_target r = Some WaitAny \<and>
     (p_state r = Blocked \<or> (\<exists>c < MAX_CPUS. in_window (sm_pc s ! c) = Some 0)) \<and>
     (\<exists>ch. pt_get (sm_k s) 1 = Some ch \<and> p_parent ch = Some (p_pid r) \<and> p_state ch \<noteq> Zombie)"
proof -
  obtain s r ch where s: "smp_reach True s" "pt_get (sm_k s) 0 = Some r" "p_wait_target r = Some WaitAny" "p_pid r = 2"
      "pt_get (sm_k s) 1 = Some ch" "p_parent ch = Some 2" "p_state ch = Runnable"
    using demo_waiting by blast
  show ?thesis using no_lost_wake [OF s(1,2)] s by (intro exI [of _ s] exI [of _ r]) auto
qed

text \<open>
  C5: a core that picks makes progress, in every state reached by a run in which no process is created
  while a core is inside \<open>full_reap\<close> and wake-ups follow registrations. If the run queue is not empty,
  three steps of the core alone bring it to execute the process whose identifier the queue pops, in the slot of its record.
\<close>

theorem dispatch_progress:
  assumes "smp_reach True s" and "c < MAX_CPUS" and "sm_pc s ! c = Pick" and "mlfq_all (sc_queue (sm_k s)) \<noteq> []"
  shows "\<exists>s1 s2 s3 p i. smp_act True c EvStep s = Some (Val s1) \<and> smp_act True c EvStep s1 = Some (Val s2) \<and>
    smp_act True c EvStep s2 = Some (Val s3) \<and> snd (queue_pop (sm_k s)) = Some p \<and> slot_for_pid p (sm_k s) = Some i \<and>
    sm_pc s3 ! c = Exec i \<and> state_slot i (sm_k s3) = Some Running"
proof -
  have len: "length (sm_pc s) = MAX_CPUS" by (rule smp_invD(1) [OF reach_inv [OF assms(1)] assms(2)])
  have q: "a_queue (sm_k s) \<noteq> {#}" using assms(4) by (simp add: a_queue_def)
  obtain s1 p where s1: "smp_step c s = Some (Val s1)" "sm_pc s1 = (sm_pc s)[c := Claim p]"
      "ptable.truncate (sm_k s1) = ptable.truncate (sm_k s)" "snd (queue_pop (sm_k s)) = Some p"
    by (rule run_pick [OF assms(1-3) q])
  note r1 = reach_step [OF assms(1,2) s1(1)]
  have pc1: "sm_pc s1 ! c = Claim p" using s1(2) len assms(2) by simp
  obtain s2 i r where s2: "smp_step c s1 = Some (Val s2)" "sm_pc s2 = (sm_pc s1)[c := Enter i]"
      "pt_get (sm_k s1) i = Some r" "p_pid r = p" "pt_get (sm_k s2) = (pt_get (sm_k s1))(i := Some (claimed r))"
    by (rule run_claim [OF r1 assms(2) pc1])
  have pc2: "sm_pc s2 ! c = Enter i" using s2(2) s1(2) len assms(2) by simp
  obtain s3 where s3: "smp_step c s2 = Some (Val s3)" "sm_pc s3 = (sm_pc s2)[c := Exec i]"
      "ptable.truncate (sm_k s3) = ptable.truncate (sm_k s2)"
    by (rule run_enter [OF pc2])
  have r: "pt_get (sm_k s) i = Some r" using s2(3) truncate_get(1) [OF s1(3)] by simp
  have wf: "pt_wf (sm_k s)" by (rule smp_invD(3) [OF reach_inv [OF assms(1)] assms(2)])
  have "slot_for_pid p (sm_k s) = Some i"
    using pt_find_eq [OF wf, of p i] r s2(4) pt_wf_slot [OF wf r] by (auto simp: slot_for_pid_def pt_find_record_def)
  moreover have "sm_pc s3 ! c = Exec i" using s3(2) s2(2) s1(2) len assms(2) by simp
  moreover have "state_slot i (sm_k s3) = Some Running"
    using truncate_get(1) [OF s3(3)] s2(5) by (simp add: state_slot_def claimed_def)
  ultimately show ?thesis using s1 s2 s3 by (auto simp: smp_act_def)
qed

theorem dispatch_progress_witness:
  "\<exists>s s1 s2 s3. smp_reach True s \<and> state_of 3 (sm_k s) = Some Runnable \<and> sm_pc s ! 1 = Pick \<and>
     smp_act True 1 EvStep s = Some (Val s1) \<and> smp_act True 1 EvStep s1 = Some (Val s2) \<and>
     smp_act True 1 EvStep s2 = Some (Val s3) \<and> sm_pc s3 ! 1 = Exec 1 \<and> state_slot 1 (sm_k s3) = Some Running"
proof -
  have c: "0 < MAX_CPUS" "1 < MAX_CPUS" by (simp_all add: MAX_CPUS_def)
  let ?ch = "fork_record (claimed demo_init) 3 1 None"
  obtain s where s: "smp_reach True s" "sm_pc s = (replicate MAX_CPUS Pick)[0 := Exec 0]"
     "pt_get (sm_k s) = (\<lambda>_. None)(0 := Some (claimed demo_init), 1 := Some ?ch)" "a_queue (sm_k s) = {#3#}"
    using demo_forked by blast
  have pc: "sm_pc s ! 1 = Pick" using s(2) c by simp
  have q: "mlfq_all (sc_queue (sm_k s)) = [3]" using s(4) by (simp add: a_queue_def)
  then have q': "mlfq_all (sc_queue (sm_k s)) \<noteq> []" by simp
  have find: "pt_find 3 (sm_k s) = Some 1"
    using pt_find_eq [OF smp_invD(3) [OF reach_inv [OF s(1)] c(1)], of 3 1] s(3) by (simp add: fork_record_def)
  have st: "state_of 3 (sm_k s) = Some Runnable" "slot_for_pid 3 (sm_k s) = Some 1"
    using find s(3) by (simp_all add: state_of_def slot_for_pid_def pt_find_record_def fork_record_def)
  from dispatch_progress [OF s(1) c(2) pc q'] obtain s1 s2 s3 p i
    where run: "smp_act True 1 EvStep s = Some (Val s1)" "smp_act True 1 EvStep s1 = Some (Val s2)"
      "smp_act True 1 EvStep s2 = Some (Val s3)" and s3: "snd (queue_pop (sm_k s)) = Some p"
      "slot_for_pid p (sm_k s) = Some i" "sm_pc s3 ! 1 = Exec i" "state_slot i (sm_k s3) = Some Running"
    by (elim exE conjE)
  have "p = 3"
    using kern_pop [OF smp_invD(4) [OF reach_inv [OF s(1)] c(1)]] s3(1) s(4) by (auto split: prod.splits)
  then have "i = 1" using s3(2) st(2) by simp
  then show ?thesis using run s3 st(1) pc s(1) by blast
qed

end
