(* ===== verification/Reap_Effects.thy ===== *)
theory Reap_Effects
  imports Smp_Model
begin

text \<open>
  What \<open>full_reap\<close> and the exit path do to records and address spaces: the loop over the explicit
  stack does the work of a single round, so only direct zombie children are reaped; the space of a
  process that is reaped at once is not destroyed; and a round can take a process that was created
  after the previous one.
\<close>

section \<open>What the hooks keep of the table\<close>

text \<open>A projection of the entries that does not look at the session or the address space.\<close>

definition keeps_session :: "(process_record option \<Rightarrow> 'b) \<Rightarrow> bool" where
  "keeps_session f \<longleftrightarrow> (\<forall>r s. f (Some (r\<lparr>p_session := s\<rparr>)) = f (Some r))"

definition keeps_space :: "(process_record option \<Rightarrow> 'b) \<Rightarrow> bool" where
  "keeps_space f \<longleftrightarrow> (\<forall>r s. f (Some (r\<lparr>p_addr_space := s\<rparr>)) = f (Some r))"

lemma map_clear_session:
  assumes "keeps_session f"
  shows "map f (pt_table (fst (clear_session_members sid p t))) = map f (pt_table t)"
proof -
  have "f (map_option (p_session_update (\<lambda>_. 0)) e) = f e" for e
    using assms by (cases e) (simp_all add: keeps_session_def)
  then show ?thesis by (simp add: clear_session_members_def)
qed

lemma map_destroy [simp]: "pt_table (destroy_space sp k) = pt_table k"
  by (simp add: destroy_space_def split: option.split)

lemma map_fold_destroy [simp]: "pt_table (fold (\<lambda>(_, sp). destroy_space sp) casc k) = pt_table k"
  by (induction casc arbitrary: k) (simp_all add: split_beta)

lemma map_hooks:
  assumes "keeps_session f"
  shows "map f (pt_table (shm_gone p (security_process_gone p k))) = map f (pt_table k)"
proof -
  obtain b d where "gb_process_gone p (k_book k) = (b, d)" by fastforce
  then show ?thesis
    using map_clear_session [OF assms, of _ p "k\<lparr>k_book := b\<rparr>"]
    by (simp add: shm_gone_def security_process_gone_def Let_def split: option.split prod.split)
qed

lemma map_transfer:
  assumes "keeps_space f"
  shows "map f (pt_table (fst (transfer_group_space_locked tg dying sp t))) = map f (pt_table t)"
proof -
  have "f (map_option (p_addr_space_update (\<lambda>_. Some sp)) e) = f e" for e
    using assms by (cases e) (simp_all add: keeps_space_def)
  then show ?thesis
    by (auto simp: transfer_group_space_locked_def pt_modify_def pt_set_def pt_get_def map_update
        list_update_same_conv list_update_beyond split: option.split)
qed

lemma map_reap_finish:
  assumes "keeps_session f" "keeps_space f"
  shows "map f (pt_table (reap_finish r k)) = map f (pt_table k)"
  using map_hooks [OF assms(1), of "p_pid r" k]
    map_transfer [OF assms(2), of "p_tgid r" "p_pid r" _ "shm_gone (p_pid r) (security_process_gone (p_pid r) k)"]
  by (simp add: reap_finish_def Let_def split_beta split: option.split)

lemma keeps_shape: "keeps_session (\<lambda>e. e = None)" "keeps_space (\<lambda>e. e = None)"
  by (simp_all add: keeps_session_def keeps_space_def)

lemma map_eq_get:
  assumes "map f (pt_table t) = map f (pt_table u)"
  shows "f (pt_get t j) = f (pt_get u j)"
proof -
  have len: "length (pt_table t) = length (pt_table u)" using assms(1) by (rule map_eq_imp_length_eq)
  show ?thesis
    using arg_cong [OF assms(1), of "\<lambda>xs. xs ! j"] len by (cases "j < length (pt_table u)") (simp_all add: pt_get_def)
qed

section \<open>The loop is one round\<close>

lemma reap_take_slots:
  assumes "reap_take s k = Val (k1, Some (r, casc))"
  shows "\<forall>j \<in> set (map fst casc). j < length (pt_table k1) \<and> pt_table k1 ! j = None"
  using assms by (auto simp: reap_take_def Let_def orphan_entry_None split: if_splits option.splits)

lemma reap_empty_slots:
  "\<forall>j \<in> set st. j < length (pt_table k) \<and> pt_table k ! j = None \<Longrightarrow> full_reap_loop st k = Val k"
proof (induction st)
  case Nil
  then show ?case by (simp add: full_reap_loop.simps)
next
  case (Cons j st)
  then have "reap_round (j # st) k = Val (st, k)" by (simp add: reap_round_def reap_take_def)
  then show ?case using Cons by (simp add: full_reap_loop.simps [of "j # st"])
qed

definition reap_once :: "nat \<Rightarrow> kernel \<Rightarrow> kernel outcome" where
  "reap_once i k = obind (reap_take i k) (\<lambda>(k1, g). Val (case g of
      None \<Rightarrow> k1
    | Some (r, casc) \<Rightarrow> fold (\<lambda>(_, sp). destroy_space sp) casc (reap_finish r k1)))"

lemma full_reap_loop_once: "full_reap_loop [i] k = reap_once i k"
proof (cases "reap_take i k")
  case Panic
  then show ?thesis by (simp add: full_reap_loop.simps [of "[i]"] reap_round_def reap_once_def)
next
  case (Val kg)
  obtain k1 g where kg: "kg = (k1, g)" by fastforce
  show ?thesis
  proof (cases g)
    case None
    then show ?thesis using Val kg by (simp add: full_reap_loop.simps [of "[i]"] full_reap_loop.simps [of "[]"] reap_round_def reap_once_def)
  next
    case (Some rc)
    obtain r casc where rc: "rc = (r, casc)" by fastforce
    let ?k = "fold (\<lambda>(_, sp). destroy_space sp) casc (reap_finish r k1)" and ?st = "foldl push_slot [] (map fst casc)"
    have m: "map (\<lambda>e. e = None) (pt_table ?k) = map (\<lambda>e. e = None) (pt_table k1)"
      using map_reap_finish [OF keeps_shape, of r k1] by simp
    have "j < length (pt_table ?k) \<and> pt_table ?k ! j = None" if "j \<in> set ?st" for j
    proof -
      have "j < length (pt_table k1) \<and> pt_table k1 ! j = None"
        using that push_slots_set [of "[]" "map fst casc"] reap_take_slots Val kg Some rc by fastforce
      then show ?thesis using arg_cong [OF m, of "\<lambda>xs. xs ! j"] map_eq_imp_length_eq [OF m] by simp
    qed
    then have "full_reap_loop ?st ?k = Val ?k" by (intro reap_empty_slots) blast
    then show ?thesis using Val kg Some rc by (simp add: full_reap_loop.simps [of "[i]"] reap_round_def reap_once_def)
  qed
qed

lemma full_reap_once: "full_reap i k = obind (reap_once i k) (\<lambda>k. Val (clear_current_slot_if i k))"
  by (simp add: full_reap_def full_reap_loop_once)

definition space_of :: "process_record option \<Rightarrow> aspace option" where
  "space_of e = Option.bind e p_addr_space"

lemma reap_take_get:
  assumes "pt_get k i = Some r"
  shows "\<exists>casc. reap_take i k = Val (k\<lparr>pt_table := map (orphan_entry (p_pid r)) ((pt_table k)[i := None])\<rparr>, Some (r, casc)) \<and>
    (\<forall>e \<in> set casc. fst e \<noteq> i \<and> snd e = space_of (pt_get k (fst e)))"
proof -
  let ?t = "(pt_table k)[i := None]"
  let ?casc = "map (\<lambda>j. (j, Option.bind (?t ! j) p_addr_space)) (filter (\<lambda>j. cascades (p_pid r) (?t ! j)) [0..<length ?t])"
  have i: "i < length (pt_table k)" "pt_table k ! i = Some r" using assms by (auto simp: pt_get_def split: if_splits)
  then show ?thesis
    by (intro exI [of _ ?casc]) (auto simp: reap_take_def pt_get_def nth_list_update cascades_def space_of_def split: if_splits)
qed

text \<open>The table after the critical section, as a function of slots.\<close>

lemma reap_table_get:
  "pt_get (k\<lparr>pt_table := map (orphan_entry d) ((pt_table k)[i := None])\<rparr>) j
    = (if j = i then None else orphan_entry d (pt_get k j))"
  by (auto simp: pt_get_def orphan_entry_def nth_list_update)

text \<open>What the lock section and the hooks leave of an entry: identity, parent, state and adoption.\<close>

definition kin :: "process_record option \<Rightarrow> (pid \<times> pid option \<times> process_state \<times> bool) option" where
  "kin = map_option (\<lambda>r. (p_pid r, p_parent r, p_state r, p_adopted r))"

lemma keeps_kin: "keeps_session kin" "keeps_space kin"
  by (simp_all add: keeps_session_def keeps_space_def kin_def)

lemma full_reap_kin:
  assumes "pt_get k i = Some r"
  shows "\<exists>k'. full_reap i k = Val k' \<and> (\<forall>j. kin (pt_get k' j) = (if j = i then None else kin (orphan_entry (p_pid r) (pt_get k j))))"
proof -
  define k1 where "k1 = k\<lparr>pt_table := map (orphan_entry (p_pid r)) ((pt_table k)[i := None])\<rparr>"
  obtain casc where t: "reap_take i k = Val (k1, Some (r, casc))"
    unfolding k1_def using reap_take_get [OF assms] by blast
  define k2 where "k2 = clear_current_slot_if i (fold (\<lambda>(_, sp). destroy_space sp) casc (reap_finish r k1))"
  have run: "full_reap i k = Val k2" by (simp add: full_reap_once reap_once_def t k2_def)
  have m: "map kin (pt_table k2) = map kin (pt_table k1)"
    using map_reap_finish [OF keeps_kin, of r k1] by (simp add: clear_current_slot_if_def k2_def)
  have "kin (pt_get k2 j) = (if j = i then None else kin (orphan_entry (p_pid r) (pt_get k j)))" for j
    unfolding map_eq_get [OF m] k1_def by (simp add: reap_table_get kin_def)
  then show ?thesis using run by blast
qed

section \<open>Address spaces\<close>

lemma keeps_space_of: "keeps_session space_of"
  by (simp add: keeps_session_def space_of_def)

lemma destroyed_hooks [simp]:
  "k_destroyed (shm_gone p k) = k_destroyed k" "k_destroyed (security_process_gone p k) = k_destroyed k"
  by (auto simp: shm_gone_def security_process_gone_def clear_session_members_def Let_def split: prod.splits option.splits)

lemma destroyed_fold:
  "k_destroyed (fold (\<lambda>(_, sp). destroy_space sp) casc k) = k_destroyed k @ List.map_filter snd casc"
  by (induction casc arbitrary: k) (auto simp: destroy_space_def List.map_filter_simps split: option.splits)

lemma space_of_orphan: "space_of (orphan_entry d e) = Some sp \<Longrightarrow> space_of e = Some sp"
  by (cases e) (auto simp: space_of_def orphan_entry_def split: orphan_fate.splits)

lemma spawn_lowest_free:
  assumes "position (\<lambda>e. e = None) (pt_table k) = Some j" and "j < length (pt_owner k)"
  shows "\<exists>k' p. spawn ki draw entry name k = Val (k', Inr p) \<and> pt_get k' j = Some (spawn_record p j entry name)"
proof -
  have j: "j < length (pt_table k)" using assms(1) by (simp add: position_Some_iff)
  let ?k = "k\<lparr>pt_next_pid := next_pid_raw (pt_next_pid k), pt_owner := (pt_owner k)[j := PROCESS_OWNER_NONE]\<rparr>"
  have "alloc_table_slot_locked (k\<lparr>pt_next_pid := next_pid_raw (pt_next_pid k)\<rparr>) = Val (?k, Some j)"
    using assms by (simp add: alloc_table_slot_locked_def owner_store_def)
  then have "spawn ki draw entry name k = Val (pt_set j (Some (spawn_record (pt_next_pid k) j entry name))
      (?k\<lparr>pt_frames := (pt_frames k)[j := init_user (ki_thread_exit ki) entry
        (randomized_user_stack_top draw (user_stack_top_raw j)) (kernel_stack_top_raw ki j) (pt_frames k ! j)]\<rparr>), Inr (pt_next_pid k))"
    by (simp add: spawn_def alloc_pid_def Let_def)
  then show ?thesis using j by (simp add: pt_get_def pt_set_def)
qed

lemma spaceless_reap:
  assumes "pt_get k i = Some me" and "p_addr_space me = None"
    and sole: "\<And>j. j \<noteq> i \<Longrightarrow> space_of (pt_get k j) \<noteq> Some sp"
  shows "\<exists>k'. full_reap i k = Val k' \<and> (\<forall>j. space_of (pt_get k' j) \<noteq> Some sp) \<and>
    count_list (k_destroyed k') sp = count_list (k_destroyed k) sp"
proof -
  define k1 where "k1 = k\<lparr>pt_table := map (orphan_entry (p_pid me)) ((pt_table k)[i := None])\<rparr>"
  obtain casc where t: "reap_take i k = Val (k1, Some (me, casc))"
    and casc: "\<forall>e \<in> set casc. fst e \<noteq> i \<and> snd e = space_of (pt_get k (fst e))"
    unfolding k1_def using reap_take_get [OF assms(1)] by blast
  define k2 where "k2 = fold (\<lambda>(_, sp). destroy_space sp) casc (reap_finish me k1)"
  have run: "full_reap i k = Val (clear_current_slot_if i k2)" by (simp add: full_reap_once reap_once_def t k2_def)
  have fin: "reap_finish me k1 = shm_gone (p_pid me) (security_process_gone (p_pid me) k1)"
    using assms(2) by (simp add: reap_finish_def)
  have "map space_of (pt_table k2) = map space_of (pt_table k1)"
    using map_hooks [OF keeps_space_of, of "p_pid me" k1] by (simp add: k2_def fin)
  then have eq: "space_of (pt_get k2 j) = space_of (pt_get k1 j)" for j by (rule map_eq_get)
  have get1: "pt_get k1 j = (if j = i then None else orphan_entry (p_pid me) (pt_get k j))" for j
    unfolding k1_def by (rule reap_table_get)
  have "space_of (pt_get k2 j) \<noteq> Some sp" for j
  proof (cases "j = i")
    case True
    then show ?thesis unfolding eq get1 by (simp add: space_of_def)
  next
    case False
    then show ?thesis unfolding eq get1 using sole [OF False] space_of_orphan [of "p_pid me" "pt_get k j" sp] by auto
  qed
  moreover have "count_list (k_destroyed k2) sp = count_list (k_destroyed k) sp"
  proof -
    have "snd e \<noteq> Some sp" if "e \<in> set casc" for e using casc sole that by metis
    then have "sp \<notin> set (List.map_filter snd casc)" by (force simp: List.map_filter_def)
    moreover have "k_destroyed (reap_finish me k1) = k_destroyed k" unfolding fin by (simp add: k1_def)
    ultimately show ?thesis by (simp add: k2_def destroyed_fold)
  qed
  moreover have "pt_get (clear_current_slot_if i k2) j = pt_get k2 j" "k_destroyed (clear_current_slot_if i k2) = k_destroyed k2" for j
    by (simp_all add: clear_current_slot_if_def pt_get_def)
  ultimately show ?thesis using run by simp
qed

lemma exit_plan_orphan:
  assumes me: "pt_get k i = Some me" "p_addr_space me = Some sp" "p_parent me = None"
    and alone: "group_survivor_index (p_tgid me) (p_pid me) (pt_set i None k) = None"
  shows "exit_plan i status k = Val (pt_set i (Some (me\<lparr>p_exit_code := Some status, p_addr_space := None\<rparr>))
    (futex_detach (p_pid me) k), EpReapNow)"
proof -
  have i: "i < length (pt_table k)" "pt_table k ! i = Some me" using me(1) by (auto simp: pt_get_def split: if_splits)
  have disp: "exit_disposition None b a = ReapImmediately" for a b by (simp add: exit_disposition_def)
  have "group_survivor_index (p_tgid me) (p_pid me) (pt_set i None (futex_detach (p_pid me) k)) = None"
    using alone by (simp add: group_survivor_index_def pt_set_def futex_detach_def)
  then show ?thesis
    using i me(2,3) by (simp add: exit_plan_def exit_reap_def disp transfer_group_space_locked_def Let_def)
      (simp add: futex_detach_def pt_set_def)
qed

section \<open>Properties\<close>

text \<open>
  C16: Reaping a process terminates and does one generation: the process leaves the table with those of its
  direct children that are zombies, its other children move to init, and everybody else keeps identity,
  parent and state. A zombie child of a reaped zombie child therefore stays, although the comment on
  \<open>full_reap\<close> promises that zombie descendants are processed.
\<close>
theorem full_reap_effect:
  assumes "pt_get k i = Some r"
  shows "\<exists>k'. full_reap i k = Val k' \<and>
    (\<forall>j. pt_get k' j = None \<longleftrightarrow>
      (j = i \<or> pt_get k j = None \<or> (\<exists>c. pt_get k j = Some c \<and> p_parent c = Some (p_pid r) \<and> p_state c = Zombie))) \<and>
    (\<forall>j c c'. pt_get k j = Some c \<longrightarrow> pt_get k' j = Some c' \<longrightarrow>
      p_pid c' = p_pid c \<and> p_state c' = p_state c \<and>
      p_parent c' = (if p_parent c = Some (p_pid r) then Some INIT_PID else p_parent c) \<and>
      p_adopted c' = (p_adopted c \<or> p_parent c = Some (p_pid r)))"
proof -
  obtain k' where k': "full_reap i k = Val k'"
    and kin: "kin (pt_get k' j) = (if j = i then None else kin (orphan_entry (p_pid r) (pt_get k j)))" for j
    using full_reap_kin [OF assms] by blast
  have "pt_get k' j = None \<longleftrightarrow>
      (j = i \<or> pt_get k j = None \<or> (\<exists>c. pt_get k j = Some c \<and> p_parent c = Some (p_pid r) \<and> p_state c = Zombie))" for j
    using kin [of j] by (auto simp: kin_def orphan_entry_def orphan_action_def split: option.splits if_splits orphan_fate.splits)
  moreover have "p_pid c' = p_pid c \<and> p_state c' = p_state c \<and>
      p_parent c' = (if p_parent c = Some (p_pid r) then Some INIT_PID else p_parent c) \<and>
      p_adopted c' = (p_adopted c \<or> p_parent c = Some (p_pid r))" if "pt_get k j = Some c" "pt_get k' j = Some c'" for j c c'
    using kin [of j] that by (auto simp: kin_def orphan_entry_def orphan_action_def split: option.splits if_splits orphan_fate.splits)
  ultimately show ?thesis using k' by blast
qed

text \<open>A table with a process, its zombie child, and the zombie child of that.\<close>

definition zombie_of :: "pid \<Rightarrow> nat \<Rightarrow> pid \<Rightarrow> process_record" where
  "zombie_of p i pp = (spawn_record p i 0x400000 ''z'')\<lparr>p_parent := Some pp, p_state := Zombie, p_exit_code := Some 0\<rparr>"

theorem full_reap_effect_witness:
  "\<exists>k'. full_reap 0 ((kernel_boot gb_new)\<lparr>pt_table := [Some (spawn_record 5 0 0x400000 ''a''), Some (zombie_of 6 1 5), Some (zombie_of 7 2 6)]\<rparr>)
      = Val k' \<and> pt_get k' 0 = None \<and> pt_get k' 1 = None \<and> pt_get k' 2 \<noteq> None"
proof -
  let ?k = "(kernel_boot gb_new)\<lparr>pt_table := [Some (spawn_record 5 0 0x400000 ''a''), Some (zombie_of 6 1 5), Some (zombie_of 7 2 6)]\<rparr>"
  have get: "pt_get ?k 0 = Some (spawn_record 5 0 0x400000 ''a'')" "pt_get ?k 1 = Some (zombie_of 6 1 5)" "pt_get ?k 2 = Some (zombie_of 7 2 6)"
    by (simp_all add: pt_get_def)
  obtain k' where k': "full_reap 0 ?k = Val k'"
    "\<forall>j. pt_get k' j = None \<longleftrightarrow> (j = 0 \<or> pt_get ?k j = None \<or> (\<exists>c. pt_get ?k j = Some c \<and>
      p_parent c = Some (p_pid (spawn_record 5 0 0x400000 ''a'')) \<and> p_state c = Zombie))"
    using full_reap_effect [OF get(1)] by blast
  have "pt_get k' 0 = None" "pt_get k' 1 = None" "pt_get k' 2 \<noteq> None"
    using k'(2) [rule_format, of 0] k'(2) [rule_format, of 1] k'(2) [rule_format, of 2]
    unfolding get by (simp_all add: zombie_of_def spawn_record_def)
  then show ?thesis using k'(1) by blast
qed

text \<open>
  C30: A process without a parent that exits loses its address space: when no thread of its group is
  left to take it and no other record holds it, the exit ends with the record gone, no record
  holding the space, and no destruction of it logged. The pages of the space are leaked.
\<close>
theorem exit_reap_leaks_space:
  assumes me: "pt_get k i = Some me" "p_addr_space me = Some sp" "p_parent me = None"
    and alone: "group_survivor_index (p_tgid me) (p_pid me) (pt_set i None k) = None"
    and sole: "\<forall>j r. pt_get k j = Some r \<longrightarrow> j \<noteq> i \<longrightarrow> p_addr_space r \<noteq> Some sp"
  shows "\<exists>k'. exit_on_scheduler_stack i status k = Val k' \<and> pt_get k' i = None \<and>
    (\<forall>j r. pt_get k' j = Some r \<longrightarrow> p_addr_space r \<noteq> Some sp) \<and>
    count_list (k_destroyed k') sp = count_list (k_destroyed k) sp"
proof -
  define me' where "me' = me\<lparr>p_exit_code := Some status, p_addr_space := None\<rparr>"
  define k0 where "k0 = pt_set i (Some me') (futex_detach (p_pid me) k)"
  have run: "exit_on_scheduler_stack i status k = full_reap i k0"
    using exit_plan_orphan [OF me alone, of status] by (simp add: exit_on_scheduler_stack_def k0_def me'_def)
  have "i < length (pt_table k)" using me(1) by (auto simp: pt_get_def split: if_splits)
  then have get0: "pt_get k0 j = (if j = i then Some me' else pt_get k j)" for j
    by (simp add: k0_def pt_get_def pt_set_def futex_detach_def)
  have gi: "pt_get k0 i = Some me'" and sl: "p_addr_space me' = None" by (simp_all add: get0 me'_def)
  have "space_of (pt_get k0 j) \<noteq> Some sp" if "j \<noteq> i" for j
    using sole that by (cases "pt_get k j") (auto simp: space_of_def get0)
  from spaceless_reap [OF gi sl this] obtain k' where k': "full_reap i k0 = Val k'"
      "\<forall>j. space_of (pt_get k' j) \<noteq> Some sp" "count_list (k_destroyed k') sp = count_list (k_destroyed k0) sp"
    by blast
  have "kin (pt_get k' i) = None" using full_reap_kin [OF gi] k'(1) by auto
  then have "pt_get k' i = None" by (simp add: kin_def)
  moreover have "p_addr_space r \<noteq> Some sp" if "pt_get k' j = Some r" for j r
    using k'(2) that by (metis bind.simps(2) space_of_def)
  moreover have "k_destroyed k0 = k_destroyed k" by (simp add: k0_def pt_set_def futex_detach_def)
  ultimately show ?thesis using run k' by auto
qed

theorem exit_reap_leaks_space_witness:
  "\<exists>k'. exit_on_scheduler_stack 0 7 ((kernel_boot gb_new)\<lparr>pt_table := [Some ((spawn_record 5 0 0x400000 ''a'')\<lparr>p_addr_space := Some 9\<rparr>)]\<rparr>)
      = Val k' \<and> pt_get k' 0 = None \<and> count_list (k_destroyed k') 9 = 0"
proof -
  let ?me = "(spawn_record 5 0 0x400000 ''a'')\<lparr>p_addr_space := Some 9\<rparr>"
  let ?k = "(kernel_boot gb_new)\<lparr>pt_table := [Some ?me]\<rparr>"
  have "pt_get ?k 0 = Some ?me" "p_addr_space ?me = Some 9" "p_parent ?me = None"
      "group_survivor_index (p_tgid ?me) (p_pid ?me) (pt_set 0 None ?k) = None"
      "\<forall>j r. pt_get ?k j = Some r \<longrightarrow> j \<noteq> 0 \<longrightarrow> p_addr_space r \<noteq> Some 9"
    by (simp_all add: pt_get_def spawn_record_def group_survivor_index_def pt_set_def survives_def split: if_split)
  from exit_reap_leaks_space [OF this, of 7] show ?thesis by (auto simp: kernel_boot_def)
qed

text \<open>
  C31: \<open>full_reap\<close> can take a process that was never its business. Its first lock section empties the
  slots of zombie children and pushes them on the stack; when the first free slot is on top of the
  stack and a process is created before the next lock section, that section removes the new process.
\<close>
theorem full_reap_takes_new_process:
  assumes "reap_round [i] k = Val (j # rest, k1)"
    and free: "position (\<lambda>e. e = None) (pt_table k1) = Some j" and own: "j < length (pt_owner k1)"
  shows "\<exists>k2 p r k3 st. spawn ki draw entry name k1 = Val (k2, Inr p) \<and>
    pt_get k2 j = Some r \<and> p_pid r = p \<and> p_state r = Runnable \<and>
    reap_round (j # rest) k2 = Val (st, k3) \<and> pt_get k3 j = None"
proof -
  obtain k2 p where sp: "spawn ki draw entry name k1 = Val (k2, Inr p)" "pt_get k2 j = Some (spawn_record p j entry name)"
    using spawn_lowest_free [OF free own] by blast
  let ?r = "spawn_record p j entry name"
  let ?k = "k2\<lparr>pt_table := map (orphan_entry (p_pid ?r)) ((pt_table k2)[j := None])\<rparr>"
  obtain casc where t: "reap_take j k2 = Val (?k, Some (?r, casc))" using reap_take_get [OF sp(2)] by blast
  define k3 where "k3 = fold (\<lambda>(_, sp). destroy_space sp) casc (reap_finish ?r ?k)"
  have r: "reap_round (j # rest) k2 = Val (foldl push_slot rest (map fst casc), k3)"
    by (simp add: reap_round_def t k3_def)
  have "kin (pt_get k3 j) = kin (pt_get ?k j)"
    by (rule map_eq_get) (simp add: k3_def map_reap_finish [OF keeps_kin])
  then have "pt_get k3 j = None" by (simp add: reap_table_get kin_def)
  then show ?thesis using sp r by (auto simp: spawn_record_def)
qed

theorem full_reap_takes_new_process_witness:
  "\<exists>k1 k2 p r k3 st. reap_round [1] ((kernel_boot gb_new)\<lparr>pt_table := [Some (zombie_of 6 0 5), Some (spawn_record 5 1 0x400000 ''a'')]\<rparr>)
      = Val ([0], k1) \<and> spawn \<lparr>ki_thread_exit = 0x1000, ki_kernel_stacks = 0x40000000\<rparr> 0 0x400000 ''b'' k1 = Val (k2, Inr p) \<and>
    pt_get k2 0 = Some r \<and> p_pid r = p \<and> reap_round [0] k2 = Val (st, k3) \<and> pt_get k3 0 = None"
proof -
  let ?me = "spawn_record 5 1 0x400000 ''a''" and ?ki = "\<lparr>ki_thread_exit = 0x1000, ki_kernel_stacks = 0x40000000\<rparr>"
  let ?k = "(kernel_boot gb_new)\<lparr>pt_table := [Some (zombie_of 6 0 5), Some ?me]\<rparr>"
  have e: "orphan_entry 5 (Some (zombie_of 6 0 5)) = None" "cascades 5 (Some (zombie_of 6 0 5))"
      "p_pid (spawn_record 5 n a b) = 5" "p_addr_space (spawn_record 5 n a b) = None" "p_addr_space (zombie_of 6 0 5) = None" "orphan_entry 5 None = None" "\<not> cascades 5 None" for n a b
    by (simp_all add: zombie_of_def spawn_record_def orphan_entry_def cascades_def orphan_action_def)
  define k1 where "k1 = shm_gone 5 (security_process_gone 5 (?k\<lparr>pt_table := [None, None]\<rparr>))"
  have idx: "[0..<2] = [0, 1::nat]" by (simp add: upt_rec)
  have take: "reap_take 1 ?k = Val (?k\<lparr>pt_table := [None, None]\<rparr>, Some (?me, [(0, None)]))"
    by (simp add: reap_take_def e idx Let_def)
  have r1: "reap_round [1] ?k = Val ([0], k1)"
    by (simp add: reap_round_def take [simplified] k1_def reap_finish_def e push_slot_def MAX_PROCESSES_def destroy_space_def)
  have "map (\<lambda>e. e = None) (pt_table k1) = map (\<lambda>e. e = None) [None, None :: process_record option]"
    unfolding k1_def by (subst map_hooks [OF keeps_shape(1)]) simp
  then have free: "position (\<lambda>e. e = None) (pt_table k1) = Some 0" by (simp add: position_cong [of _ "pt_table k1" "\<lambda>e. e = None" "[None, None :: process_record option]"])
  have "pt_owner k1 = pt_owner ?k"
    by (simp add: k1_def shm_gone_def security_process_gone_def clear_session_members_def Let_def split: prod.split option.split)
  then have "0 < length (pt_owner k1)" by (simp add: kernel_boot_def MAX_PROCESSES_def)
  from full_reap_takes_new_process [OF r1 free this, of ?ki 0 "0x400000" "''b''"] r1 show ?thesis by blast
qed

end
