(* ===== verification/Scheduler_Ticks.thy ===== *)
theory Scheduler_Ticks
  imports Scheduler
begin

text \<open>
  The timer tick of \<open>microkernel/src/scheduler.rs\<close>: what \<open>on_tick_consume\<close> leaves untouched, and the time
  slice that bounds how long a process runs before it is preempted.
\<close>

section \<open>What a wake-up keeps\<close>

text \<open>The fields a wake-up leaves alone, and the slots that are running.\<close>

definition same_clock :: "'a sched_scheme \<Rightarrow> 'a sched_scheme \<Rightarrow> bool" where
  "same_clock s s' \<longleftrightarrow> sc_slice s' = sc_slice s \<and> sc_current s' = sc_current s \<and> sc_sleep s' = sc_sleep s \<and>
    sc_tick s' = sc_tick s \<and> length (sc_level s') = length (sc_level s) \<and>
    (\<forall>i. state_slot i s = Some Running \<longrightarrow> state_slot i s' = Some Running)"

lemma state_slot_clock [simp]:
  "state_slot i (s\<lparr>sc_tick := a\<rparr>) = state_slot i s" "state_slot i (s\<lparr>sc_sleep := b\<rparr>) = state_slot i s"
  "state_slot i (s\<lparr>sc_streak := c\<rparr>) = state_slot i s" "state_slot i (s\<lparr>sc_slice := d\<rparr>) = state_slot i s"
  "state_slot i (s\<lparr>sc_level := e\<rparr>) = state_slot i s" "state_slot i (s\<lparr>sc_queue := f\<rparr>) = state_slot i s"
  "state_slot i (s\<lparr>sc_last_boost := g\<rparr>) = state_slot i s" "state_slot i (s\<lparr>pt_frames := h\<rparr>) = state_slot i s"
  by (simp_all add: state_slot_def pt_get_def)

lemma same_clock_refl [intro!]: "same_clock s s"
  by (simp add: same_clock_def)

lemma same_clock_trans [trans]: "same_clock s t \<Longrightarrow> same_clock t u \<Longrightarrow> same_clock s u"
  by (simp add: same_clock_def)

lemma state_slot_modify:
  "state_slot j (pt_modify i f t) = (if i = j then map_option (\<lambda>r. p_state (f r)) (pt_get t i) else state_slot j t)"
  by (auto simp: state_slot_def pt_modify_def pt_set_def pt_get_def nth_list_update option.map_comp o_def)

lemma same_clock_table: "same_clock s (pt_modify i f s)"
  if "\<And>r. pt_get s i = Some r \<Longrightarrow> p_state r = Running \<Longrightarrow> p_state (f r) = Running"
  using that by (auto simp: same_clock_def state_slot_modify) (auto simp: pt_modify_def pt_set_def state_slot_def)

lemma same_clock_level: "set_level slot l s = Val s' \<Longrightarrow> same_clock s s'"
  by (auto simp: set_level_def same_clock_def split: if_splits)

lemma same_clock_queue: "queue_push p l s = Val s' \<Longrightarrow> same_clock s s'"
  by (auto simp: queue_push_def same_clock_def obind_eq_Val)

lemma same_clock_request_wake:
  assumes "request_wake p s = Val (s', w)"
  shows "same_clock s s'"
  using assms by (auto simp: request_wake_def obind_eq_Val intro!: same_clock_table
      split: option.splits process_state.splits if_splits)

lemma same_clock_wake:
  assumes "wake p s = Val s'"
  shows "same_clock s s'"
proof -
  obtain s1 w s2 r where w: "request_wake p s = Val (s1, w)" and t: "wake_transition p s = Val (s2, r)"
    using assms by (auto simp: wake_def wake_transition_def obind_eq_Val)
  have "same_clock s1 s2"
    using t w by (auto simp: wake_transition_def obind_eq_Val same_clock_level split: wake_result.splits)
  moreover have "same_clock s2 s'" using assms t by (auto simp: wake_def same_clock_queue split: option.splits)
  ultimately show ?thesis using same_clock_request_wake [OF w] same_clock_trans by blast
qed

lemma same_clock_ofold: "ofold (\<lambda>e. wake (sl_pid e)) es s = Val s' \<Longrightarrow> same_clock s s'"
  by (induction es arbitrary: s) (auto simp: obind_eq_Val dest!: same_clock_wake intro: same_clock_trans)

lemma same_clock_elapsed: "same_clock s (fold (write_elapsed now) es s)"
proof (induction es arbitrary: s)
  case (Cons e es)
  have "same_clock s (write_elapsed now e s)"
    by (auto simp: write_elapsed_def same_clock_def split: option.splits)
  then show ?case using Cons [of "write_elapsed now e s"] same_clock_trans by fastforce
qed auto

lemma tick_sleepers_clock:
  assumes "tick_sleepers now s = Val s'"
  shows "same_clock (s\<lparr>sc_sleep := dropWhile (\<lambda>e. sl_wake_at e \<le> now) (sc_sleep s)\<rparr>) s'"
  using assms same_clock_ofold same_clock_elapsed same_clock_trans unfolding tick_sleepers_def tick_take_def Let_def prod.case by blast

lemma fold_level_length: "length (fold (\<lambda>slot ls. if P slot then ls[slot := 0] else ls) xs ls) = length ls"
  by (induction xs arbitrary: ls) auto

lemma same_clock_boost: "same_clock s (tick_boost now s)"
  by (auto simp: tick_boost_def same_clock_def fold_level_length)

text \<open>A tick up to the accounting of the running process.\<close>

lemma tick_prefix:
  assumes "on_tick_consume cpu s = Val (s', b)"
  obtains t where "same_clock (s\<lparr>sc_tick := sc_tick s + 1, sc_sleep := dropWhile (\<lambda>e. sl_wake_at e \<le> sc_tick s + 1) (sc_sleep s)\<rparr>) t"
    and "(\<exists>v. s' = t\<lparr>sc_streak := v\<rparr> \<and> \<not> b \<and> \<not> (\<exists>slot. current_slot_opt cpu t = Some slot \<and> state_slot slot t = Some Running))
      \<or> (\<exists>slot v. current_slot_opt cpu t = Some slot \<and> state_slot slot t = Some Running \<and> tick_slice cpu slot (t\<lparr>sc_streak := v\<rparr>) = Val (s', b))"
proof -
  let ?s0 = "s\<lparr>sc_tick := sc_tick s + 1\<rparr>"
  let ?s1 = "s\<lparr>sc_tick := sc_tick s + 1, sc_sleep := dropWhile (\<lambda>e. sl_wake_at e \<le> sc_tick s + 1) (sc_sleep s)\<rparr>"
  obtain u where u: "tick_sleepers (sc_tick s + 1) ?s0 = Val u"
    using assms by (auto simp: on_tick_consume_def tick_advance_def Let_def obind_eq_Val)
  let ?t = "tick_boost (sc_tick s + 1) u"
  have "same_clock ?s1 u" using tick_sleepers_clock [OF u] by simp
  then have c: "same_clock ?s1 ?t" using same_clock_boost same_clock_trans by blast
  show thesis
    by (rule that [OF c]) (use assms u in \<open>auto simp: on_tick_consume_def tick_advance_def Let_def split: option.splits if_splits\<close>)
qed

section \<open>Time slices\<close>

lemma slice_for_level_le: "slice_for_level l \<le> 32"
proof -
  have "min l 3 = 0 \<or> min l 3 = 1 \<or> min l 3 = 2 \<or> min l 3 = 3" by linarith
  then show ?thesis by (auto simp: slice_for_level_def MLFQ_LEVELS_def SLICE_TICKS_def)
qed

lemma tick_slice_False:
  assumes "tick_slice cpu slot s = Val (s', False)"
  shows "slot < length (sc_slice s)" "s' = s\<lparr>sc_slice := (sc_slice s)[slot := sc_slice s ! slot + 1]\<rparr>" "sc_slice s ! slot + 1 < 32"
proof -
  obtain l where *: "slot < length (sc_slice s)" "s' = s\<lparr>sc_slice := (sc_slice s)[slot := sc_slice s ! slot + 1]\<rparr>"
      "sc_slice s ! slot + 1 < slice_for_level l"
    using assms by (auto simp: tick_slice_def obind_eq_Val array_get_def set_slice_def Let_def not_le split: if_splits)
  then show "slot < length (sc_slice s)" "s' = s\<lparr>sc_slice := (sc_slice s)[slot := sc_slice s ! slot + 1]\<rparr>"
    "sc_slice s ! slot + 1 < 32"
    using slice_for_level_le [of l] by auto
qed

text \<open>A run of ticks on one core, none of which preempts.\<close>

inductive quiet_ticks :: "nat \<Rightarrow> nat \<Rightarrow> 'a sched_scheme \<Rightarrow> 'a sched_scheme \<Rightarrow> bool" for cpu where
  none: "quiet_ticks cpu 0 s s"
| step: "on_tick_consume cpu s = Val (s1, False) \<Longrightarrow> quiet_ticks cpu n s1 s2 \<Longrightarrow> quiet_ticks cpu (Suc n) s s2"

lemma quiet_tick_slice:
  assumes "on_tick_consume cpu s = Val (s', False)" and "sc_current s ! cpu = Some slot" "state_slot slot s = Some Running"
  shows "slot < length (sc_slice s)" "sc_slice s' = (sc_slice s)[slot := sc_slice s ! slot + 1]" "sc_slice s ! slot + 1 < 32"
    "sc_current s' = sc_current s" "state_slot slot s' = Some Running"
proof -
  obtain t where t: "same_clock (s\<lparr>sc_tick := sc_tick s + 1, sc_sleep := dropWhile (\<lambda>e. sl_wake_at e \<le> sc_tick s + 1) (sc_sleep s)\<rparr>) t"
    and or: "(\<exists>v. s' = t\<lparr>sc_streak := v\<rparr> \<and> \<not> False \<and> \<not> (\<exists>slot. current_slot_opt cpu t = Some slot \<and> state_slot slot t = Some Running))
      \<or> (\<exists>slot v. current_slot_opt cpu t = Some slot \<and> state_slot slot t = Some Running \<and> tick_slice cpu slot (t\<lparr>sc_streak := v\<rparr>) = Val (s', False))"
    using tick_prefix [OF assms(1)] by blast
  have c: "sc_slice t = sc_slice s" "sc_current t = sc_current s" "state_slot slot t = Some Running"
    using t assms(3) by (auto simp: same_clock_def)
  then obtain v where "tick_slice cpu slot (t\<lparr>sc_streak := v\<rparr>) = Val (s', False)"
    using or assms(2) by (auto simp: current_slot_opt_def)
  from tick_slice_False [OF this] c
  show "slot < length (sc_slice s)" "sc_slice s' = (sc_slice s)[slot := sc_slice s ! slot + 1]" "sc_slice s ! slot + 1 < 32"
    "sc_current s' = sc_current s" "state_slot slot s' = Some Running"
    by simp_all
qed

lemma quiet_ticks_count:
  assumes "quiet_ticks cpu n s s'" and "sc_current s ! cpu = Some slot" "state_slot slot s = Some Running"
  shows "0 < n \<Longrightarrow> unat (sc_slice s ! slot + 1) + n \<le> 32"
  using assms
proof (induction rule: quiet_ticks.induct)
  case (step s s1 n s2)
  note q = quiet_tick_slice [OF step.hyps(1) step.prems(2,3)]
  have lt: "unat (sc_slice s ! slot + 1) < 32" using q(3) by (simp add: word_less_nat_alt)
  show ?case
  proof (cases "n = 0")
    case False
    have "unat (sc_slice s1 ! slot + 1) + n \<le> 32"
      using step.IH [of] False q step.prems by simp
    moreover have "unat (sc_slice s1 ! slot + 1) = unat (sc_slice s ! slot + 1) + 1"
    proof -
      have "unat (sc_slice s ! slot + 1) + unat (1 :: u32) < 2 ^ 32" using lt by simp
      then show ?thesis using q(1,2) unat_add_lem [of "sc_slice s ! slot + 1" 1] by simp
    qed
    ultimately show ?thesis by simp
  qed (use lt in simp)
qed simp

lemma first_slice: "\<not> (4 :: u32) \<le> 1"
  by (simp add: word_le_nat_alt)

text \<open>A single process running on core 0, for the instances below.\<close>

definition demo_tick :: "u64 \<Rightarrow> sleep_entry list \<Rightarrow> sched" where
  "demo_tick now q = \<lparr>pt_table = [Some ((spawn_record 5 0 0x400000 ''a'')\<lparr>p_state := Running\<rparr>)], pt_owner = [0],
    pt_frames = [frame_new], pt_next_pid = 6, sc_queue = mlfq_new, sc_current = [Some 0], sc_idle = [False],
    sc_level = [0], sc_slice = [0], sc_tick = now, sc_last_boost = 0, sc_streak = [0], sc_sleep = q\<rparr>"

section \<open>Properties\<close>

text \<open>
  C32: However ticks interleave with wake-ups and boosts, a process that stays on its core is preempted
  after a bounded time: no run of 32 ticks of a core passes without one that asks for a switch while
  the same process runs there, and the bound shrinks with the slice already used.
\<close>
theorem preemption_bound:
  assumes "quiet_ticks cpu n s s'" and "sc_current s ! cpu = Some slot" and "state_slot slot s = Some Running" and "0 < n"
  shows "unat (sc_slice s ! slot + 1) + n \<le> 32"
  using quiet_ticks_count [OF assms(1-3,4)] .

theorem preemption_bound_witness:
  "\<exists>s'. quiet_ticks 0 1 (demo_tick 4 []) s' \<and> unat (sc_slice (demo_tick 4 []) ! 0 + 1) + 1 \<le> 32"
proof -
  obtain s' where s': "on_tick_consume 0 (demo_tick 4 []) = Val (s', False)"
    by (simp add: on_tick_consume_def tick_advance_def tick_sleepers_def tick_take_def demo_tick_def tick_boost_def current_slot_opt_def Let_def pt_get_def spawn_record_def
        state_slot_def tick_slice_def proc_level_def array_get_def set_slice_def set_level_def slice_for_level_def SLICE_TICKS_def
        MLFQ_LEVELS_def BOOST_EVERY_TICKS_def saturating_sub_def first_slice)
  then have q: "quiet_ticks 0 1 (demo_tick 4 []) s'" unfolding One_nat_def by (rule quiet_ticks.step) (rule quiet_ticks.none)
  have "sc_current (demo_tick 4 []) ! 0 = Some 0" "state_slot 0 (demo_tick 4 []) = Some Running"
    by (simp_all add: demo_tick_def state_slot_def pt_get_def)
  from preemption_bound [OF q this] show ?thesis using q by auto
qed

end
