(* ===== verification/Timekeeping.thy ===== *)
theory Timekeeping
  imports Zero_Prelude
begin

text \<open>
  \<open>microkernel/src/time.rs\<close>: conversion of the architected counter to nanoseconds and of a
  monotonic deadline to scheduler ticks of ten milliseconds. The counter and its frequency are
  registers and enter as arguments.
\<close>

definition NS_PER_SEC :: u64 where "NS_PER_SEC = 1000000000"

definition saturating_mul :: "u64 \<Rightarrow> u64 \<Rightarrow> u64" where
  "saturating_mul a b = (if unat a * unat b < 2 ^ 64 then a * b else - 1)"

definition ticks_to_ns :: "u64 \<Rightarrow> u64 \<Rightarrow> u64" where
  "ticks_to_ns ticks freq =
    (if freq = 0 then 0
     else let sec = ticks div freq; rem = ticks mod freq
          in saturating_add (saturating_mul sec NS_PER_SEC) (saturating_mul rem NS_PER_SEC div freq))"

definition monotonic_ns :: "u64 \<Rightarrow> u64 \<Rightarrow> u64" where
  "monotonic_ns counter frequency = ticks_to_ns counter frequency"

definition monotonic_ms :: "u64 \<Rightarrow> u64 \<Rightarrow> u64" where
  "monotonic_ms counter frequency = monotonic_ns counter frequency div 1000000"

definition deadline_to_scheduler_ticks :: "u64 \<Rightarrow> u64 \<Rightarrow> u64" where
  "deadline_to_scheduler_ticks now deadline_ns =
    (if deadline_ns \<le> now then 0 else saturating_add (deadline_ns - now) 9999999 div 10000000)"

section \<open>Values as numbers\<close>

lemma unat_saturating_mul: "unat (saturating_mul a b) = min (unat a * unat b) (2 ^ 64 - 1)"
  by (auto simp: saturating_mul_def unat_mult_lem [THEN iffD1] unsigned_minus_1_eq_mask mask_eq_exp_minus_1)

lemma unat_saturating_add: "unat (saturating_add a b) = min (unat a + unat b) (2 ^ 64 - 1)"
  by (auto simp: saturating_add_def unat_add_lem [THEN iffD1] unsigned_minus_1_eq_mask mask_eq_exp_minus_1)

lemma deadline_ticks_bound: "unat (deadline_to_scheduler_ticks now d) < 2 ^ 41"
proof -
  have "unat (saturating_add (d - now) 9999999) \<le> 2 ^ 64 - 1" by (simp add: unat_saturating_add)
  then have "unat (saturating_add (d - now) 9999999) div 10000000 < 2 ^ 41" by simp
  then show ?thesis by (simp add: deadline_to_scheduler_ticks_def unat_div)
qed

text \<open>Rounding is upwards: the ticks cover the distance unless the distance itself is at the end of the range.\<close>

lemma deadline_ticks_cover:
  assumes "unat d < 2 ^ 64 - 10000000" "now < d"
  shows "unat d - unat now \<le> unat (deadline_to_scheduler_ticks now d) * 10000000"
    and "unat (deadline_to_scheduler_ticks now d) * 10000000 < unat d - unat now + 10000000"
proof -
  have le: "now \<le> d" using assms(2) by simp
  have "unat (d - now) = unat d - unat now" using le by (simp add: unat_sub)
  then have "unat (saturating_add (d - now) 9999999) = unat d - unat now + 9999999"
    using assms(1) by (simp add: unat_saturating_add)
  then have "unat (deadline_to_scheduler_ticks now d) = (unat d - unat now + 9999999) div 10000000"
    using assms(2) by (simp add: deadline_to_scheduler_ticks_def unat_div)
  then show "unat d - unat now \<le> unat (deadline_to_scheduler_ticks now d) * 10000000"
    and "unat (deadline_to_scheduler_ticks now d) * 10000000 < unat d - unat now + 10000000" by linarith+
qed

end
