(* ===== verification/Sleep_Queue.thy ===== *)
theory Sleep_Queue
  imports Scheduler_Ticks Timekeeping
begin

text \<open>
  The sleep queue of \<open>microkernel/src/scheduler.rs\<close> under the cores of the machine. Every core takes
  timer ticks and sleepers register on every core, so the atomic increment of \<open>TICK_NOW\<close>, the section
  of \<open>on_tick_consume\<close> under the lock of \<open>SLEEP_QUEUE\<close>, the reads at the head of \<open>sleep_current\<close> and its
  section under the same lock are separate steps that interleave; everything else a core does leaves
  the clock and the queue alone. The system calls \<open>Sleepticks\<close> and \<open>SleepUntil\<close> of
  \<open>microkernel/src/syscalls.rs\<close> choose the number of ticks.
\<close>

section \<open>The system calls that sleep\<close>

text \<open>A call answers, or it does not return to its caller and leaves the kernel in a new state.\<close>

datatype 's sys_step = SysRet "sys_error + u64" | SysSwitch 's

definition sys_sleepticks :: "nat \<Rightarrow> u64 \<Rightarrow> 'a sched_scheme \<Rightarrow> 'a sched_scheme sys_step outcome" where
  "sys_sleepticks cpu ticks s =
    (if ticks = 0 then Val (SysRet (Inr 0))
     else if ticks > 2 ^ 32 then Val (SysRet (Inl InvalidArgument))
     else obind (sleep_current cpu ticks s) (\<lambda>s. Val (SysSwitch s)))"

definition sys_sleep_until :: "nat \<Rightarrow> u64 \<Rightarrow> u64 \<Rightarrow> u64 \<Rightarrow> 'a sched_scheme \<Rightarrow> 'a sched_scheme sys_step outcome" where
  "sys_sleep_until cpu counter frequency deadline_ns s =
    (let ticks = deadline_to_scheduler_ticks (monotonic_ns counter frequency) deadline_ns in
     if ticks = 0 then Val (SysRet (Inr 0))
     else obind (sleep_current cpu ticks s) (\<lambda>s. Val (SysSwitch s)))"

text \<open>The numbers of ticks with which the two calls reach \<open>sleep_current\<close>.\<close>

definition asked :: "u64 \<Rightarrow> bool" where
  "asked ticks \<longleftrightarrow> ticks \<noteq> 0 \<and>
    (ticks \<le> 2 ^ 32 \<or> (\<exists>counter frequency deadline_ns. ticks = deadline_to_scheduler_ticks (monotonic_ns counter frequency) deadline_ns))"

lemma asked_calls:
  "sys_sleepticks cpu ticks s = Val (SysSwitch s') \<Longrightarrow> asked ticks \<and> sleep_current cpu ticks s = Val s'"
  "sys_sleep_until cpu ctr freq d s = Val (SysSwitch s') \<Longrightarrow>
    \<exists>ticks. ticks = deadline_to_scheduler_ticks (monotonic_ns ctr freq) d \<and> asked ticks \<and> sleep_current cpu ticks s = Val s'"
  by (auto simp: sys_sleepticks_def sys_sleep_until_def asked_def Let_def obind_eq_Val not_less split: if_splits)

lemma asked_bound:
  assumes "asked ticks"
  shows "0 < unat ticks" "unat ticks < 2 ^ 42"
proof -
  show "0 < unat ticks" using assms by (simp add: asked_def unat_gt_0)
  have "unat ticks \<le> 2 ^ 32" if "ticks \<le> 2 ^ 32" using that by (simp add: word_le_nat_alt)
  then show "unat ticks < 2 ^ 42"
    using assms deadline_ticks_bound by (fastforce simp: asked_def intro: less_trans)
qed

section \<open>What leaves the clock and the queue alone\<close>

definition same_sleep :: "'a sched_scheme \<Rightarrow> 'a sched_scheme \<Rightarrow> bool" where
  "same_sleep s s' \<longleftrightarrow> sc_sleep s' = sc_sleep s \<and> sc_tick s' = sc_tick s"

lemma same_sleep_trans: "same_sleep s t \<Longrightarrow> same_sleep t u \<Longrightarrow> same_sleep s u"
  by (simp add: same_sleep_def)

lemma same_sleep_clock: "same_clock s s' \<Longrightarrow> same_sleep s s'"
  by (simp add: same_sleep_def same_clock_def)

lemma same_sleep_stages:
  "block_begin cpu s = Val (s', i) \<Longrightarrow> same_sleep s s'"
  "detach_current cpu slot s = Val s' \<Longrightarrow> same_sleep s s'"
  "block_finish cpu slot s = Val (s', r) \<Longrightarrow> same_sleep s s'"
  "enqueue p s = Val s' \<Longrightarrow> same_sleep s s'"
  by (auto simp: block_begin_def begin_block_def block_finish_def finish_block_def detach_current_def enqueue_def enqueue_level_def
      queue_push_def set_level_def owner_load_def owner_store_def same_sleep_def pt_modify_def pt_set_def obind_eq_Val
      split: option.splits if_splits block_result.splits)

lemma same_sleep_block:
  assumes "block_current cpu s = Val s'"
  shows "same_sleep s s'"
proof -
  obtain s1 slot s2 s3 r where *: "block_begin cpu s = Val (s1, slot)" "detach_current cpu slot s1 = Val s2"
      "block_finish cpu slot s2 = Val (s3, r)" and fin: "(case r of None \<Rightarrow> Val s3 | Some p \<Rightarrow> enqueue p s3) = Val s'"
    using assms by (auto simp: block_current_def block_handoff_def obind_eq_Val)
  have "same_sleep s3 s'" using fin same_sleep_stages(4) by (auto simp: same_sleep_def split: option.splits)
  then show ?thesis
    using same_sleep_stages(1) [OF *(1)] same_sleep_stages(2) [OF *(2)] same_sleep_stages(3) [OF *(3)] by (simp add: same_sleep_def)
qed

lemma same_sleep_slice: "tick_slice cpu slot s = Val (s', b) \<Longrightarrow> same_sleep s s'"
  by (auto simp: same_sleep_def tick_slice_def obind_eq_Val array_get_def set_slice_def set_level_def Let_def split: if_splits)

text \<open>Run alone, a tick and a sleeping call are their sections followed by steps that keep clock and queue.\<close>

lemma tick_take_clock: "fst (tick_take now s) = s' \<Longrightarrow> sc_sleep s' = dropWhile (\<lambda>e. sl_wake_at e \<le> now) (sc_sleep s) \<and> sc_tick s' = sc_tick s"
  using same_clock_elapsed [of "s\<lparr>sc_sleep := dropWhile (\<lambda>e. sl_wake_at e \<le> now) (sc_sleep s)\<rparr>" now]
  by (auto simp: tick_take_def Let_def same_clock_def)

lemma tick_sections:
  assumes "on_tick_consume cpu s = Val (s', b)"
  shows "same_sleep (fst (tick_take (sc_tick s + 1) (fst (tick_advance s)))) s'"
proof -
  obtain t where t: "sc_sleep t = dropWhile (\<lambda>e. sl_wake_at e \<le> sc_tick s + 1) (sc_sleep s) \<and> sc_tick t = sc_tick s + 1"
    and or: "(\<exists>v. s' = t\<lparr>sc_streak := v\<rparr>) \<or> (\<exists>slot v. tick_slice cpu slot (t\<lparr>sc_streak := v\<rparr>) = Val (s', b))"
    by (rule tick_prefix [OF assms]) (auto simp: same_clock_def)
  have "same_sleep t s'" using or by (auto simp: same_sleep_def dest!: same_sleep_slice)
  then show ?thesis using t tick_take_clock [OF refl, of "sc_tick s + 1" "fst (tick_advance s)"]
    by (simp add: same_sleep_def tick_advance_def)
qed

lemma sleep_sections:
  assumes "sleep_current cpu ticks s = Val s'"
  obtains start p t where "sleep_prepare cpu s = Val (start, p)" "sleep_insert start ticks p s = Val t" "same_sleep t s'"
  using assms same_sleep_block by (fastforce simp: sleep_current_def sleep_register_def obind_eq_Val)

section \<open>The sections interleave\<close>

text \<open>What a core is about to do: nothing, the insertion it has prepared, or the removal its tick calls for.\<close>

datatype sleep_pc = SIdle | SPrepared u64 u64 pid | STicked u64

text \<open>
  The states the cores \<open>C\<close> reach from boot, with the number of ticks taken so far. The last rule stands for
  every other step of a core.
\<close>

inductive sleep_reach :: "nat set \<Rightarrow> nat \<Rightarrow> 'a sched_scheme \<Rightarrow> (nat \<Rightarrow> sleep_pc) \<Rightarrow> bool" for C where
  boot: "sc_sleep s = [] \<Longrightarrow> sc_tick s = 0 \<Longrightarrow> sleep_reach C 0 s (\<lambda>_. SIdle)"
| prepare: "sleep_reach C n s pc \<Longrightarrow> c \<in> C \<Longrightarrow> pc c = SIdle \<Longrightarrow> asked ticks \<Longrightarrow> sleep_prepare c s = Val (start, p) \<Longrightarrow>
    sleep_reach C n s (pc(c := SPrepared start ticks p))"
| insert: "sleep_reach C n s pc \<Longrightarrow> c \<in> C \<Longrightarrow> pc c = SPrepared start ticks p \<Longrightarrow> sleep_insert start ticks p s = Val s' \<Longrightarrow>
    sleep_reach C n s' (pc(c := SIdle))"
| advance: "sleep_reach C n s pc \<Longrightarrow> c \<in> C \<Longrightarrow> pc c = SIdle \<Longrightarrow> tick_advance s = (s', now) \<Longrightarrow>
    sleep_reach C (Suc n) s' (pc(c := STicked now))"
| take: "sleep_reach C n s pc \<Longrightarrow> c \<in> C \<Longrightarrow> pc c = STicked now \<Longrightarrow> tick_take now s = (s', due) \<Longrightarrow>
    sleep_reach C n s' (pc(c := SIdle))"
| other: "sleep_reach C n s pc \<Longrightarrow> same_sleep s s' \<Longrightarrow> sleep_reach C n s' pc"

section \<open>The sections on a sorted queue\<close>

lemma dropWhile_sorted:
  "sorted (map f xs) \<Longrightarrow> dropWhile (\<lambda>x. f x \<le> c) xs = filter (\<lambda>x. \<not> f x \<le> c) xs"
  by (induction xs) (auto simp: filter_id_conv intro!: filter_True [symmetric])

lemma mset_takeWhile_dropWhile: "mset (takeWhile P xs) + mset (dropWhile P xs) = mset xs"
  by (metis mset_append takeWhile_dropWhile_id)

lemma insert_sorted_pos:
  assumes "sorted (map f xs)"
  shows "sorted (map f (take (length (takeWhile (\<lambda>e. f e \<le> f x) xs)) xs @ x # drop (length (takeWhile (\<lambda>e. f e \<le> f x) xs)) xs))"
proof -
  have *: "take (length (takeWhile P xs)) xs = takeWhile P xs" "drop (length (takeWhile P xs)) xs = dropWhile P xs" for P
    by (simp_all add: takeWhile_eq_take [symmetric] dropWhile_eq_drop [symmetric])
  have "f y \<le> f x" if "y \<in> set (takeWhile (\<lambda>e. f e \<le> f x) xs)" for y using that by (auto dest: set_takeWhileD)
  moreover have "f x \<le> f y" if "y \<in> set (dropWhile (\<lambda>e. f e \<le> f x) xs)" for y
    using that dropWhile_sorted [OF assms, of "f x"] by auto
  moreover have "sorted (map f (takeWhile P xs @ dropWhile P xs))" for P using assms by simp
  ultimately show ?thesis unfolding * map_append list.map sorted_append by (fastforce simp: sorted_append)
qed

lemma sleep_insert_full: "sleep_insert start ticks p s = Panic \<longleftrightarrow> \<not> length (sc_sleep s) < SLEEP_QUEUE_CAP"
  by (simp add: sleep_insert_def Let_def)

lemma sleep_insert_Val:
  assumes "sleep_insert start ticks p s = Val s'"
  shows "mset (sc_sleep s') = add_mset \<lparr>sl_wake_at = start + ticks, sl_start = start, sl_pid = p\<rparr> (mset (sc_sleep s))"
    and "sorted (map sl_wake_at (sc_sleep s)) \<Longrightarrow> sorted (map sl_wake_at (sc_sleep s'))"
    and "sc_tick s' = sc_tick s" and "length (sc_sleep s) < SLEEP_QUEUE_CAP"
proof -
  let ?e = "\<lparr>sl_wake_at = start + ticks, sl_start = start, sl_pid = p\<rparr>"
  let ?k = "length (takeWhile (\<lambda>e. sl_wake_at e \<le> start + ticks) (sc_sleep s))"
  have s': "s' = s\<lparr>sc_sleep := take ?k (sc_sleep s) @ ?e # drop ?k (sc_sleep s)\<rparr>" and len: "length (sc_sleep s) < SLEEP_QUEUE_CAP"
    using assms by (auto simp: sleep_insert_def Let_def split: if_splits)
  show "mset (sc_sleep s') = add_mset ?e (mset (sc_sleep s))"
    by (simp add: s' takeWhile_eq_take [symmetric] dropWhile_eq_drop [symmetric] mset_takeWhile_dropWhile)
  show "sorted (map sl_wake_at (sc_sleep s'))" if "sorted (map sl_wake_at (sc_sleep s))"
    using insert_sorted_pos [OF that, of ?e] by (simp add: s')
  show "sc_tick s' = sc_tick s" "length (sc_sleep s) < SLEEP_QUEUE_CAP" using len by (simp_all add: s')
qed

lemma tick_take_sorted:
  assumes "tick_take now s = (s', due)" and "sorted (map sl_wake_at (sc_sleep s))"
  shows "mset (sc_sleep s) = mset due + mset (sc_sleep s')" and "sc_tick s' = sc_tick s"
    and "\<forall>e \<in> set due. sl_wake_at e \<le> now" and "sc_sleep s' = filter (\<lambda>e. now < sl_wake_at e) (sc_sleep s)"
proof -
  have due: "due = takeWhile (\<lambda>e. sl_wake_at e \<le> now) (sc_sleep s)" using assms(1) by (simp add: tick_take_def Let_def)
  have q: "sc_sleep s' = dropWhile (\<lambda>e. sl_wake_at e \<le> now) (sc_sleep s)" and "sc_tick s' = sc_tick s"
    using tick_take_clock [of now s s'] assms(1) by auto
  then show "sc_tick s' = sc_tick s" by simp
  show "mset (sc_sleep s) = mset due + mset (sc_sleep s')" by (simp add: due q mset_takeWhile_dropWhile)
  show "\<forall>e \<in> set due. sl_wake_at e \<le> now" by (auto simp: due dest: set_takeWhileD)
  show "sc_sleep s' = filter (\<lambda>e. now < sl_wake_at e) (sc_sleep s)"
    by (simp add: q dropWhile_sorted [OF assms(2)] not_le)
qed

section \<open>The invariant of the queue\<close>

text \<open>An entry wakes a number of ticks somebody asked for after a start that is not in the future.\<close>

definition entry_ok :: "u64 \<Rightarrow> sleep_entry \<Rightarrow> bool" where
  "entry_ok t e \<longleftrightarrow> sl_start e \<le> t \<and> (\<exists>ticks. asked ticks \<and> unat (sl_wake_at e) = unat (sl_start e) + unat ticks)"

definition pc_ok :: "u64 \<Rightarrow> sleep_pc \<Rightarrow> bool" where
  "pc_ok t pc = (case pc of SIdle \<Rightarrow> True | SPrepared start ticks _ \<Rightarrow> start \<le> t \<and> asked ticks | STicked now \<Rightarrow> now \<le> t)"

lemma pc_ok_simps [simp]:
  "pc_ok t SIdle" "pc_ok t (SPrepared start ticks p) \<longleftrightarrow> start \<le> t \<and> asked ticks" "pc_ok t (STicked now) \<longleftrightarrow> now \<le> t"
  by (simp_all add: pc_ok_def)

lemma pc_ok_later: "pc_ok t pc \<Longrightarrow> t \<le> t' \<Longrightarrow> pc_ok t' pc"
  by (auto simp: pc_ok_def split: sleep_pc.splits)

definition sleep_inv :: "nat \<Rightarrow> 'a sched_scheme \<Rightarrow> (nat \<Rightarrow> sleep_pc) \<Rightarrow> bool" where
  "sleep_inv n s pc \<longleftrightarrow> sorted (map sl_wake_at (sc_sleep s)) \<and> length (sc_sleep s) \<le> SLEEP_QUEUE_CAP \<and> unat (sc_tick s) = n \<and>
    (\<forall>e \<in> set (sc_sleep s). entry_ok (sc_tick s) e) \<and> (\<forall>c. pc_ok (sc_tick s) (pc c))"

lemma entry_ok_new:
  assumes "start \<le> t" and "asked ticks" and "unat t < 2 ^ 63"
  shows "entry_ok t \<lparr>sl_wake_at = start + ticks, sl_start = start, sl_pid = p\<rparr>"
proof -
  have "unat start + unat ticks < 2 ^ 64"
    using assms(1,3) asked_bound(2) [OF assms(2)] by (simp add: word_le_nat_alt)
  then have "unat (start + ticks) = unat start + unat ticks" by (simp add: unat_add_lem [THEN iffD1])
  then show ?thesis using assms(1,2) by (auto simp: entry_ok_def)
qed

lemma sleep_inv_reach:
  assumes "sleep_reach C n s pc" and "n < 2 ^ 63"
  shows "sleep_inv n s pc"
  using assms
proof (induction rule: sleep_reach.induct)
  case (boot s)
  then show ?case by (simp add: sleep_inv_def)
next
  case (prepare n s pc c ticks start p)
  moreover from prepare have "start = sc_tick s" by (auto simp: sleep_prepare_def Let_def obind_eq_Val split: option.splits)
  ultimately show ?case by (simp add: sleep_inv_def)
next
  case (insert n s pc c start ticks p s')
  then have inv: "sleep_inv n s pc" by simp
  note i = sleep_insert_Val [OF insert.hyps(4)]
  let ?e = "\<lparr>sl_wake_at = start + ticks, sl_start = start, sl_pid = p\<rparr>"
  have "pc_ok (sc_tick s) (pc c)" using inv by (simp add: sleep_inv_def)
  then have pc: "start \<le> sc_tick s" "asked ticks" using insert.hyps(3) by simp_all
  have new: "entry_ok (sc_tick s) ?e" by (rule entry_ok_new [OF pc]) (use inv insert.prems in \<open>simp add: sleep_inv_def\<close>)
  have "set (sc_sleep s') = Set.insert ?e (set (sc_sleep s))" using arg_cong [OF i(1), of set_mset] by simp
  moreover have "length (sc_sleep s') = Suc (length (sc_sleep s))" using arg_cong [OF i(1), of size] by simp
  ultimately show ?case using inv i(2-4) new by (simp add: sleep_inv_def)
next
  case (advance n s pc c s' now)
  then have inv: "sleep_inv n s pc" by simp
  have s': "s' = s\<lparr>sc_tick := sc_tick s + 1\<rparr>" "now = sc_tick s + 1" using advance.hyps(4) by (auto simp: tick_advance_def)
  have n: "unat (sc_tick s) = n" using inv by (simp add: sleep_inv_def)
  have "unat (sc_tick s + 1) = Suc n" using n advance.prems by (simp add: unat_add_lem [THEN iffD1])
  moreover from this have "sc_tick s \<le> sc_tick s + 1" using n by (simp add: word_le_nat_alt)
  ultimately show ?case using inv
    by (auto simp: sleep_inv_def s' entry_ok_def intro: pc_ok_later order.trans)
next
  case (take n s pc c now s' due)
  then have inv: "sleep_inv n s pc" by simp
  then have "sorted (map sl_wake_at (sc_sleep s))" by (simp add: sleep_inv_def)
  note t = tick_take_sorted [OF take.hyps(4) this]
  have "length (sc_sleep s) \<le> SLEEP_QUEUE_CAP" using inv by (simp add: sleep_inv_def)
  then have "length (sc_sleep s') \<le> SLEEP_QUEUE_CAP" unfolding t(4) by (rule order.trans [OF length_filter_le])
  then show ?case using inv t(2) by (simp add: sleep_inv_def t(4) sorted_filter)
next
  case (other n s pc s')
  then show ?case by (simp add: sleep_inv_def same_sleep_def)
qed

text \<open>On one core nothing comes between the sections, and no entry is ever overdue.\<close>

definition one_core_inv :: "nat \<Rightarrow> 'a sched_scheme \<Rightarrow> (nat \<Rightarrow> sleep_pc) \<Rightarrow> bool" where
  "one_core_inv c s pc \<longleftrightarrow> (case pc c of
      SIdle \<Rightarrow> \<forall>e \<in> set (sc_sleep s). sc_tick s < sl_wake_at e
    | SPrepared start _ _ \<Rightarrow> start = sc_tick s \<and> (\<forall>e \<in> set (sc_sleep s). sc_tick s < sl_wake_at e)
    | STicked now \<Rightarrow> now = sc_tick s \<and> (\<forall>e \<in> set (sc_sleep s). sc_tick s \<le> sl_wake_at e))"

lemma one_core_reach:
  assumes "sleep_reach {c} n s pc" and "n < 2 ^ 63"
  shows "one_core_inv c s pc"
  using assms
proof (induction rule: sleep_reach.induct)
  case (boot s)
  then show ?case by (simp add: one_core_inv_def)
next
  case (prepare n s pc d ticks start p)
  moreover from prepare have "start = sc_tick s" by (auto simp: sleep_prepare_def Let_def obind_eq_Val split: option.splits)
  ultimately show ?case by (simp add: one_core_inv_def)
next
  case (insert n s pc d start ticks p s')
  then have inv: "one_core_inv c s pc" and d: "d = c" by simp_all
  note i = sleep_insert_Val [OF insert.hyps(4)]
  let ?e = "\<lparr>sl_wake_at = start + ticks, sl_start = start, sl_pid = p\<rparr>"
  have si: "sleep_inv n s pc" by (rule sleep_inv_reach [OF insert.hyps(1) insert.prems])
  then have "pc_ok (sc_tick s) (pc d)" by (simp add: sleep_inv_def)
  then have pc: "start \<le> sc_tick s" "asked ticks" using insert.hyps(3) by simp_all
  have st: "start = sc_tick s" using inv insert.hyps(3) d by (simp add: one_core_inv_def)
  have "entry_ok (sc_tick s) ?e" by (rule entry_ok_new [OF pc]) (use si insert.prems in \<open>simp add: sleep_inv_def\<close>)
  then have "sc_tick s < sl_wake_at ?e" using st asked_bound(1) by (auto simp: entry_ok_def word_less_nat_alt)
  moreover have "set (sc_sleep s') = Set.insert ?e (set (sc_sleep s))" using arg_cong [OF i(1), of set_mset] by simp
  ultimately show ?case using inv i(3) insert.hyps(3) d by (auto simp: one_core_inv_def)
next
  case (advance n s pc d s' now)
  then have inv: "one_core_inv c s pc" and d: "d = c" by simp_all
  have s': "s' = s\<lparr>sc_tick := sc_tick s + 1\<rparr>" "now = sc_tick s + 1" using advance.hyps(4) by (auto simp: tick_advance_def)
  show ?case using inv advance.hyps(3) d by (auto simp: one_core_inv_def s' intro: inc_le)
next
  case (take n s pc d now s' due)
  then have inv: "one_core_inv c s pc" and d: "d = c" by simp_all
  have "sorted (map sl_wake_at (sc_sleep s))" using sleep_inv_reach [OF take.hyps(1) take.prems] by (simp add: sleep_inv_def)
  note t = tick_take_sorted [OF take.hyps(4) this]
  show ?case using inv take.hyps(3) d t(2,4) by (auto simp: one_core_inv_def)
next
  case (other n s pc s')
  then show ?case by (simp add: one_core_inv_def same_sleep_def split: sleep_pc.splits)
qed

section \<open>What the queue promises\<close>

text \<open>
  C33: However the ticks and the registrations of the cores interleave, over the first \<open>2 ^ 63\<close> ticks the
  sleep queue stays ordered and within its capacity; each entry names a tick that lies the number of
  ticks asked for after the tick the call read, without wrap-around; the section of a tick takes out
  exactly the entries that tick has reached, so a sleeper never leaves early and the elapsed time it is
  given is at least what it asked for; and an insertion that finds the queue below capacity adds just
  its entry, one that finds it full panics. An entry inserted after its tick has passed leaves with the
  section of a tick that follows. On a machine of one core no entry is overdue outside the tick. For a
  deadline the ticks cover the remaining nanoseconds, rounded up, at ten milliseconds per tick: the
  distance between the ticks of one core, while the clock counts those of all.
\<close>
theorem sleep_queue_on_time:
  assumes "sleep_reach C n s pc" and "n < 2 ^ 63"
  shows "sorted (map sl_wake_at (sc_sleep s)) \<and> length (sc_sleep s) \<le> SLEEP_QUEUE_CAP \<and> unat (sc_tick s) = n \<and>
    (\<forall>e \<in> set (sc_sleep s). sl_start e \<le> sc_tick s \<and> (\<exists>ticks. asked ticks \<and> unat (sl_wake_at e) = unat (sl_start e) + unat ticks)) \<and>
    (\<forall>c now s' due. pc c = STicked now \<longrightarrow> tick_take now s = (s', due) \<longrightarrow> now \<le> sc_tick s \<and>
      mset (sc_sleep s) = mset due + mset (sc_sleep s') \<and> (\<forall>e \<in> set (sc_sleep s'). now < sl_wake_at e) \<and>
      (\<forall>e \<in> set due. sl_wake_at e \<le> now \<and> unat (sl_wake_at e) - unat (sl_start e) \<le> unat (now - sl_start e))) \<and>
    (\<forall>c start ticks p. pc c = SPrepared start ticks p \<longrightarrow> start \<le> sc_tick s \<and> (case sleep_insert start ticks p s of
        Panic \<Rightarrow> length (sc_sleep s) = SLEEP_QUEUE_CAP
      | Val s' \<Rightarrow> mset (sc_sleep s') = add_mset \<lparr>sl_wake_at = start + ticks, sl_start = start, sl_pid = p\<rparr> (mset (sc_sleep s)))) \<and>
    (\<forall>c. C = {c} \<longrightarrow> pc c = SIdle \<longrightarrow> (\<forall>e \<in> set (sc_sleep s). sc_tick s < sl_wake_at e)) \<and>
    (\<forall>now d. unat d < 2 ^ 64 - 10000000 \<longrightarrow> now < d \<longrightarrow>
      unat d - unat now \<le> unat (deadline_to_scheduler_ticks now d) * 10000000 \<and>
      unat (deadline_to_scheduler_ticks now d) * 10000000 < unat d - unat now + 10000000)"
proof (intro conjI)
  have inv: "sleep_inv n s pc" by (rule sleep_inv_reach [OF assms])
  then show srt: "sorted (map sl_wake_at (sc_sleep s))" and len: "length (sc_sleep s) \<le> SLEEP_QUEUE_CAP" and "unat (sc_tick s) = n"
    and ok: "\<forall>e \<in> set (sc_sleep s). sl_start e \<le> sc_tick s \<and> (\<exists>ticks. asked ticks \<and> unat (sl_wake_at e) = unat (sl_start e) + unat ticks)"
    by (simp_all add: sleep_inv_def entry_ok_def)
  have pc: "pc_ok (sc_tick s) (pc c)" for c using inv by (simp add: sleep_inv_def)
  show "\<forall>c now s' due. pc c = STicked now \<longrightarrow> tick_take now s = (s', due) \<longrightarrow> now \<le> sc_tick s \<and>
      mset (sc_sleep s) = mset due + mset (sc_sleep s') \<and> (\<forall>e \<in> set (sc_sleep s'). now < sl_wake_at e) \<and>
      (\<forall>e \<in> set due. sl_wake_at e \<le> now \<and> unat (sl_wake_at e) - unat (sl_start e) \<le> unat (now - sl_start e))"
  proof (intro allI impI)
    fix c now s' due assume c: "pc c = STicked now" and tk: "tick_take now s = (s', due)"
    note t = tick_take_sorted [OF tk srt]
    have el: "unat (sl_wake_at e) - unat (sl_start e) \<le> unat (now - sl_start e)" if "e \<in> set due" for e
    proof -
      have "e \<in> set (sc_sleep s)" using that t(1) by (metis Un_iff set_mset_mset set_mset_union)
      then have "unat (sl_start e) \<le> unat (sl_wake_at e)" using ok by fastforce
      moreover have w: "unat (sl_wake_at e) \<le> unat now" using t(3) that by (simp add: word_le_nat_alt)
      ultimately show ?thesis by (simp add: unat_sub word_le_nat_alt)
    qed
    show "now \<le> sc_tick s \<and> mset (sc_sleep s) = mset due + mset (sc_sleep s') \<and> (\<forall>e \<in> set (sc_sleep s'). now < sl_wake_at e) \<and>
      (\<forall>e \<in> set due. sl_wake_at e \<le> now \<and> unat (sl_wake_at e) - unat (sl_start e) \<le> unat (now - sl_start e))"
      using pc [of c] c t(1,3) el by (simp add: t(4))
  qed
  show "\<forall>c start ticks p. pc c = SPrepared start ticks p \<longrightarrow> start \<le> sc_tick s \<and> (case sleep_insert start ticks p s of
        Panic \<Rightarrow> length (sc_sleep s) = SLEEP_QUEUE_CAP
      | Val s' \<Rightarrow> mset (sc_sleep s') = add_mset \<lparr>sl_wake_at = start + ticks, sl_start = start, sl_pid = p\<rparr> (mset (sc_sleep s)))"
  proof (intro allI impI conjI)
    fix c start ticks p assume c: "pc c = SPrepared start ticks p"
    show "start \<le> sc_tick s" using pc [of c] c by simp
    show "case sleep_insert start ticks p s of Panic \<Rightarrow> length (sc_sleep s) = SLEEP_QUEUE_CAP
      | Val s' \<Rightarrow> mset (sc_sleep s') = add_mset \<lparr>sl_wake_at = start + ticks, sl_start = start, sl_pid = p\<rparr> (mset (sc_sleep s))"
      using len sleep_insert_full [of start ticks p s] sleep_insert_Val(1) [of start ticks p s] by (simp split: outcome.split)
  qed
  show "\<forall>c. C = {c} \<longrightarrow> pc c = SIdle \<longrightarrow> (\<forall>e \<in> set (sc_sleep s). sc_tick s < sl_wake_at e)"
    using one_core_reach assms by (fastforce simp: one_core_inv_def)
  show "\<forall>now d. unat d < 2 ^ 64 - 10000000 \<longrightarrow> now < d \<longrightarrow>
      unat d - unat now \<le> unat (deadline_to_scheduler_ticks now d) * 10000000 \<and>
      unat (deadline_to_scheduler_ticks now d) * 10000000 < unat d - unat now + 10000000"
    using deadline_ticks_cover by blast
qed

lemma late_sleeper:
  defines "pcs \<equiv> ((\<lambda>_. SIdle)(0 := SPrepared 0 1 5))(0 := SIdle, 1 := STicked 2)"
  defines "q \<equiv> [\<lparr>sl_wake_at = 1, sl_start = 0, sl_pid = 5\<rparr>]"
  shows "sleep_reach {0, 1} 2 (demo_tick 2 q) pcs"
proof -
  have "sleep_reach {0, 1} 0 (demo_tick 0 []) (\<lambda>_. SIdle)" by (rule sleep_reach.boot) (simp_all add: demo_tick_def)
  then have "sleep_reach {0, 1} 0 (demo_tick 0 []) ((\<lambda>_. SIdle)(0 := SPrepared 0 1 5))"
    by (rule sleep_reach.prepare) (simp_all add: asked_def sleep_prepare_def current_slot_def array_get_def pid_at_slot_def
      pt_get_def demo_tick_def spawn_record_def)
  then have "sleep_reach {0, 1} 1 (demo_tick 1 []) (((\<lambda>_. SIdle)(0 := SPrepared 0 1 5))(1 := STicked 1))"
    unfolding One_nat_def by (rule sleep_reach.advance) (simp_all add: tick_advance_def demo_tick_def)
  then have "sleep_reach {0, 1} 1 (demo_tick 1 []) (((\<lambda>_. SIdle)(0 := SPrepared 0 1 5))(1 := STicked 1, 1 := SIdle))"
    by (rule sleep_reach.take) (simp_all add: tick_take_def demo_tick_def)
  then have "sleep_reach {0, 1} (Suc 1) (demo_tick 2 []) (((\<lambda>_. SIdle)(0 := SPrepared 0 1 5))(1 := STicked 1, 1 := SIdle, 1 := STicked 2))"
    by (rule sleep_reach.advance) (simp_all add: tick_advance_def demo_tick_def)
  then have "sleep_reach {0, 1} (Suc 1) (demo_tick 2 q) (((\<lambda>_. SIdle)(0 := SPrepared 0 1 5))(1 := STicked 1, 1 := SIdle, 1 := STicked 2, 0 := SIdle))"
    by (rule sleep_reach.insert [where start = 0 and ticks = 1 and p = 5]) (simp_all add: sleep_insert_def demo_tick_def q_def SLEEP_QUEUE_CAP_def)
  moreover have "((\<lambda>_. SIdle)(0 := SPrepared 0 1 5))(1 := STicked 1, 1 := SIdle, 1 := STicked 2, 0 := SIdle) = pcs"
    by (auto simp: pcs_def)
  ultimately show ?thesis by (simp add: numeral_2_eq_2)
qed

theorem sleep_queue_on_time_witness:
  "\<exists>pc s' due. sleep_reach {0, 1} 2 (demo_tick 2 [\<lparr>sl_wake_at = 1, sl_start = 0, sl_pid = 5\<rparr>]) pc \<and> pc 1 = STicked 2 \<and>
    tick_take 2 (demo_tick 2 [\<lparr>sl_wake_at = 1, sl_start = 0, sl_pid = 5\<rparr>]) = (s', due) \<and>
    (\<forall>e \<in> set due. sl_wake_at e \<le> 2) \<and> (\<forall>e \<in> set (sc_sleep s'). 2 < sl_wake_at e) \<and> due = [\<lparr>sl_wake_at = 1, sl_start = 0, sl_pid = 5\<rparr>]"
proof -
  let ?s = "demo_tick 2 [\<lparr>sl_wake_at = 1, sl_start = 0, sl_pid = 5\<rparr>]"
  let ?pc = "((\<lambda>_. SIdle)(0 := SPrepared 0 1 5))(0 := SIdle, 1 := STicked 2)"
  obtain s' due where t: "tick_take 2 ?s = (s', due)" by fastforce
  have "due = [\<lparr>sl_wake_at = 1, sl_start = 0, sl_pid = 5\<rparr>]" using t by (auto simp: tick_take_def demo_tick_def)
  moreover have "?pc 1 = STicked 2" by simp
  moreover have "(\<forall>e \<in> set due. sl_wake_at e \<le> 2) \<and> (\<forall>e \<in> set (sc_sleep s'). 2 < sl_wake_at e)"
  proof -
    have "(2 :: nat) < 2 ^ 63" by simp
    from sleep_queue_on_time [OF late_sleeper this] t show ?thesis by simp
  qed
  ultimately show ?thesis using late_sleeper t by blast
qed

end
