(* ===== verification/Zfs_Alloc.thy ===== *)
theory Zfs_Alloc
  imports Zero_Prelude
begin

text \<open>
  The block allocator of \<open>libs/zfs-core/src/allocator.rs\<close>, a bitmap over the blocks from \<open>base\<close> on with
  a counter of free blocks, and the contract that the volume relies on: a pool of block numbers of
  which some are in use.
\<close>

section \<open>The contract\<close>

text \<open>The loops of the client: allocate \<open>n\<close> blocks in order, and give a list of blocks back.\<close>

fun alloc_loop :: "('s \<Rightarrow> 's \<times> ('e + u64)) \<Rightarrow> nat \<Rightarrow> u64 list \<Rightarrow> 's \<Rightarrow> 's \<times> u64 list \<times> bool" where
  "alloc_loop alloc 0 blocks s = (s, blocks, True)"
| "alloc_loop alloc (Suc n) blocks s =
    (case alloc s of (s, Inr b) \<Rightarrow> alloc_loop alloc n (blocks @ [b]) s | (s, Inl _) \<Rightarrow> (s, blocks, False))"

definition free_loop :: "(u64 \<Rightarrow> 's \<Rightarrow> 's \<times> ('e + unit)) \<Rightarrow> u64 list \<Rightarrow> 's \<Rightarrow> 's" where
  "free_loop free blocks s = fold (\<lambda>b s. fst (free b s)) blocks s"

locale block_pool =
  fixes inv :: "'s \<Rightarrow> bool" and used range :: "'s \<Rightarrow> u64 set"
    and alloc :: "'s \<Rightarrow> 's \<times> ('e + u64)" and free :: "u64 \<Rightarrow> 's \<Rightarrow> 's \<times> ('e + unit)"
  assumes alloc_law: "inv s \<Longrightarrow> alloc s = (s', Inr b) \<Longrightarrow>
      inv s' \<and> b \<in> range s \<and> b \<notin> used s \<and> used s' = insert b (used s) \<and> range s' = range s"
    and alloc_fail_law: "inv s \<Longrightarrow> alloc s = (s', Inl e) \<Longrightarrow> s' = s \<and> range s \<subseteq> used s"
    and free_law: "inv s \<Longrightarrow> b \<in> used s \<Longrightarrow>
      \<exists>s'. free b s = (s', Inr ()) \<and> inv s' \<and> used s' = used s - {b} \<and> range s' = range s"
    and free_miss_law: "inv s \<Longrightarrow> b \<notin> used s \<Longrightarrow> fst (free b s) = s"
begin

lemma free_any:
  assumes "inv s"
  shows "inv (fst (free b s)) \<and> used (fst (free b s)) = used s - {b} \<and> range (fst (free b s)) = range s"
proof (cases "b \<in> used s")
  case True
  then show ?thesis using free_law [OF assms True] by auto
qed (use assms free_miss_law in auto)

lemma free_loop_effect:
  assumes "inv s"
  shows "inv (free_loop free bs s) \<and> used (free_loop free bs s) = used s - set bs \<and> range (free_loop free bs s) = range s"
  using assms
proof (induction bs arbitrary: s)
  case (Cons b bs)
  have "inv (fst (free b s))" "used (fst (free b s)) = used s - {b}" "range (fst (free b s)) = range s"
    using free_any [OF Cons.prems] by auto
  then show ?case using Cons.IH [of "fst (free b s)"] by (auto simp: free_loop_def)
qed (simp add: free_loop_def)

text \<open>The blocks the loop collects are new and distinct, also when it stops early.\<close>

lemma alloc_loop_effect:
  assumes "inv s" and "distinct bs" "set bs \<subseteq> used s" and "alloc_loop alloc n bs s = (s', bs', ok)"
  shows "inv s' \<and> range s' = range s \<and>
    (\<exists>new. bs' = bs @ new \<and> distinct bs' \<and> set new \<inter> used s = {} \<and> set new \<subseteq> range s \<and> used s' = used s \<union> set new \<and>
      (ok \<longrightarrow> length new = n) \<and> (\<not> ok \<longrightarrow> range s \<subseteq> used s'))"
  using assms
proof (induction n arbitrary: s bs)
  case (Suc n)
  obtain s1 r where r: "alloc s = (s1, r)" by fastforce
  show ?case
  proof (cases r)
    case (Inl e)
    then show ?thesis using Suc.prems r alloc_fail_law [OF Suc.prems(1)] by auto
  next
    case (Inr b)
    then have a: "inv s1" "b \<in> range s" "b \<notin> used s" "used s1 = insert b (used s)" "range s1 = range s"
      using alloc_law [OF Suc.prems(1)] r by auto
    have d: "distinct (bs @ [b])" "set (bs @ [b]) \<subseteq> used s1" using Suc.prems(2,3) a by auto
    have "alloc_loop alloc n (bs @ [b]) s1 = (s', bs', ok)" using Suc.prems(4) r Inr by simp
    from Suc.IH [OF a(1) d this] obtain new where new: "inv s'" "range s' = range s1" "bs' = (bs @ [b]) @ new" "distinct bs'"
      "set new \<inter> used s1 = {}" "set new \<subseteq> range s1" "used s' = used s1 \<union> set new" "ok \<longrightarrow> length new = n"
      "\<not> ok \<longrightarrow> range s1 \<subseteq> used s'" by blast
    then show ?thesis using a by (intro conjI exI [of _ "b # new"]) auto
  qed
qed auto

end

section \<open>Data\<close>

datatype alloc_error = NoSpace | AllocOutOfBounds | DoubleAlloc | AllocNotAllocated

record block_alloc =
  ba_base :: u64
  ba_total :: u64
  ba_free :: u64
  ba_bitmap :: "u64 list"

section \<open>Operations\<close>

definition ba_new :: "u64 \<Rightarrow> u64 \<Rightarrow> block_alloc" where
  "ba_new base tot = \<lparr>ba_base = base, ba_total = tot, ba_free = tot, ba_bitmap = replicate (unat ((tot + 63) div 64)) 0\<rparr>"

definition in_range :: "u64 \<Rightarrow> block_alloc \<Rightarrow> bool" where
  "in_range block a \<longleftrightarrow> block \<ge> ba_base a \<and> block < saturating_add (ba_base a) (ba_total a)"

definition trailing_zeros :: "u64 \<Rightarrow> nat" where
  "trailing_zeros w = (case position (bit w) [0..<64] of Some i \<Rightarrow> i | None \<Rightarrow> 64)"

definition ba_offset :: "u64 \<Rightarrow> block_alloc \<Rightarrow> nat" where
  "ba_offset block a = unat (block - ba_base a)"

definition allocate :: "block_alloc \<Rightarrow> block_alloc \<times> (alloc_error + u64)" where
  "allocate a =
    (if ba_free a = 0 then (a, Inl NoSpace)
     else case position (\<lambda>w. w \<noteq> - 1) (ba_bitmap a) of
       None \<Rightarrow> (a, Inl NoSpace)
     | Some index \<Rightarrow>
        let word = ba_bitmap a ! index; free_bit = trailing_zeros (NOT word)
        in case checked_add (ba_base a) (of_nat (index * 64 + free_bit)) of
             None \<Rightarrow> (a, Inl AllocOutOfBounds)
           | Some block \<Rightarrow>
              if block \<ge> saturating_add (ba_base a) (ba_total a) then (a, Inl AllocOutOfBounds)
              else (a\<lparr>ba_bitmap := (ba_bitmap a)[index := word OR push_bit free_bit 1], ba_free := ba_free a - 1\<rparr>, Inr block))"

fun allocate_many :: "nat \<Rightarrow> block_alloc \<Rightarrow> block_alloc \<times> u64 list" where
  "allocate_many n a = (case alloc_loop allocate n [] a of (a, blocks, _) \<Rightarrow> (a, blocks))"

definition ba_free_block :: "u64 \<Rightarrow> block_alloc \<Rightarrow> block_alloc \<times> (alloc_error + unit)" where
  "ba_free_block block a =
    (if \<not> in_range block a then (a, Inl AllocOutOfBounds)
     else let offset = ba_offset block a; word = offset div 64; mask = push_bit (offset mod 64) 1
          in if ba_bitmap a ! word AND mask = 0 then (a, Inl AllocNotAllocated)
             else (a\<lparr>ba_bitmap := (ba_bitmap a)[word := ba_bitmap a ! word AND NOT mask], ba_free := ba_free a + 1\<rparr>, Inr ()))"

definition try_free :: "u64 \<Rightarrow> block_alloc \<Rightarrow> block_alloc \<times> (alloc_error + unit)" where
  "try_free block a =
    (if \<not> in_range block a then (a, Inl AllocOutOfBounds)
     else let offset = ba_offset block a; word = offset div 64; mask = push_bit (offset mod 64) 1
          in if ba_bitmap a ! word AND mask \<noteq> 0
             then (a\<lparr>ba_bitmap := (ba_bitmap a)[word := ba_bitmap a ! word AND NOT mask], ba_free := ba_free a + 1\<rparr>, Inr ())
             else (a, Inr ()))"

definition mark_used :: "u64 \<Rightarrow> block_alloc \<Rightarrow> block_alloc \<times> (alloc_error + unit)" where
  "mark_used block a =
    (if \<not> in_range block a then (a, Inl AllocOutOfBounds)
     else let offset = ba_offset block a; word = offset div 64; mask = push_bit (offset mod 64) 1
          in if ba_bitmap a ! word AND mask \<noteq> 0 then (a, Inl DoubleAlloc)
             else let a = a\<lparr>ba_bitmap := (ba_bitmap a)[word := ba_bitmap a ! word OR mask]\<rparr>
                  in (if ba_free a > 0 then a\<lparr>ba_free := ba_free a - 1\<rparr> else a, Inr ()))"

definition mark_used_idempotent :: "u64 \<Rightarrow> block_alloc \<Rightarrow> block_alloc \<times> (alloc_error + unit)" where
  "mark_used_idempotent block a =
    (if \<not> in_range block a then (a, Inl AllocOutOfBounds)
     else let offset = ba_offset block a; mask = push_bit (offset mod 64) 1
          in if ba_bitmap a ! (offset div 64) AND mask = 0 then mark_used block a else (a, Inr ()))"

definition with_reserved :: "u64 \<Rightarrow> u64 \<Rightarrow> u64 list \<Rightarrow> block_alloc" where
  "with_reserved base tot reserved = fold (\<lambda>b a. fst (mark_used b a)) reserved (ba_new base tot)"

definition is_allocated :: "u64 \<Rightarrow> block_alloc \<Rightarrow> bool" where
  "is_allocated block a \<longleftrightarrow> in_range block a \<and>
    ba_bitmap a ! (ba_offset block a div 64) AND push_bit (ba_offset block a mod 64) 1 \<noteq> 0"

record allocator_snapshot =
  as_base :: u64
  as_total :: u64
  as_bitmap :: "u64 list"
  as_free :: u64

definition ba_snapshot :: "block_alloc \<Rightarrow> allocator_snapshot" where
  "ba_snapshot a = \<lparr>as_base = ba_base a, as_total = ba_total a, as_bitmap = ba_bitmap a, as_free = ba_free a\<rparr>"

definition ba_restore :: "allocator_snapshot \<Rightarrow> block_alloc \<Rightarrow> block_alloc" where
  "ba_restore s a = a\<lparr>ba_base := as_base s, ba_total := as_total s, ba_free := as_free s, ba_bitmap := as_bitmap s\<rparr>"

section \<open>Invariant and view\<close>

text \<open>
  The bitmap covers the blocks, the bits past the last block are clear, and the counter counts the
  clear bits. Block numbers do not wrap.
\<close>

definition ba_inv :: "block_alloc \<Rightarrow> bool" where
  "ba_inv a \<longleftrightarrow> length (ba_bitmap a) = (unat (ba_total a) + 63) div 64 \<and> unat (ba_base a) + unat (ba_total a) < 2 ^ 63 \<and>
    unat (ba_free a) = clear_count (bm_bit (ba_bitmap a)) (unat (ba_total a)) \<and>
    (\<forall>p. unat (ba_total a) \<le> p \<longrightarrow> p < 64 * length (ba_bitmap a) \<longrightarrow> \<not> bm_bit (ba_bitmap a) p)"

definition ba_range :: "block_alloc \<Rightarrow> u64 set" where
  "ba_range a = {b. in_range b a}"

definition ba_used :: "block_alloc \<Rightarrow> u64 set" where
  "ba_used a = {b. is_allocated b a}"

lemma in_range_unat:
  assumes "ba_inv a"
  shows "in_range b a \<longleftrightarrow> unat (ba_base a) \<le> unat b \<and> unat b < unat (ba_base a) + unat (ba_total a)"
  using assms by (auto simp: in_range_def ba_inv_def saturating_add_def word_le_nat_alt word_less_nat_alt unat_add_lem [THEN iffD1])

lemma in_range_offset:
  assumes "ba_inv a" "in_range b a"
  shows "ba_offset b a < unat (ba_total a)" "ba_offset b a div 64 < length (ba_bitmap a)" "b = ba_base a + of_nat (ba_offset b a)"
proof -
  have r: "unat (ba_base a) \<le> unat b" "unat b < unat (ba_base a) + unat (ba_total a)" using in_range_unat assms by auto
  then have o: "ba_offset b a = unat b - unat (ba_base a)" by (simp add: ba_offset_def unat_sub word_le_nat_alt)
  then show "ba_offset b a < unat (ba_total a)" using r by simp
  then show "ba_offset b a div 64 < length (ba_bitmap a)" using assms(1) by (simp add: ba_inv_def)
  show "b = ba_base a + of_nat (ba_offset b a)" by (simp add: ba_offset_def)
qed

lemma offset_of_base:
  assumes "ba_inv a" "p < unat (ba_total a)"
  shows "in_range (ba_base a + of_nat p) a" "ba_offset (ba_base a + of_nat p) a = p"
proof -
  have lt: "unat (ba_base a) + p < 2 ^ 64" using assms by (auto simp: ba_inv_def)
  then have p: "unat (of_nat p :: u64) = p" by (simp add: unat_of_nat)
  then have "unat (ba_base a + of_nat p) = unat (ba_base a) + p" using lt by (simp add: unat_add_lem [THEN iffD1])
  then show "in_range (ba_base a + of_nat p) a" using in_range_unat [OF assms(1)] assms(2) by simp
  show "ba_offset (ba_base a + of_nat p) a = p" using p by (simp add: ba_offset_def)
qed

lemma ba_used_bit:
  assumes "ba_inv a"
  shows "b \<in> ba_used a \<longleftrightarrow> in_range b a \<and> bm_bit (ba_bitmap a) (ba_offset b a)"
  by (simp add: ba_used_def is_allocated_def bm_bit_def)

text \<open>Setting or clearing the bit of one block.\<close>

lemma ba_set_block:
  assumes "ba_inv a" "in_range b a" "b \<notin> ba_used a"
    and a': "a' = a\<lparr>ba_bitmap := (ba_bitmap a)[ba_offset b a div 64 := ba_bitmap a ! (ba_offset b a div 64) OR push_bit (ba_offset b a mod 64) 1],
      ba_free := ba_free a - 1\<rparr>"
  shows "ba_inv a'" "ba_used a' = insert b (ba_used a)" "ba_range a' = ba_range a" "ba_free a \<noteq> 0"
proof -
  let ?o = "ba_offset b a" and ?n = "unat (ba_total a)"
  note o = in_range_offset [OF assms(1,2)]
  have clear: "\<not> bm_bit (ba_bitmap a) ?o" using assms(2,3) ba_used_bit [OF assms(1)] by blast
  have bits: "bm_bit (ba_bitmap a') q \<longleftrightarrow> q = ?o \<or> bm_bit (ba_bitmap a) q" for q
    unfolding a' using bm_bit_set [OF o(2)] by simp
  have cnt: "clear_count (bm_bit (ba_bitmap a)) ?n = Suc (clear_count (bm_bit (ba_bitmap a')) ?n)"
    by (rule clear_count_set [where p = ?o]) (use o(1) clear bits in auto)
  then have f: "unat (ba_free a) = Suc (clear_count (bm_bit (ba_bitmap a')) ?n)" using assms(1) by (simp add: ba_inv_def)
  then show "ba_free a \<noteq> 0" by auto
  then have "unat (ba_free a - 1) = unat (ba_free a) - 1" by (simp add: unat_minus_one)
  then show inv': "ba_inv a'" using assms(1) f bits o(1) by (auto simp: ba_inv_def a')
  have same: "in_range x a' = in_range x a" "ba_offset x a' = ba_offset x a" for x by (simp_all add: a' in_range_def ba_offset_def)
  then show "ba_range a' = ba_range a" by (simp add: ba_range_def)
  show "ba_used a' = insert b (ba_used a)"
  proof (rule set_eqI)
    fix x
    have "ba_offset x a = ?o \<longleftrightarrow> x = b" if "in_range x a" using o(3) in_range_offset(3) [OF assms(1) that] by metis
    then show "x \<in> ba_used a' \<longleftrightarrow> x \<in> insert b (ba_used a)"
      using assms(2) ba_used_bit [OF inv'] ba_used_bit [OF assms(1)] same bits by auto
  qed
qed

lemma ba_clear_block:
  assumes "ba_inv a" "b \<in> ba_used a"
    and a': "a' = a\<lparr>ba_bitmap := (ba_bitmap a)[ba_offset b a div 64 := ba_bitmap a ! (ba_offset b a div 64) AND NOT (push_bit (ba_offset b a mod 64) 1)],
      ba_free := ba_free a + 1\<rparr>"
  shows "ba_inv a'" "ba_used a' = ba_used a - {b}" "ba_range a' = ba_range a"
proof -
  let ?o = "ba_offset b a" and ?n = "unat (ba_total a)"
  have r: "in_range b a" and set: "bm_bit (ba_bitmap a) ?o" using assms(2) ba_used_bit [OF assms(1)] by auto
  note o = in_range_offset [OF assms(1) r]
  have bits: "bm_bit (ba_bitmap a') q \<longleftrightarrow> q \<noteq> ?o \<and> bm_bit (ba_bitmap a) q" for q
    unfolding a' using bm_bit_clear [OF o(2)] by simp
  have "clear_count (bm_bit (ba_bitmap a')) ?n = Suc (clear_count (bm_bit (ba_bitmap a)) ?n)"
    by (rule clear_count_clear [where p = ?o]) (use o(1) set bits in auto)
  then have f: "clear_count (bm_bit (ba_bitmap a')) ?n = unat (ba_free a) + 1" using assms(1) by (simp add: ba_inv_def)
  moreover have "clear_count (bm_bit (ba_bitmap a')) ?n < 2 ^ 64"
    using clear_count_le [of "bm_bit (ba_bitmap a')" ?n] unsigned_less [where 'a = nat, of "ba_total a"] by simp
  ultimately have "unat (ba_free a + 1) = clear_count (bm_bit (ba_bitmap a')) ?n" by (simp add: unat_add_lem [THEN iffD1])
  then show inv': "ba_inv a'" using assms(1) bits by (auto simp: ba_inv_def a')
  have same: "in_range x a' = in_range x a" "ba_offset x a' = ba_offset x a" for x by (simp_all add: a' in_range_def ba_offset_def)
  then show "ba_range a' = ba_range a" by (simp add: ba_range_def)
  show "ba_used a' = ba_used a - {b}"
  proof (rule set_eqI)
    fix x
    have "ba_offset x a = ?o \<longleftrightarrow> x = b" if "in_range x a" using o(3) in_range_offset(3) [OF assms(1) that] by metis
    then show "x \<in> ba_used a' \<longleftrightarrow> x \<in> ba_used a - {b}"
      using r ba_used_bit [OF inv'] ba_used_bit [OF assms(1)] same bits by auto
  qed
qed

section \<open>Correctness of the operations\<close>

lemma trailing_zeros_not:
  assumes "w \<noteq> - 1"
  shows "trailing_zeros (NOT w) < 64" "\<not> bit w (trailing_zeros (NOT w))" "\<And>j. j < trailing_zeros (NOT w) \<Longrightarrow> bit w j"
proof -
  have bn: "bit (NOT w) i \<longleftrightarrow> \<not> bit w i" if "i < 64" for i using that by (simp add: bit_not_iff)
  obtain i where pos: "position (bit (NOT w)) [0..<64] = Some i"
  proof (cases "position (bit (NOT w)) [0..<64]")
    case None
    then have "bit w i" if "i < 64" for i using that bn by (auto simp: position_None_iff)
    then have "w = - 1" by (intro bit_word_eqI) simp
    then show ?thesis using assms by simp
  qed
  then have "trailing_zeros (NOT w) = i" by (simp add: trailing_zeros_def)
  moreover have "i < 64" "bit (NOT w) i" "\<forall>j<i. \<not> bit (NOT w) j" using pos by (auto simp: position_Some_iff)
  ultimately show "trailing_zeros (NOT w) < 64" "\<not> bit w (trailing_zeros (NOT w))" "\<And>j. j < trailing_zeros (NOT w) \<Longrightarrow> bit w j"
    using bn by auto
qed

lemma allocate_block:
  assumes "ba_inv a" "ba_free a \<noteq> 0"
  shows "\<exists>b. in_range b a \<and> b \<notin> ba_used a \<and>
    allocate a = (a\<lparr>ba_bitmap := (ba_bitmap a)[ba_offset b a div 64 := ba_bitmap a ! (ba_offset b a div 64) OR push_bit (ba_offset b a mod 64) 1],
      ba_free := ba_free a - 1\<rparr>, Inr b)"
proof -
  have "clear_count (bm_bit (ba_bitmap a)) (unat (ba_total a)) \<noteq> 0"
    using assms unat_eq_zero [of "ba_free a"] by (simp add: ba_inv_def)
  then obtain q where q: "q < unat (ba_total a)" "\<not> bm_bit (ba_bitmap a) q" by (auto simp: clear_count_0_iff)
  have ql: "q div 64 < length (ba_bitmap a)" using q(1) assms(1) by (simp add: ba_inv_def)
  have "ba_bitmap a ! (q div 64) \<noteq> - 1" using q(2) by (auto simp: bm_bit_def)
  then have "position (\<lambda>w. w \<noteq> - 1) (ba_bitmap a) \<noteq> None" using ql by (auto simp: position_None_iff)
  then obtain i where i: "position (\<lambda>w. w \<noteq> - 1) (ba_bitmap a) = Some i" by blast
  define w where "w = ba_bitmap a ! i"
  define t where "t = trailing_zeros (NOT w)"
  have iw: "i < length (ba_bitmap a)" "w \<noteq> - 1" "\<And>j. j < i \<Longrightarrow> ba_bitmap a ! j = - 1"
    using i by (auto simp: position_Some_iff w_def)
  note t = trailing_zeros_not [OF iw(2), folded t_def]
  define p where "p = i * 64 + t"
  have pd: "p div 64 = i" "p mod 64 = t" using t(1) by (simp_all add: p_def)
  have "i \<le> q div 64" using iw(3) [of "q div 64"] q(2) by (force simp: bm_bit_def not_le)
  moreover have "t \<le> q mod 64" if "i = q div 64" using t(3) [of "q mod 64"] q(2) that by (force simp: bm_bit_def w_def not_le)
  ultimately have "p \<le> q"
  proof (cases "i = q div 64")
    case False
    then have "i + 1 \<le> q div 64" using \<open>i \<le> q div 64\<close> by simp
    then have "(i + 1) * 64 \<le> q" by (metis div_times_less_eq_dividend le_trans mult_le_mono1)
    then show ?thesis using t(1) by (simp add: p_def)
  next
    case True
    then show ?thesis using \<open>i = q div 64 \<Longrightarrow> t \<le> q mod 64\<close> div_mult_mod_eq [of q 64] unfolding p_def by linarith
  qed
  then have p: "p < unat (ba_total a)" using q(1) by simp
  let ?b = "ba_base a + of_nat p"
  note b = offset_of_base [OF assms(1) p]
  have "unat (ba_base a) + unat (of_nat p :: u64) < 2 ^ 64"
    using assms(1) p by (auto simp: ba_inv_def unat_of_nat)
  then have c: "checked_add (ba_base a) (of_nat p) = Some ?b" by (simp add: checked_add_def)
  have lt: "\<not> saturating_add (ba_base a) (ba_total a) \<le> ?b" using b(1) by (simp add: in_range_def not_le)
  have "allocate a = (a\<lparr>ba_bitmap := (ba_bitmap a)[i := w OR push_bit t 1], ba_free := ba_free a - 1\<rparr>, Inr ?b)"
    unfolding allocate_def using assms(2) by (simp only: i if_False option.case Let_def w_def [symmetric] t_def [symmetric] p_def [symmetric] c lt)
  moreover have "?b \<notin> ba_used a" using ba_used_bit [OF assms(1)] b t(2) by (simp add: bm_bit_def pd w_def)
  ultimately show ?thesis using b by (intro exI [of _ ?b]) (simp add: pd w_def)
qed

lemma allocate_full: "ba_inv a \<Longrightarrow> ba_free a = 0 \<Longrightarrow> ba_range a \<subseteq> ba_used a \<and> allocate a = (a, Inl NoSpace)"
  using in_range_offset(1) [of a] by (auto simp: allocate_def ba_range_def ba_used_bit ba_inv_def clear_count_0_iff)

interpretation pool: block_pool ba_inv ba_used ba_range allocate ba_free_block
proof
  fix a a' :: block_alloc and b e
  show "ba_inv a' \<and> b \<in> ba_range a \<and> b \<notin> ba_used a \<and> ba_used a' = insert b (ba_used a) \<and> ba_range a' = ba_range a"
    if inv: "ba_inv a" and r: "allocate a = (a', Inr b)"
  proof -
    have "ba_free a \<noteq> 0" using r by (auto simp: allocate_def)
    then obtain b' where "in_range b' a" "b' \<notin> ba_used a" "allocate a = (a\<lparr>ba_bitmap := (ba_bitmap a)[ba_offset b' a div 64 :=
        ba_bitmap a ! (ba_offset b' a div 64) OR push_bit (ba_offset b' a mod 64) 1], ba_free := ba_free a - 1\<rparr>, Inr b')"
      using allocate_block [OF inv] by blast
    then show ?thesis using r ba_set_block [OF inv, of b' a'] by (simp add: ba_range_def)
  qed
  show "a' = a \<and> ba_range a \<subseteq> ba_used a" if "ba_inv a" "allocate a = (a', Inl e)"
    using that allocate_block [OF that(1)] allocate_full [OF that(1)] by (cases "ba_free a = 0") auto
  show "\<exists>a'. ba_free_block b a = (a', Inr ()) \<and> ba_inv a' \<and> ba_used a' = ba_used a - {b} \<and> ba_range a' = ba_range a"
    if "ba_inv a" "b \<in> ba_used a"
    using ba_clear_block [OF that] that(2) by (auto simp: ba_free_block_def ba_used_def is_allocated_def Let_def)
  show "fst (ba_free_block b a) = a" if "ba_inv a" "b \<notin> ba_used a"
    using that(2) by (auto simp: ba_free_block_def ba_used_def is_allocated_def Let_def)
qed

lemma mark_used_effect:
  assumes "ba_inv a" "in_range b a"
  shows "ba_inv (fst (mark_used b a)) \<and> ba_used (fst (mark_used b a)) = insert b (ba_used a) \<and>
    ba_range (fst (mark_used b a)) = ba_range a \<and> snd (mark_used b a) = (if b \<in> ba_used a then Inl DoubleAlloc else Inr ())"
proof (cases "b \<in> ba_used a")
  case True
  then show ?thesis using assms by (auto simp: mark_used_def ba_used_def is_allocated_def Let_def)
next
  case False
  note s = ba_set_block [OF assms False refl]
  have "mark_used b a = (a\<lparr>ba_bitmap := (ba_bitmap a)[ba_offset b a div 64 := ba_bitmap a ! (ba_offset b a div 64) OR push_bit (ba_offset b a mod 64) 1],
      ba_free := ba_free a - 1\<rparr>, Inr ())"
    using assms(2) False s(4) by (auto simp: mark_used_def ba_used_def is_allocated_def Let_def word_gt_0)
  then show ?thesis using s False by simp
qed

lemma mark_idempotent_effect:
  assumes "ba_inv a" "in_range b a"
  shows "ba_inv (fst (mark_used_idempotent b a)) \<and> ba_used (fst (mark_used_idempotent b a)) = insert b (ba_used a) \<and>
    ba_range (fst (mark_used_idempotent b a)) = ba_range a \<and> snd (mark_used_idempotent b a) = Inr ()"
proof (cases "b \<in> ba_used a")
  case True
  then have "mark_used_idempotent b a = (a, Inr ())" using assms(2) by (simp add: mark_used_idempotent_def Let_def ba_used_def is_allocated_def)
  then show ?thesis using assms(1) True by auto
next
  case False
  then have "mark_used_idempotent b a = mark_used b a" using assms(2) by (simp add: mark_used_idempotent_def Let_def ba_used_def is_allocated_def)
  then show ?thesis using mark_used_effect [OF assms] False by simp
qed

lemma ba_new_inv:
  assumes "unat base + unat tot < 2 ^ 63"
  shows "ba_inv (ba_new base tot)" "ba_used (ba_new base tot) = {}"
proof -
  have w: "unat ((tot + 63) div 64) = (unat tot + 63) div 64" using assms by (simp add: unat_div unat_add_lem [THEN iffD1])
  let ?m = "replicate ((unat tot + 63) div 64) (0 :: u64)"
  have z: "\<not> bm_bit ?m p" if "p < 64 * ((unat tot + 63) div 64)" for p
    using bm_bit_zero [of p "(unat tot + 63) div 64"] that by (simp add: less_mult_imp_div_less mult.commute)
  have "clear_count (bm_bit ?m) (unat tot) = clear_count (\<lambda>p. p < 0) (unat tot)"
    by (rule clear_count_cong) (use z in auto)
  then have "clear_count (bm_bit ?m) (unat tot) = unat tot" using clear_count_prefix [of 0 "unat tot"] by simp
  then show inv: "ba_inv (ba_new base tot)" using assms z by (auto simp: ba_inv_def ba_new_def w)
  have "\<not> bm_bit ?m p" if "p < unat tot" for p using z [of p] that by linarith
  then show "ba_used (ba_new base tot) = {}"
    using in_range_offset(1) [OF inv] by (auto simp: ba_used_bit [OF inv]) (auto simp: ba_new_def w)
qed

section \<open>Properties\<close>

text \<open>
  C15: The block allocator is a pool: from a well-formed state, allocation returns a block of the volume that
  is not in use and makes exactly it used, failing only when every block is in use; a strict free
  succeeds exactly on blocks in use; strict marking answers whether the block was free; each of them
  keeps the invariant that ties the bitmap to the free counter, and the counter of free blocks after
  an allocation is one less.
\<close>
theorem allocator_pool:
  assumes "ba_inv a"
  shows "(case allocate a of
      (a', Inr b) \<Rightarrow> ba_inv a' \<and> in_range b a \<and> \<not> is_allocated b a \<and> ba_used a' = insert b (ba_used a) \<and> ba_free a' = ba_free a - 1
    | (a', Inl e) \<Rightarrow> a' = a \<and> e = NoSpace \<and> ba_free a = 0 \<and> (\<forall>b. in_range b a \<longrightarrow> is_allocated b a)) \<and>
    (snd (ba_free_block b a) = Inr () \<longleftrightarrow> is_allocated b a) \<and>
    ba_inv (fst (ba_free_block b a)) \<and> ba_used (fst (ba_free_block b a)) = ba_used a - {b} \<and>
    (in_range b a \<longrightarrow> ba_inv (fst (mark_used b a)) \<and> ba_used (fst (mark_used b a)) = insert b (ba_used a) \<and>
      snd (mark_used b a) = (if is_allocated b a then Inl DoubleAlloc else Inr ()))"
proof (intro conjI impI)
  show "case allocate a of
      (a', Inr b) \<Rightarrow> ba_inv a' \<and> in_range b a \<and> \<not> is_allocated b a \<and> ba_used a' = insert b (ba_used a) \<and> ba_free a' = ba_free a - 1
    | (a', Inl e) \<Rightarrow> a' = a \<and> e = NoSpace \<and> ba_free a = 0 \<and> (\<forall>b. in_range b a \<longrightarrow> is_allocated b a)"
  proof (cases "ba_free a = 0")
    case True
    then show ?thesis using allocate_full [OF assms True] by (auto simp: ba_range_def ba_used_def)
  next
    case False
    then obtain b' where b: "in_range b' a" "b' \<notin> ba_used a" and r: "allocate a = (a\<lparr>ba_bitmap := (ba_bitmap a)[ba_offset b' a div 64 :=
        ba_bitmap a ! (ba_offset b' a div 64) OR push_bit (ba_offset b' a mod 64) 1], ba_free := ba_free a - 1\<rparr>, Inr b')"
      using allocate_block [OF assms] by blast
    show ?thesis using ba_set_block [OF assms b refl] b r by (simp add: ba_used_def)
  qed
  show "snd (ba_free_block b a) = Inr () \<longleftrightarrow> is_allocated b a"
    by (auto simp: ba_free_block_def is_allocated_def Let_def)
  show "ba_inv (fst (ba_free_block b a))" "ba_used (fst (ba_free_block b a)) = ba_used a - {b}" using pool.free_any [OF assms] by auto
  assume "in_range b a"
  from mark_used_effect [OF assms this]
  show "ba_inv (fst (mark_used b a))" "ba_used (fst (mark_used b a)) = insert b (ba_used a)"
    "snd (mark_used b a) = (if is_allocated b a then Inl DoubleAlloc else Inr ())" by (auto simp: ba_used_def)
qed

theorem allocator_pool_witness:
  "ba_inv (ba_new 1 100) \<and> snd (allocate (ba_new 1 100)) = Inr 1 \<and> ba_inv (fst (ba_free_block 1 (ba_new 1 100)))"
proof -
  have inv: "ba_inv (ba_new 1 100)" by (rule ba_new_inv) simp
  have tz: "trailing_zeros (- 1) = 0" by (simp add: trailing_zeros_def upt_conv_Cons)
  have "unat (((100 :: u64) + 63) div 64) = 2" unfolding unat_div by simp
  then have "ba_new 1 100 = \<lparr>ba_base = 1, ba_total = 100, ba_free = 100, ba_bitmap = [0, 0]\<rparr>"
    unfolding ba_new_def by (simp only: numeral_2_eq_2 replicate.simps)
  then have "snd (allocate (ba_new 1 100)) = Inr 1"
    by (simp add: allocate_def tz checked_add_def saturating_add_def word_le_nat_alt)
  then show ?thesis using allocator_pool [OF inv, of 1] inv by blast
qed

end
