(* ===== verification/Zfs_Base.thy ===== *)
theory Zfs_Base
  imports Byte_Codec "HOL-Library.List_Lexorder"
begin

text \<open>
  The ground of the file system \<open>libs/zfs-core\<close>: its errors, the block-device trait with its contract
  and the in-memory device, CRC-32, paths, the directory index and its on-disk inode. A \<open>String\<close> is the
  list of its UTF-8 bytes; a \<open>BTreeMap\<close> with string keys is an association list in the order of
  its keys. The trait is a record of operations, which stands for the type parameter \<open>D\<close> of the code.
\<close>

section \<open>Results\<close>

definition rbind :: "'e + 'a \<Rightarrow> ('a \<Rightarrow> 'e + 'b) \<Rightarrow> 'e + 'b" where
  "rbind r f = (case r of Inl e \<Rightarrow> Inl e | Inr a \<Rightarrow> f a)"

lemma rbind_simps [simp]: "rbind (Inl e) f = Inl e" "rbind (Inr a) f = f a"
  by (simp_all add: rbind_def)

lemma rbind_eq_Inr: "rbind r f = Inr b \<longleftrightarrow> (\<exists>a. r = Inr a \<and> f a = Inr b)"
  by (cases r) simp_all

datatype device_error = DevOutOfBounds | DevIo | DevUnsupported

datatype zfs_error =
    InvalidSuperblock | ZDevice device_error | AllocationFailed | ZNotFound | SignatureMismatch | JournalFull
  | SnapshotNotFound | DirectoryConflict | ZUnsupported | ZInvalidArgument | ZOutOfBounds | ZNotAllocated | ZDoubleFree
  | JournalCorrupt | CheckpointTooLarge | PathInvalid | CorruptEntry

section \<open>Block devices\<close>

text \<open>
  \<open>bd_read D lba n d\<close> fills a buffer of \<open>n\<close> bytes. A write answers the new state of the device also when it
  fails, because the device is behind a shared reference.
\<close>

record 'd bdev =
  bd_block_size :: nat
  bd_block_count :: "'d \<Rightarrow> u64 option"
  bd_read :: "u64 \<Rightarrow> nat \<Rightarrow> 'd \<Rightarrow> device_error + bytes"
  bd_write :: "u64 \<Rightarrow> bytes \<Rightarrow> 'd \<Rightarrow> 'd \<times> (device_error + unit)"

text \<open>
  What the file system relies on, for block numbers whose byte address fits: a read fills the buffer, a
  write leaves readable blocks other than its own alone, a successful write is read back, and after a
  failed one the block can still be read and its first sector is as it was or as it was to be. The other
  sectors may be torn in any way: the device writes sectors whole, not blocks.
\<close>

definition SECTOR_SIZE :: nat where "SECTOR_SIZE = 512"

definition lba_ok :: "u64 \<Rightarrow> bool" where
  "lba_ok l \<longleftrightarrow> unat l < 2 ^ 52"

locale block_device =
  fixes D :: "'d bdev"
  assumes read_length: "bd_read D l n d = Inr b \<Longrightarrow> length b = n"
    and write_other: "lba_ok l \<Longrightarrow> lba_ok m \<Longrightarrow> l \<noteq> m \<Longrightarrow> bd_read D m n d = Inr b \<Longrightarrow>
      bd_read D m n (fst (bd_write D l buf d)) = Inr b"
    and write_same: "lba_ok l \<Longrightarrow> bd_write D l buf d = (d', Inr ()) \<Longrightarrow> bd_read D l (length buf) d' = Inr buf"
    and write_torn: "lba_ok l \<Longrightarrow> bd_write D l buf d = (d', Inl e) \<Longrightarrow> bd_read D l (length buf) d = Inr b \<Longrightarrow>
      \<exists>x. bd_read D l (length buf) d' = Inr x \<and> (take SECTOR_SIZE x = take SECTOR_SIZE b \<or> take SECTOR_SIZE x = take SECTOR_SIZE buf)"

subsection \<open>The device in memory\<close>

definition MEM_BLOCK_SIZE :: nat where "MEM_BLOCK_SIZE = 4096"

definition mem_offset :: "u64 \<Rightarrow> nat" where
  "mem_offset lba = unat (lba * of_nat MEM_BLOCK_SIZE)"

definition ensure_capacity :: "u64 \<Rightarrow> nat \<Rightarrow> bytes \<Rightarrow> bytes" where
  "ensure_capacity lba len storage =
    (let required = mem_offset lba + len
     in if length storage < required then storage @ replicate (required - length storage) 0 else storage)"

definition mem_block_count :: "bytes \<Rightarrow> u64 option" where
  "mem_block_count storage = Some (of_nat (length storage div MEM_BLOCK_SIZE))"

definition mem_read_block :: "u64 \<Rightarrow> nat \<Rightarrow> bytes \<Rightarrow> device_error + bytes" where
  "mem_read_block lba n storage =
    (if n \<noteq> MEM_BLOCK_SIZE then Inl DevUnsupported
     else if mem_offset lba + MEM_BLOCK_SIZE > length storage then Inl DevOutOfBounds
     else Inr (take MEM_BLOCK_SIZE (drop (mem_offset lba) storage)))"

definition mem_write_block :: "u64 \<Rightarrow> bytes \<Rightarrow> bytes \<Rightarrow> bytes \<times> (device_error + unit)" where
  "mem_write_block lba buf storage =
    (if length buf \<noteq> MEM_BLOCK_SIZE then (storage, Inl DevUnsupported)
     else let storage = ensure_capacity lba MEM_BLOCK_SIZE storage; offset = mem_offset lba
          in if offset + MEM_BLOCK_SIZE > length storage then (storage, Inl DevOutOfBounds)
             else (take offset storage @ buf @ drop (offset + MEM_BLOCK_SIZE) storage, Inr ()))"

definition memory_device :: "bytes bdev" where
  "memory_device = \<lparr>bd_block_size = MEM_BLOCK_SIZE, bd_block_count = mem_block_count,
    bd_read = mem_read_block, bd_write = mem_write_block\<rparr>"

lemma mem_offset_ok: "lba_ok l \<Longrightarrow> mem_offset l = unat l * 4096"
  unfolding mem_offset_def lba_ok_def MEM_BLOCK_SIZE_def
  by (subst unat_mult_lem [THEN iffD1]) auto

lemma mem_capacity:
  "length (ensure_capacity l n st) \<ge> mem_offset l + n"
  "i + 4096 \<le> length st \<Longrightarrow> take 4096 (drop i (ensure_capacity l n st)) = take 4096 (drop i st)"
  by (auto simp: ensure_capacity_def Let_def)

lemma mem_read_other:
  fixes st buf :: bytes and m l :: nat
  assumes "m \<noteq> l" and "m * 4096 + 4096 \<le> length st" and "l * 4096 + 4096 \<le> length st" and "length buf = 4096"
  shows "take 4096 (drop (m * 4096) (take (l * 4096) st @ buf @ drop (l * 4096 + 4096) st)) = take 4096 (drop (m * 4096) st)"
proof (cases "m < l")
  case True
  then have "m * 4096 + 4096 \<le> l * 4096" "4096 \<le> l * 4096 - m * 4096" by linarith+
  then show ?thesis using assms by (simp add: drop_take min_def)
next
  case False
  then have "l * 4096 + 4096 \<le> m * 4096" using assms(1) by linarith
  then show ?thesis using assms by (simp add: add.commute)
qed

interpretation mem: block_device memory_device
proof
  show "bd_read memory_device l n d = Inr b \<Longrightarrow> length b = n" for l n d b
    by (auto simp: memory_device_def mem_read_block_def split: if_splits)
  show "bd_read memory_device m n (fst (bd_write memory_device l buf d)) = Inr b"
    if "lba_ok l" "lba_ok m" "l \<noteq> m" "bd_read memory_device m n d = Inr b" for l m n d buf b
  proof -
    have ne: "unat m \<noteq> unat l" using that(3) word_unat_eq_iff [of m l] by auto
    show ?thesis
      using that mem_capacity(1) [of l 4096 d] mem_capacity(2) [of "unat m * 4096" d l 4096] ne
        mem_read_other [OF ne, of "ensure_capacity l 4096 d" buf]
      by (auto simp: memory_device_def mem_read_block_def mem_write_block_def MEM_BLOCK_SIZE_def Let_def mem_offset_ok
          ensure_capacity_def split: if_splits)
  qed
  show "bd_read memory_device l (length buf) d' = Inr buf"
    if "lba_ok l" "bd_write memory_device l buf d = (d', Inr ())" for l buf d d'
    using that by (auto simp: memory_device_def mem_read_block_def mem_write_block_def Let_def split: if_splits)
  show "\<exists>x. bd_read memory_device l (length buf) d' = Inr x \<and> (take SECTOR_SIZE x = take SECTOR_SIZE b \<or> take SECTOR_SIZE x = take SECTOR_SIZE buf)"
    if "lba_ok l" "bd_write memory_device l buf d = (d', Inl e)" "bd_read memory_device l (length buf) d = Inr b" for l buf d d' e b
    using that mem_capacity(1) [of l MEM_BLOCK_SIZE d]
    by (auto simp: memory_device_def mem_read_block_def mem_write_block_def Let_def split: if_splits)
qed

subsection \<open>A device that stops\<close>

text \<open>
  The same device with power for a given number of writes: the writes after those fail and change nothing.
\<close>

definition stopping :: "'d bdev \<Rightarrow> ('d \<times> nat) bdev" where
  "stopping D = \<lparr>bd_block_size = bd_block_size D, bd_block_count = (\<lambda>(d, _). bd_block_count D d),
    bd_read = (\<lambda>l n (d, _). bd_read D l n d),
    bd_write = (\<lambda>l buf (d, k). case k of 0 \<Rightarrow> ((d, 0), Inl DevIo)
      | Suc k \<Rightarrow> (case bd_write D l buf d of (d, r) \<Rightarrow> ((d, k), r)))\<rparr>"

lemma block_device_stopping:
  assumes "block_device D"
  shows "block_device (stopping D)"
proof
  note B = assms [unfolded block_device_def]
  show "length b = n" if "bd_read (stopping D) l n d = Inr b" for l n d b
    using that B by (cases d) (simp add: stopping_def)
  show "bd_read (stopping D) m n (fst (bd_write (stopping D) l buf d)) = Inr b"
    if "lba_ok l" "lba_ok m" "l \<noteq> m" "bd_read (stopping D) m n d = Inr b" for l m n d buf b
    using that block_device.write_other [OF assms that(1-3), of n "fst d" b buf]
    by (cases d) (auto simp: stopping_def split: nat.split prod.split)
  show "bd_read (stopping D) l (length buf) d' = Inr buf"
    if "lba_ok l" "bd_write (stopping D) l buf d = (d', Inr ())" for l buf d d'
    using that block_device.write_same [OF assms that(1)]
    by (cases d) (auto simp: stopping_def split: nat.splits prod.splits)
  show "\<exists>x. bd_read (stopping D) l (length buf) d' = Inr x \<and> (take SECTOR_SIZE x = take SECTOR_SIZE b \<or> take SECTOR_SIZE x = take SECTOR_SIZE buf)"
    if "lba_ok l" "bd_write (stopping D) l buf d = (d', Inl e)" "bd_read (stopping D) l (length buf) d = Inr b" for l buf d d' e b
    using that block_device.write_torn [OF assms that(1), of buf "fst d" "fst d'" e b]
    by (cases d) (auto simp: stopping_def split: nat.splits prod.splits)
qed

interpretation mem_stop: block_device "stopping memory_device"
  by (rule block_device_stopping) (rule mem.block_device_axioms)

text \<open>
  The same device with power for \<open>k\<close> sectors: the write that exhausts it replaces the first \<open>k\<close> sectors of its block
  and fails, and so do the writes after it, which change nothing.
\<close>

definition tearing :: "'d bdev \<Rightarrow> ('d \<times> nat) bdev" where
  "tearing D = \<lparr>bd_block_size = bd_block_size D, bd_block_count = (\<lambda>(d, _). bd_block_count D d),
    bd_read = (\<lambda>l n (d, _). bd_read D l n d),
    bd_write = (\<lambda>l buf (d, k).
      if length buf \<le> k * SECTOR_SIZE
      then (case bd_write D l buf d of (d, r) \<Rightarrow> ((d, k - (length buf + SECTOR_SIZE - 1) div SECTOR_SIZE), r))
      else case bd_read D l (length buf) d of
        Inl e \<Rightarrow> ((d, 0), Inl DevIo)
      | Inr b \<Rightarrow> ((fst (bd_write D l (take (k * SECTOR_SIZE) buf @ drop (k * SECTOR_SIZE) b) d), 0), Inl DevIo))\<rparr>"

lemma torn_block:
  assumes "block_device D" "lba_ok l" "bd_read D l (length buf) d = Inr b"
    and "mix = take (k * SECTOR_SIZE) buf @ drop (k * SECTOR_SIZE) b" "k * SECTOR_SIZE < length buf"
  shows "\<exists>x. bd_read D l (length buf) (fst (bd_write D l mix d)) = Inr x \<and>
    (take SECTOR_SIZE x = take SECTOR_SIZE b \<or> take SECTOR_SIZE x = take SECTOR_SIZE buf)"
proof -
  have lb: "length b = length buf" by (rule block_device.read_length [OF assms(1,3)])
  then have lm: "length mix = length buf" using assms(4,5) by simp
  have m: "take SECTOR_SIZE mix = take SECTOR_SIZE b \<or> take SECTOR_SIZE mix = take SECTOR_SIZE buf"
    using assms(4,5) by (cases k) (auto simp: min_def)
  obtain d' r where w: "bd_write D l mix d = (d', r)" by fastforce
  show ?thesis
  proof (cases r)
    case (Inl e)
    then show ?thesis using block_device.write_torn [OF assms(1,2) w [unfolded Inl], unfolded lm, OF assms(3)] m w by auto
  next
    case (Inr u)
    then have "bd_read D l (length mix) d' = Inr mix" using block_device.write_same [OF assms(1,2)] w by simp
    then show ?thesis using m w lm by simp
  qed
qed

lemma block_device_tearing:
  assumes "block_device D"
  shows "block_device (tearing D)"
proof
  show "length b = n" if "bd_read (tearing D) l n d = Inr b" for l n d b
    using that block_device.read_length [OF assms] by (cases d) (simp add: tearing_def)
  show "bd_read (tearing D) m n (fst (bd_write (tearing D) l buf d)) = Inr b"
    if "lba_ok l" "lba_ok m" "l \<noteq> m" "bd_read (tearing D) m n d = Inr b" for l m n d buf b
  proof -
    obtain e k where d: "d = (e, k)" by fastforce
    have "bd_read D m n (fst (bd_write D l x e)) = Inr b" for x
      using block_device.write_other [OF assms that(1-3), of n e b x] that(4) by (simp add: tearing_def d)
    then show ?thesis using that(4) by (auto simp: tearing_def d split: prod.split sum.split) (metis fst_conv)+
  qed
  show "bd_read (tearing D) l (length buf) d' = Inr buf"
    if "lba_ok l" "bd_write (tearing D) l buf d = (d', Inr ())" for l buf d d'
    using that block_device.write_same [OF assms that(1)]
    by (cases d) (auto simp: tearing_def split: prod.splits sum.splits if_splits)
  show "\<exists>x. bd_read (tearing D) l (length buf) d' = Inr x \<and> (take SECTOR_SIZE x = take SECTOR_SIZE b \<or> take SECTOR_SIZE x = take SECTOR_SIZE buf)"
    if "lba_ok l" "bd_write (tearing D) l buf d = (d', Inl e)" "bd_read (tearing D) l (length buf) d = Inr b" for l buf d d' e b
  proof -
    obtain d0 k where d: "d = (d0, k)" by fastforce
    have r: "bd_read D l (length buf) d0 = Inr b" using that(3) by (simp add: tearing_def d)
    show ?thesis
    proof (cases "length buf \<le> k * SECTOR_SIZE")
      case True
      then show ?thesis using that(2) block_device.write_torn [OF assms that(1) _ r]
        by (auto simp: tearing_def d split: prod.splits)
    next
      case False
      then show ?thesis using that(2) r torn_block [OF assms that(1) r refl, of k]
        by (auto simp: tearing_def d not_le)
    qed
  qed
qed

interpretation mem_tear: block_device "tearing memory_device"
  by (rule block_device_tearing) (rule mem.block_device_axioms)

section \<open>CRC-32\<close>

definition crc_bit :: "u32 \<Rightarrow> u32" where
  "crc_bit crc = drop_bit 1 crc XOR (0xEDB88320 AND - (crc AND 1))"

definition crc_byte :: "u32 \<Rightarrow> u8 \<Rightarrow> u32" where
  "crc_byte crc b = (crc_bit ^^ 8) (crc XOR ucast b)"

definition crc32 :: "bytes \<Rightarrow> u32" where
  "crc32 data = foldl crc_byte 0xFFFFFFFF data XOR 0xFFFFFFFF"

lemma crc_bit_bit:
  assumes "n < 32"
  shows "bit (crc_bit c) n \<longleftrightarrow> (bit c (Suc n) \<noteq> (bit (0xEDB88320 :: u32) n \<and> bit c 0))"
proof -
  have "bit (- (c AND 1)) n = bit c 0" if "n < 32"
  proof (cases "bit c 0")
    case True
    then have "c AND 1 = 1" by (simp add: and_one_eq odd_iff_mod_2_eq_one bit_0)
    then show ?thesis using True that by simp
  next
    case False
    then have "c AND 1 = 0" by (simp add: and_one_eq bit_0 even_iff_mod_2_eq_zero)
    then show ?thesis using False by simp
  qed
  then show ?thesis using assms by (auto simp: crc_bit_def bit_xor_iff bit_and_iff bit_drop_bit_eq)
qed

lemma crc_bit_inj: "crc_bit a = crc_bit b \<Longrightarrow> a = b"
proof (rule bit_word_eqI)
  fix n assume eq: "crc_bit a = crc_bit b" and n: "n < LENGTH(32)"
  have top: "bit (0xEDB88320 :: u32) 31" by (simp add: bit_numeral_rec)
  have off: "\<not> bit (x :: u32) 32" for x by (auto dest: bit_imp_le_length)
  have low: "bit a 0 = bit b 0"
    using eq crc_bit_bit [of 31 a] crc_bit_bit [of 31 b] top off by simp
  show "bit a n = bit b n"
  proof (cases n)
    case (Suc m)
    then show ?thesis using eq n low crc_bit_bit [of m a] crc_bit_bit [of m b] by auto
  qed (use low in simp)
qed

lemma crc_bits_inj: "(crc_bit ^^ k) a = (crc_bit ^^ k) b \<Longrightarrow> a = b"
  by (induction k) (auto dest: crc_bit_inj)

lemma word_xor_cancel: "(a :: 'a :: len word) XOR c = b XOR c \<Longrightarrow> a = b" "(c :: 'a :: len word) XOR a = c XOR b \<Longrightarrow> a = b"
  by (auto simp: bit_eq_iff bit_xor_iff)

lemma crc_byte_inj: "crc_byte c x = crc_byte d x \<Longrightarrow> c = d" "crc_byte c x = crc_byte c y \<Longrightarrow> x = y"
proof -
  show "c = d" if "crc_byte c x = crc_byte d x"
    using crc_bits_inj [OF that [unfolded crc_byte_def]] by (rule word_xor_cancel)
  show "x = y" if "crc_byte c x = crc_byte c y"
  proof -
    have u: "(ucast x :: u32) = ucast y"
      using crc_bits_inj [OF that [unfolded crc_byte_def]] by (rule word_xor_cancel)
    show ?thesis
    proof (rule bit_word_eqI)
      fix n assume "n < LENGTH(8)"
      then show "bit x n = bit y n" using arg_cong [OF u, of "\<lambda>w. bit w n"] by (simp add: bit_ucast_iff)
    qed
  qed
qed

lemma crc_fold_inj: "foldl crc_byte c xs = foldl crc_byte d xs \<Longrightarrow> c = d"
  by (induction xs arbitrary: c d) (auto dest: crc_byte_inj(1))

text \<open>A change of one byte changes the sum.\<close>

lemma crc32_one_byte:
  assumes "x \<noteq> y"
  shows "crc32 (us @ x # vs) \<noteq> crc32 (us @ y # vs)"
proof
  assume "crc32 (us @ x # vs) = crc32 (us @ y # vs)"
  then have "foldl crc_byte 0xFFFFFFFF (us @ x # vs) = foldl crc_byte 0xFFFFFFFF (us @ y # vs)"
    unfolding crc32_def by (rule word_xor_cancel)
  then have "crc_byte (foldl crc_byte 0xFFFFFFFF us) x = crc_byte (foldl crc_byte 0xFFFFFFFF us) y"
    by (simp add: crc_fold_inj)
  then show False using crc_byte_inj(2) assms by blast
qed

section \<open>Paths\<close>

type_synonym path = bytes

definition SLASH :: u8 where "SLASH = 0x2F"
definition DOT :: u8 where "DOT = 0x2E"

definition starts_with :: "path \<Rightarrow> path \<Rightarrow> bool" where
  "starts_with p v \<longleftrightarrow> take (length p) v = p"

fun has_dotdot :: "path \<Rightarrow> bool" where
  "has_dotdot (a # b # v) = (a = DOT \<and> b = DOT \<or> has_dotdot (b # v))"
| "has_dotdot v = False"

text \<open>\<open>trim_end_matches('/')\<close>, and the loop of \<open>normalize\<close>, which keeps at least one byte.\<close>

definition trim_slashes :: "path \<Rightarrow> path" where
  "trim_slashes v = rev (dropWhile (\<lambda>b. b = SLASH) (rev v))"

fun pop_slashes :: "path \<Rightarrow> path" where
  "pop_slashes (a # b # v) = (if a = SLASH then pop_slashes (b # v) else a # b # v)"
| "pop_slashes v = v"

definition normalize :: "path \<Rightarrow> path" where
  "normalize value =
    (if value = [] then [SLASH]
     else let value = (if hd value = SLASH then value else SLASH # value)
          in rev (pop_slashes (rev value)))"

text \<open>\<open>core::str::from_utf8\<close> accepts exactly the well-formed byte sequences.\<close>

definition cont_byte :: "u8 \<Rightarrow> bool" where
  "cont_byte b \<longleftrightarrow> 0x80 \<le> b \<and> b \<le> 0xBF"

fun utf8_valid :: "bytes \<Rightarrow> bool" where
  "utf8_valid [] = True"
| "utf8_valid (a # v) =
    (if a < 0x80 then utf8_valid v
     else if 0xC2 \<le> a \<and> a \<le> 0xDF then
       (case v of b # v \<Rightarrow> cont_byte b \<and> utf8_valid v | _ \<Rightarrow> False)
     else if 0xE0 \<le> a \<and> a \<le> 0xEF then
       (case v of b # c # v \<Rightarrow> cont_byte b \<and> (a = 0xE0 \<longrightarrow> 0xA0 \<le> b) \<and> (a = 0xED \<longrightarrow> b \<le> 0x9F) \<and> cont_byte c \<and> utf8_valid v
        | _ \<Rightarrow> False)
     else if 0xF0 \<le> a \<and> a \<le> 0xF4 then
       (case v of b # c # e # v \<Rightarrow> cont_byte b \<and> (a = 0xF0 \<longrightarrow> 0x90 \<le> b) \<and> (a = 0xF4 \<longrightarrow> b \<le> 0x8F) \<and> cont_byte c \<and> cont_byte e \<and>
          utf8_valid v
        | _ \<Rightarrow> False)
     else False)"

lemma pop_slashes_idem [simp]: "pop_slashes (pop_slashes v) = pop_slashes v"
  by (induction v rule: pop_slashes.induct) auto

lemma last_pop_slashes: "v \<noteq> [] \<Longrightarrow> pop_slashes v \<noteq> [] \<and> last (pop_slashes v) = last v"
  by (induction v rule: pop_slashes.induct) auto

lemma normalize_idem [simp]: "normalize (normalize p) = normalize p"
proof (cases "p = []")
  case False
  define q where "q = (if hd p = SLASH then p else SLASH # p)"
  have q: "q \<noteq> []" "hd q = SLASH" using False by (auto simp: q_def)
  have n: "normalize p = rev (pop_slashes (rev q))" using False by (simp add: normalize_def q_def Let_def)
  have "rev q \<noteq> []" using q by simp
  then have "pop_slashes (rev q) \<noteq> []" "hd (normalize p) = SLASH"
    using last_pop_slashes [of "rev q"] q by (simp_all add: n hd_rev last_rev)
  then show ?thesis by (simp add: normalize_def [of "normalize p"] Let_def) (simp add: n)
qed (simp add: normalize_def)

lemma normalize_root: "normalize p \<noteq> [] \<and> hd (normalize p) = SLASH"
proof (cases "p = []")
  case False
  define q where "q = (if hd p = SLASH then p else SLASH # p)"
  have "rev q \<noteq> []" "last (rev q) = SLASH" using False by (auto simp: q_def last_rev)
  then show ?thesis using last_pop_slashes [of "rev q"] False by (simp add: normalize_def q_def [symmetric] Let_def hd_rev)
qed (simp add: normalize_def)

section \<open>Maps in key order\<close>

type_synonym 'v btree = "(path \<times> 'v) list"

fun bt_insert :: "path \<Rightarrow> 'v \<Rightarrow> 'v btree \<Rightarrow> 'v btree" where
  "bt_insert k v [] = [(k, v)]"
| "bt_insert k v ((k', v') # m) =
    (if k < k' then (k, v) # (k', v') # m else if k = k' then (k, v) # m else (k', v') # bt_insert k v m)"

definition bt_get :: "path \<Rightarrow> 'v btree \<Rightarrow> 'v option" where
  "bt_get k m = map_of m k"

definition bt_remove :: "path \<Rightarrow> 'v btree \<Rightarrow> 'v btree" where
  "bt_remove k m = filter (\<lambda>(k', _). k' \<noteq> k) m"

abbreviation bt_sorted :: "'v btree \<Rightarrow> bool" where
  "bt_sorted m \<equiv> sorted_wrt (<) (map fst m)"

lemma bt_get_insert: "bt_get k' (bt_insert k v m) = (if k' = k then Some v else bt_get k' m)"
  unfolding bt_get_def by (induction k v m rule: bt_insert.induct) auto

lemma bt_get_remove: "bt_get k' (bt_remove k m) = (if k' = k then None else bt_get k' m)"
  unfolding bt_get_def bt_remove_def by (induction m) auto

lemma set_bt_insert: "set (map fst (bt_insert k v m)) = insert k (set (map fst m))"
  by (induction k v m rule: bt_insert.induct) auto

lemma bt_sorted_insert: "bt_sorted m \<Longrightarrow> bt_sorted (bt_insert k v m)"
  by (induction k v m rule: bt_insert.induct) (auto simp: set_bt_insert [unfolded set_map] dest: order.strict_trans)

lemma bt_sorted_remove: "bt_sorted m \<Longrightarrow> bt_sorted (bt_remove k m)"
  by (induction m) (auto simp: bt_remove_def)

lemma bt_insert_last: "\<forall>x \<in> set m. fst x < k \<Longrightarrow> bt_insert k v m = m @ [(k, v)]"
  by (induction k v m rule: bt_insert.induct) auto

end
