(* ===== verification/Zfs_Metadata.thy ===== *)
theory Zfs_Metadata
  imports Zfs_Base
begin

text \<open>
  The directory index (\<open>directory.rs\<close>, \<open>on_disk.rs\<close>) and the metadata banks (\<open>metadata.rs\<close>) of
  \<open>libs/zfs-core\<close>: the byte encoding of the directory, the two banks of 32 blocks each that take
  turns, and the loader that picks the newer valid one.
\<close>

section \<open>Directory entries\<close>

datatype inode_kind = KFile | KDirectory | KSymlink | KAppBundle

fun kind_code :: "inode_kind \<Rightarrow> u8" where
  "kind_code KFile = 1"
| "kind_code KDirectory = 2"
| "kind_code KSymlink = 3"
| "kind_code KAppBundle = 4"

record inode =
  i_id :: u64
  i_kind :: inode_kind
  i_size :: u64
  i_mode :: u32
  i_uid :: u32
  i_gid :: u32
  i_links :: u32
  i_data :: "u64 list"
  i_extent_root :: u64
  i_ctime :: u64
  i_mtime :: u64

record dir_entry =
  de_inode :: inode
  de_blocks :: "u64 list"
  de_signature :: "bytes option"

type_synonym directory = "dir_entry btree"

definition dir_insert :: "path \<Rightarrow> dir_entry \<Rightarrow> directory \<Rightarrow> directory" where
  "dir_insert path entry m = bt_insert (normalize path) entry m"

definition dir_get :: "path \<Rightarrow> directory \<Rightarrow> dir_entry option" where
  "dir_get path m = bt_get (normalize path) m"

definition dir_remove :: "path \<Rightarrow> directory \<Rightarrow> directory" where
  "dir_remove path m = bt_remove (normalize path) m"

definition list_prefix :: "path \<Rightarrow> directory \<Rightarrow> directory" where
  "list_prefix prefix m =
    (let p = normalize prefix in takeWhile (\<lambda>(q, _). starts_with p q) (dropWhile (\<lambda>(q, _). q < p) m))"

text \<open>The first twelve block numbers are copied into the inode.\<close>

definition inline_blocks :: "u64 list \<Rightarrow> u64 list" where
  "inline_blocks blocks = take 12 blocks @ replicate (12 - length blocks) 0"

section \<open>Encoding\<close>

definition MD_MAGIC :: bytes where "MD_MAGIC = [0x5A, 0x4D, 0x44, 0x54, 0x30, 0x30, 0x30, 0x31]"
definition BANK_BLOCKS :: nat where "BANK_BLOCKS = 32"
definition BANK_A :: u64 where "BANK_A = 1"
definition BANK_B :: u64 where "BANK_B = 33"
definition RESERVED_END :: u64 where "RESERVED_END = 65"

record metadata =
  md_generation :: u64
  md_entries :: directory
  md_next_inode :: u64
  md_logical_time :: u64

definition entry_fields :: "dir_entry \<Rightarrow> bytes" where
  "entry_fields e = (let i = de_inode e in
    [kind_code (i_kind i), if de_signature e = None then 0 else 1] @ to_le 4 (unat (i_mode i)) @ to_le 8 (unat (i_id i)) @
    to_le 8 (unat (i_size i)) @ to_le 4 (unat (i_uid i)) @ to_le 4 (unat (i_gid i)) @ to_le 4 (unat (i_links i)) @
    to_le 8 (unat (i_ctime i)) @ to_le 8 (unat (i_mtime i)))"

definition encode_entry :: "path \<times> dir_entry \<Rightarrow> zfs_error + bytes" where
  "encode_entry pe = (case pe of (path, entry) \<Rightarrow>
    if length path > 65535 \<or> length (de_blocks entry) > 65535 then Inl CheckpointTooLarge
    else Inr (to_le 2 (length path) @ to_le 2 (length (de_blocks entry)) @ entry_fields entry @ path @
      concat (map (\<lambda>b. to_le 8 (unat b)) (de_blocks entry)) @ (case de_signature entry of None \<Rightarrow> [] | Some s \<Rightarrow> s)))"

fun encode_entries :: "directory \<Rightarrow> zfs_error + bytes" where
  "encode_entries [] = Inr []"
| "encode_entries (pe # m) = rbind (encode_entry pe) (\<lambda>b. rbind (encode_entries m) (\<lambda>r. Inr (b @ r)))"

definition encode :: "directory \<Rightarrow> u64 \<Rightarrow> u64 \<Rightarrow> zfs_error + bytes" where
  "encode entries next_inode logical_time =
    rbind (encode_entries entries) (\<lambda>r.
      Inr (to_le 8 (unat next_inode) @ to_le 8 (unat logical_time) @ to_le 4 (length entries) @ r))"

section \<open>Decoding\<close>

text \<open>
  The cursor fails where the requested range does not lie in the data; the overflow that the code
  checks as well gives the same error, as no slice is that long.
\<close>

record cursor =
  c_data :: bytes
  c_off :: nat

definition cur_bytes :: "nat \<Rightarrow> cursor \<Rightarrow> zfs_error + bytes \<times> cursor" where
  "cur_bytes n c =
    (if c_off c + n \<le> length (c_data c) then Inr (take n (drop (c_off c) (c_data c)), c\<lparr>c_off := c_off c + n\<rparr>)
     else Inl JournalCorrupt)"

definition cur_u8 :: "cursor \<Rightarrow> zfs_error + u8 \<times> cursor" where
  "cur_u8 c = rbind (cur_bytes 1 c) (\<lambda>(b, c). Inr (hd b, c))"

definition cur_u16 :: "cursor \<Rightarrow> zfs_error + nat \<times> cursor" where
  "cur_u16 c = rbind (cur_bytes 2 c) (\<lambda>(b, c). Inr (from_le b, c))"

definition cur_u32 :: "cursor \<Rightarrow> zfs_error + u32 \<times> cursor" where
  "cur_u32 c = rbind (cur_bytes 4 c) (\<lambda>(b, c). Inr (of_nat (from_le b), c))"

definition cur_u64 :: "cursor \<Rightarrow> zfs_error + u64 \<times> cursor" where
  "cur_u64 c = rbind (cur_bytes 8 c) (\<lambda>(b, c). Inr (of_nat (from_le b), c))"

definition decode_kind :: "u8 \<Rightarrow> zfs_error + inode_kind" where
  "decode_kind b =
    (if b = 1 then Inr KFile else if b = 2 then Inr KDirectory else if b = 3 then Inr KSymlink
     else if b = 4 then Inr KAppBundle else Inl CorruptEntry)"

primrec decode_blocks :: "nat \<Rightarrow> cursor \<Rightarrow> zfs_error + u64 list \<times> cursor" where
  "decode_blocks 0 c = Inr ([], c)"
| "decode_blocks (Suc n) c = rbind (cur_u64 c) (\<lambda>(b, c). rbind (decode_blocks n c) (\<lambda>(bs, c). Inr (b # bs, c)))"

definition decode_path :: "nat \<Rightarrow> cursor \<Rightarrow> zfs_error + path \<times> cursor" where
  "decode_path n c = rbind (cur_bytes n c) (\<lambda>(p, c).
    if \<not> utf8_valid p then Inl CorruptEntry
    else if p = [] \<or> hd p \<noteq> SLASH \<or> has_dotdot p then Inl PathInvalid
    else Inr (p, c))"

definition decode_signature :: "bool \<Rightarrow> cursor \<Rightarrow> zfs_error + bytes option \<times> cursor" where
  "decode_signature has c = (if has then rbind (cur_bytes 32 c) (\<lambda>(s, c). Inr (Some s, c)) else Inr (None, c))"

definition decode_entry :: "cursor \<Rightarrow> zfs_error + (path \<times> dir_entry) \<times> cursor" where
  "decode_entry c =
    rbind (cur_u16 c) (\<lambda>(path_len, c). rbind (cur_u16 c) (\<lambda>(blocks_len, c).
    rbind (cur_u8 c) (\<lambda>(k, c). rbind (decode_kind k) (\<lambda>kind. rbind (cur_u8 c) (\<lambda>(sig, c).
    rbind (cur_u32 c) (\<lambda>(mode, c). rbind (cur_u64 c) (\<lambda>(ino, c). rbind (cur_u64 c) (\<lambda>(size, c).
    rbind (cur_u32 c) (\<lambda>(uid, c). rbind (cur_u32 c) (\<lambda>(gid, c). rbind (cur_u32 c) (\<lambda>(links, c).
    rbind (cur_u64 c) (\<lambda>(ctime, c). rbind (cur_u64 c) (\<lambda>(mtime, c).
    rbind (decode_path path_len c) (\<lambda>(path, c). rbind (decode_blocks blocks_len c) (\<lambda>(blocks, c).
    rbind (decode_signature (sig \<noteq> 0) c) (\<lambda>(signature, c).
      Inr ((path, \<lparr>de_inode = \<lparr>i_id = ino, i_kind = kind, i_size = size, i_mode = mode, i_uid = uid, i_gid = gid,
        i_links = links, i_data = inline_blocks blocks, i_extent_root = 0, i_ctime = ctime, i_mtime = mtime\<rparr>,
        de_blocks = blocks, de_signature = signature\<rparr>), c)))))))))))))))))"

primrec decode_entries :: "nat \<Rightarrow> directory \<Rightarrow> cursor \<Rightarrow> zfs_error + directory \<times> cursor" where
  "decode_entries 0 m c = Inr (m, c)"
| "decode_entries (Suc n) m c = rbind (decode_entry c) (\<lambda>((p, e), c). decode_entries n (bt_insert p e m) c)"

definition decode :: "bytes \<Rightarrow> zfs_error + directory \<times> u64 \<times> u64" where
  "decode data =
    rbind (cur_u64 \<lparr>c_data = data, c_off = 0\<rparr>) (\<lambda>(next_inode, c). rbind (cur_u64 c) (\<lambda>(logical_time, c).
    rbind (cur_u32 c) (\<lambda>(count, c). rbind (decode_entries (unat count) [] c) (\<lambda>(entries, c).
      if c_off c \<noteq> length data then Inl JournalCorrupt
      else Inr (entries, max next_inode 2, max logical_time 1)))))"

section \<open>The banks\<close>

definition store_target :: "u64 \<Rightarrow> u64" where
  "store_target g = (if g AND 1 = 1 then BANK_A else BANK_B)"

definition payload_block :: "nat \<Rightarrow> bytes \<Rightarrow> nat \<Rightarrow> bytes" where
  "payload_block bs payload i =
    (let c = take bs (drop (i * bs) payload) in c @ replicate (bs - length c) 0)"

definition header_block :: "nat \<Rightarrow> u64 \<Rightarrow> bytes \<Rightarrow> nat \<Rightarrow> bytes" where
  "header_block bs g payload n =
    MD_MAGIC @ to_le 8 (unat g) @ to_le 4 (length payload) @ to_le 4 (unat (crc32 payload)) @ to_le 4 n @ replicate (bs - 28) 0"

fun write_all :: "'d bdev \<Rightarrow> (u64 \<times> bytes) list \<Rightarrow> 'd \<Rightarrow> 'd \<times> (zfs_error + unit)" where
  "write_all D [] d = (d, Inr ())"
| "write_all D ((l, b) # ws) d =
    (case bd_write D l b d of (d, Inl e) \<Rightarrow> (d, Inl (ZDevice e)) | (d, Inr _) \<Rightarrow> write_all D ws d)"

definition payload_blocks :: "nat \<Rightarrow> bytes \<Rightarrow> nat" where
  "payload_blocks bs payload = (length payload + bs - 1) div bs"

definition next_generation :: "u64 \<Rightarrow> u64" where
  "next_generation g = max (saturating_add g 1) 1"

definition store :: "'d bdev \<Rightarrow> u64 \<Rightarrow> directory \<Rightarrow> u64 \<Rightarrow> u64 \<Rightarrow> 'd \<Rightarrow> 'd \<times> (zfs_error + u64)" where
  "store D generation entries next_inode logical_time d =
    (let g = next_generation generation; target = store_target g; bs = bd_block_size D
     in case encode entries next_inode logical_time of
          Inl e \<Rightarrow> (d, Inl e)
        | Inr payload \<Rightarrow>
           if length payload > (BANK_BLOCKS - 1) * bs then (d, Inl CheckpointTooLarge)
           else case write_all D (map (\<lambda>i. (target + 1 + of_nat i, payload_block bs payload i)) [0..<payload_blocks bs payload]) d of
             (d, Inl e) \<Rightarrow> (d, Inl e)
           | (d, Inr _) \<Rightarrow>
              (case bd_write D target (header_block bs g payload (length entries)) d of
                 (d, Inl e) \<Rightarrow> (d, Inl (ZDevice e))
               | (d, Inr _) \<Rightarrow> (d, Inr g)))"

definition bank_header :: "'d bdev \<Rightarrow> u64 \<Rightarrow> 'd \<Rightarrow> zfs_error + (u64 \<times> nat \<times> u32) option" where
  "bank_header D start d =
    (case bd_read D start (bd_block_size D) d of
       Inl DevOutOfBounds \<Rightarrow> Inr None
     | Inl e \<Rightarrow> Inl (ZDevice e)
     | Inr h \<Rightarrow>
        if take 8 h \<noteq> MD_MAGIC then Inr None
        else let generation = of_nat (from_le (take 8 (drop 8 h))); len = from_le (take 4 (drop 16 h));
                 crc = of_nat (from_le (take 4 (drop 20 h)))
             in if len > (BANK_BLOCKS - 1) * bd_block_size D then Inr None else Inr (Some (generation, len, crc)))"

fun read_payload :: "'d bdev \<Rightarrow> u64 \<Rightarrow> nat \<Rightarrow> nat list \<Rightarrow> nat \<Rightarrow> 'd \<Rightarrow> zfs_error + bytes" where
  "read_payload D start len [] off d = Inr []"
| "read_payload D start len (i # is) off d =
    (if off \<ge> len then Inr []
     else case bd_read D (start + of_nat i) (bd_block_size D) d of
       Inl e \<Rightarrow> Inl (ZDevice e)
     | Inr block \<Rightarrow>
        let n = min (bd_block_size D) (len - off)
        in rbind (read_payload D start len is (off + n) d) (\<lambda>r. Inr (take n block @ r)))"

definition bank_payload :: "'d bdev \<Rightarrow> u64 \<Rightarrow> 'd \<Rightarrow> zfs_error + (u64 \<times> bytes \<times> u32) option" where
  "bank_payload D start d =
    rbind (bank_header D start d) (\<lambda>h. case h of
        None \<Rightarrow> Inr None
      | Some (g, len, crc) \<Rightarrow> rbind (read_payload D start len [1..<BANK_BLOCKS] 0 d) (\<lambda>p. Inr (Some (g, p, crc))))"

definition load_bank :: "'d bdev \<Rightarrow> u64 \<Rightarrow> 'd \<Rightarrow> zfs_error + metadata option" where
  "load_bank D start d =
    rbind (bank_payload D start d) (\<lambda>b. case b of
        None \<Rightarrow> Inr None
      | Some (g, payload, crc) \<Rightarrow>
         if crc32 payload \<noteq> crc then Inr None
         else rbind (decode payload) (\<lambda>(entries, next_inode, logical_time).
           Inr (Some \<lparr>md_generation = g, md_entries = entries, md_next_inode = next_inode, md_logical_time = logical_time\<rparr>)))"

definition newer :: "metadata option \<Rightarrow> metadata option \<Rightarrow> metadata option" where
  "newer a b = (case (a, b) of
      (Some x, Some y) \<Rightarrow> Some (if md_generation y > md_generation x then y else x)
    | (Some x, None) \<Rightarrow> Some x
    | (None, Some y) \<Rightarrow> Some y
    | (None, None) \<Rightarrow> None)"

definition load :: "'d bdev \<Rightarrow> 'd \<Rightarrow> zfs_error + metadata option" where
  "load D d = rbind (load_bank D BANK_A d) (\<lambda>a. rbind (load_bank D BANK_B d) (\<lambda>b. Inr (newer a b)))"

section \<open>Round trip\<close>

text \<open>A cursor between what has been read and what is left.\<close>

definition at :: "bytes \<Rightarrow> bytes \<Rightarrow> cursor" where
  "at pre suf = \<lparr>c_data = pre @ suf, c_off = length pre\<rparr>"

lemma cur_bytes_at: "length xs = n \<Longrightarrow> cur_bytes n (at pre (xs @ suf)) = Inr (xs, at (pre @ xs) suf)"
  by (simp add: cur_bytes_def at_def)

lemma cur_ints_at [simp]:
  "cur_u8 (at pre (b # suf)) = Inr (b, at (pre @ [b]) suf)"
  "cur_u16 (at pre (to_le 2 v @ suf)) = Inr (v mod 65536, at (pre @ to_le 2 v) suf)"
  "cur_u32 (at pre (to_le 4 (unat w) @ suf)) = Inr (w, at (pre @ to_le 4 (unat w)) suf)"
  "cur_u64 (at pre (to_le 8 (unat x) @ suf)) = Inr (x, at (pre @ to_le 8 (unat x)) suf)"
proof -
  have u: "unat w mod 256 ^ 4 = unat w" "unat x mod 256 ^ 8 = unat x"
    using unsigned_less [where 'a = nat, of w] unsigned_less [where 'a = nat, of x] by simp_all
  show "cur_u8 (at pre (b # suf)) = Inr (b, at (pre @ [b]) suf)"
    using cur_bytes_at [of "[b]" 1 pre suf] by (simp add: cur_u8_def)
  show "cur_u16 (at pre (to_le 2 v @ suf)) = Inr (v mod 65536, at (pre @ to_le 2 v) suf)"
    by (simp add: cur_u16_def cur_bytes_at power2_eq_square)
  show "cur_u32 (at pre (to_le 4 (unat w) @ suf)) = Inr (w, at (pre @ to_le 4 (unat w)) suf)"
    using u(1) by (simp add: cur_u32_def cur_bytes_at del: power_numeral)
  show "cur_u64 (at pre (to_le 8 (unat x) @ suf)) = Inr (x, at (pre @ to_le 8 (unat x)) suf)"
    using u(2) by (simp add: cur_u64_def cur_bytes_at del: power_numeral)
qed

lemma decode_blocks_at:
  "decode_blocks (length bs) (at pre (concat (map (\<lambda>b. to_le 8 (unat b)) bs) @ suf))
    = Inr (bs, at (pre @ concat (map (\<lambda>b. to_le 8 (unat b)) bs)) suf)"
  by (induction bs arbitrary: pre) simp_all

definition path_ok :: "path \<Rightarrow> bool" where
  "path_ok p \<longleftrightarrow> utf8_valid p \<and> p \<noteq> [] \<and> hd p = SLASH \<and> \<not> has_dotdot p"

text \<open>An entry as the volume builds them.\<close>

definition entry_ok :: "dir_entry \<Rightarrow> bool" where
  "entry_ok e \<longleftrightarrow> i_data (de_inode e) = inline_blocks (de_blocks e) \<and> i_extent_root (de_inode e) = 0 \<and>
    (case de_signature e of None \<Rightarrow> True | Some s \<Rightarrow> length s = 32)"

lemma decode_kind_code [simp]: "decode_kind (kind_code k) = Inr k"
  by (cases k) (simp_all add: decode_kind_def)

lemma decode_entry_at:
  assumes "encode_entry (p, e) = Inr b" and "utf8_valid p"
  shows "decode_entry (at pre (b @ suf)) =
    (if p = [] \<or> hd p \<noteq> SLASH \<or> has_dotdot p then Inl PathInvalid
     else if entry_ok e then Inr ((p, e), at (pre @ b) suf) else decode_entry (at pre (b @ suf)))"
proof -
  obtain ino kind size mode uid gid links dat ext ctime mtime blocks sig where
    e: "e = \<lparr>de_inode = \<lparr>i_id = ino, i_kind = kind, i_size = size, i_mode = mode, i_uid = uid, i_gid = gid,
        i_links = links, i_data = dat, i_extent_root = ext, i_ctime = ctime, i_mtime = mtime\<rparr>,
        de_blocks = blocks, de_signature = sig\<rparr>"
    by (metis (full_types) dir_entry.surjective inode.surjective old.unit.exhaust)
  have len: "length p < 65536" "length blocks < 65536"
    and b: "b = to_le 2 (length p) @ to_le 2 (length blocks) @ entry_fields e @ p @
      concat (map (\<lambda>b. to_le 8 (unat b)) blocks) @ (case sig of None \<Rightarrow> [] | Some s \<Rightarrow> s)"
    using assms(1) by (auto simp: encode_entry_def e split: if_splits)
  show ?thesis
  proof (cases "p = [] \<or> hd p \<noteq> SLASH \<or> has_dotdot p")
    case True
    then show ?thesis
      using len assms(2) by (simp add: b decode_entry_def entry_fields_def e Let_def decode_path_def cur_bytes_at)
  next
    case False
    then show ?thesis
      using len assms(2)
      by (cases sig) (auto simp: b decode_entry_def entry_fields_def e Let_def decode_path_def cur_bytes_at decode_blocks_at
          decode_signature_def entry_ok_def)
  qed
qed

lemma decode_entries_at:
  assumes "encode_entries m = Inr b" and "\<forall>(p, e) \<in> set m. path_ok p \<and> entry_ok e"
    and "bt_sorted (acc @ m)"
  shows "decode_entries (length m) acc (at pre (b @ suf)) = Inr (acc @ m, at (pre @ b) suf)"
  using assms
proof (induction m arbitrary: acc pre b)
  case (Cons pe m)
  obtain p e where pe: "pe = (p, e)" by fastforce
  obtain b1 b2 where b: "encode_entry pe = Inr b1" "encode_entries m = Inr b2" "b = b1 @ b2"
    using Cons.prems(1) by (auto simp: rbind_eq_Inr)
  have ok: "utf8_valid p" "\<not> (p = [] \<or> hd p \<noteq> SLASH \<or> has_dotdot p)" "entry_ok e"
    using Cons.prems(2) pe by (auto simp: path_ok_def)
  have "decode_entry (at pre (b1 @ b2 @ suf)) = Inr ((p, e), at (pre @ b1) (b2 @ suf))"
    using decode_entry_at [OF b(1) [unfolded pe] ok(1), of pre "b2 @ suf"] ok by simp
  moreover have "bt_insert p e acc = acc @ [(p, e)]"
    by (rule bt_insert_last) (use Cons.prems(3) in \<open>auto simp: pe sorted_wrt_append\<close>)
  moreover have "decode_entries (length m) (acc @ [(p, e)]) (at (pre @ b1) (b2 @ suf)) = Inr ((acc @ [(p, e)]) @ m, at ((pre @ b1) @ b2) suf)"
    by (rule Cons.IH) (use Cons.prems b pe in auto)
  ultimately show ?case by (simp add: b(3) pe)
qed simp

lemma decode_start: "\<lparr>c_data = data, c_off = 0\<rparr> = at [] data"
  by (simp add: at_def)

lemma decode_header_at:
  assumes "encode m ni lt = Inr out" and "length m < 2 ^ 32" and b: "encode_entries m = Inr b"
  shows "\<exists>pre. out = pre @ b \<and> decode out = rbind (decode_entries (length m) [] (at pre b)) (\<lambda>(entries, c).
    if c_off c \<noteq> length out then Inl JournalCorrupt else Inr (entries, max ni 2, max lt 1))"
proof -
  define w where "w = (of_nat (length m) :: u32)"
  have n: "unat w = length m" using assms(2) by (simp add: unat_of_nat w_def)
  then have out: "out = to_le 8 (unat ni) @ to_le 8 (unat lt) @ to_le 4 (unat w) @ b"
    using assms(1) b by (simp add: encode_def)
  let ?pre = "to_le 8 (unat ni) @ to_le 8 (unat lt) @ to_le 4 (unat w)"
  have "decode out = rbind (decode_entries (unat w) [] (at ?pre b)) (\<lambda>(entries, c).
    if c_off c \<noteq> length out then Inl JournalCorrupt else Inr (entries, max ni 2, max lt 1))"
    unfolding decode_def decode_start by (simp add: out)
  then show ?thesis using out n by (intro exI [of _ ?pre]) simp
qed

lemma decode_encode:
  assumes "encode m ni lt = Inr out" and "\<forall>(p, e) \<in> set m. path_ok p \<and> entry_ok e" and "bt_sorted m" and "length m < 2 ^ 32"
  shows "decode out = Inr (m, max ni 2, max lt 1)"
proof -
  obtain b where b: "encode_entries m = Inr b" using assms(1) by (auto simp: encode_def rbind_eq_Inr)
  obtain pre where pre: "out = pre @ b" "decode out = rbind (decode_entries (length m) [] (at pre b)) (\<lambda>(entries, c).
    if c_off c \<noteq> length out then Inl JournalCorrupt else Inr (entries, max ni 2, max lt 1))"
    using decode_header_at [OF assms(1,4) b] by blast
  have "decode_entries (length m) [] (at pre (b @ [])) = Inr ([] @ m, at (pre @ b) [])"
    by (rule decode_entries_at [OF b assms(2)]) (use assms(3) in simp)
  then show ?thesis using pre by (simp add: at_def)
qed

lemma encode_refuses:
  "encode_entries m = Inl err \<Longrightarrow> err = CheckpointTooLarge \<and> (\<exists>(p, e) \<in> set m. length p > 65535 \<or> length (de_blocks e) > 65535)"
proof (induction m)
  case (Cons pe m)
  obtain p e where pe: "pe = (p, e)" by fastforce
  show ?case
  proof (cases "encode_entry pe")
    case (Inl a)
    then show ?thesis using Cons.prems by (auto simp: pe encode_entry_def split: if_splits)
  next
    case (Inr b)
    then have "encode_entries m = Inl err" using Cons.prems by (cases "encode_entries m") auto
    then show ?thesis using Cons.IH by auto
  qed
qed simp

text \<open>A path with two dots in a row is written without complaint and refused when it is read.\<close>

lemma decode_entries_dotdot:
  assumes "encode_entries (m1 @ (p, e) # m2) = Inr b" and "\<forall>(p, e) \<in> set m1. path_ok p \<and> entry_ok e"
    and "utf8_valid p" "has_dotdot p" and "bt_sorted (acc @ m1)"
  shows "decode_entries (Suc (length m1 + length m2)) acc (at pre b) = Inl PathInvalid"
  using assms
proof (induction m1 arbitrary: acc pre b)
  case Nil
  then obtain b1 b2 where "encode_entry (p, e) = Inr b1" "b = b1 @ b2" by (auto simp: rbind_eq_Inr)
  then show ?case using decode_entry_at [of p e b1 pre b2] Nil.prems by simp
next
  case (Cons pe m1)
  obtain q f where pe: "pe = (q, f)" by fastforce
  obtain b1 b2 where b: "encode_entry pe = Inr b1" "encode_entries (m1 @ (p, e) # m2) = Inr b2" "b = b1 @ b2"
    using Cons.prems(1) by (auto simp: rbind_eq_Inr)
  have ok: "utf8_valid q" "\<not> (q = [] \<or> hd q \<noteq> SLASH \<or> has_dotdot q)" "entry_ok f"
    using Cons.prems(2) pe by (auto simp: path_ok_def)
  have "decode_entry (at pre (b1 @ b2)) = Inr ((q, f), at (pre @ b1) b2)"
    using decode_entry_at [OF b(1) [unfolded pe] ok(1), of pre b2] ok by simp
  moreover have "bt_insert q f acc = acc @ [(q, f)]"
    by (rule bt_insert_last) (use Cons.prems(5) in \<open>auto simp: pe sorted_wrt_append\<close>)
  moreover have "decode_entries (Suc (length m1 + length m2)) (acc @ [(q, f)]) (at (pre @ b1) b2) = Inl PathInvalid"
    by (rule Cons.IH) (use Cons.prems b pe in auto)
  ultimately show ?case by (simp add: b(3))
qed

lemma decode_dotdot:
  assumes "encode (m1 @ (p, e) # m2) ni lt = Inr out" and "\<forall>(p, e) \<in> set m1. path_ok p \<and> entry_ok e"
    and "utf8_valid p" "has_dotdot p" and "bt_sorted m1" and "length (m1 @ (p, e) # m2) < 2 ^ 32"
  shows "decode out = Inl PathInvalid"
proof -
  obtain b where b: "encode_entries (m1 @ (p, e) # m2) = Inr b" using assms(1) by (auto simp: encode_def rbind_eq_Inr)
  have "decode_entries (Suc (length m1 + length m2)) [] (at pre b) = Inl PathInvalid" for pre
    by (rule decode_entries_dotdot [OF b assms(2-4)]) (use assms(5) in simp)
  then show ?thesis using decode_header_at [OF assms(1,6) b] by auto
qed

section \<open>Properties\<close>

text \<open>
  C14: The directory survives its byte encoding: what the encoder writes for a directory with distinct,
  rooted, well-formed paths without two dots in a row is decoded to the same directory, with the inode
  counter and the clock raised to their minima. The encoder refuses only names or block lists of more
  than 65535 items.
\<close>
theorem metadata_roundtrip:
  assumes "\<forall>(p, e) \<in> set m. path_ok p \<and> entry_ok e" and "bt_sorted m" and "length m < 2 ^ 32"
  shows "(case encode m ni lt of
      Inr out \<Rightarrow> decode out = Inr (m, max ni 2, max lt 1)
    | Inl err \<Rightarrow> err = CheckpointTooLarge \<and> (\<exists>(p, e) \<in> set m. length p > 65535 \<or> length (de_blocks e) > 65535))"
proof (cases "encode m ni lt")
  case (Inl err)
  then have "encode_entries m = Inl err" by (cases "encode_entries m") (auto simp: encode_def)
  then have "err = CheckpointTooLarge \<and> (\<exists>(p, e) \<in> set m. length p > 65535 \<or> length (de_blocks e) > 65535)"
    by (rule encode_refuses)
  then show ?thesis using Inl by simp
next
  case (Inr out)
  then show ?thesis using decode_encode [OF Inr assms] by simp
qed

definition demo_file :: "u64 \<Rightarrow> dir_entry" where
  "demo_file b = \<lparr>de_inode = \<lparr>i_id = 7, i_kind = KFile, i_size = 3, i_mode = 420, i_uid = 1, i_gid = 2, i_links = 1,
    i_data = b # replicate 11 0, i_extent_root = 0, i_ctime = 9, i_mtime = 10\<rparr>, de_blocks = [b], de_signature = Some (replicate 32 3)\<rparr>"

theorem metadata_roundtrip_witness:
  "\<exists>out. encode [([SLASH, 0x61], demo_file 100)] 8 11 = Inr out \<and> decode out = Inr ([([SLASH, 0x61], demo_file 100)], 8, 11)"
proof -
  let ?m = "[([SLASH, 0x61], demo_file 100)]"
  have ok: "\<forall>(p, e) \<in> set ?m. path_ok p \<and> entry_ok e"
    by (simp add: path_ok_def entry_ok_def demo_file_def inline_blocks_def SLASH_def DOT_def)
  obtain out where out: "encode ?m 8 11 = Inr out" by (simp add: encode_def encode_entry_def demo_file_def)
  have "max (8 :: u64) 2 = 8" "max (11 :: u64) 1 = 11" by (simp_all add: max_def word_le_nat_alt)
  then show ?thesis using metadata_roundtrip [OF ok, of 8 11] out by simp
qed

end
