(* ===== verification/Zfs_Banks.thy ===== *)
theory Zfs_Banks
  imports Zfs_Metadata
begin

text \<open>
  Crash safety of the metadata banks of \<open>libs/zfs-core/src/metadata.rs\<close>: \<open>store\<close> writes the payload and
  then the header of the bank that is not current, so whatever write the device stops at, the loader
  still finds the old directory or the new one.
\<close>

section \<open>Blocks of a bank\<close>

definition is_bank :: "u64 \<Rightarrow> bool" where
  "is_bank t \<longleftrightarrow> t = BANK_A \<or> t = BANK_B"

definition other_bank :: "u64 \<Rightarrow> u64" where
  "other_bank t = (if t = BANK_A then BANK_B else BANK_A)"

lemma bank_lba:
  assumes "is_bank t" "i < 32"
  shows "unat (t + of_nat i) = unat t + i" "lba_ok (t + of_nat i)"
proof -
  have "unat t \<le> 33" using assms(1) by (auto simp: is_bank_def BANK_A_def BANK_B_def)
  moreover have "unat (of_nat i :: u64) = i" using assms(2) by (simp add: unat_of_nat)
  ultimately show "unat (t + of_nat i) = unat t + i" using assms(2) by (simp add: unat_add_lem [THEN iffD1])
  then show "lba_ok (t + of_nat i)" using \<open>unat t \<le> 33\<close> assms(2) by (simp add: lba_ok_def)
qed

lemma bank_lba_inj:
  assumes "is_bank t" "i < 32" "j < 32"
  shows "t + of_nat i = t + of_nat j \<longleftrightarrow> i = j"
  using bank_lba(1) [OF assms(1,2)] bank_lba(1) [OF assms(1,3)] by (metis add_left_cancel)

lemma is_bank_other [simp]: "is_bank (other_bank t)"
  by (simp add: is_bank_def other_bank_def)

lemma bank_lba_other:
  assumes "is_bank t" "i < 32" "j < 32"
  shows "t + of_nat i \<noteq> other_bank t + of_nat j"
proof -
  have "unat t + i \<noteq> unat (other_bank t) + j"
    using assms by (auto simp: is_bank_def other_bank_def BANK_A_def BANK_B_def)
  then show ?thesis using bank_lba(1) [OF assms(1,2)] bank_lba(1) [OF is_bank_other assms(3), of t] by metis
qed

definition bank_readable :: "'d bdev \<Rightarrow> u64 \<Rightarrow> 'd \<Rightarrow> bool" where
  "bank_readable D t d \<longleftrightarrow> (\<forall>i < 32. \<exists>b. bd_read D (t + of_nat i) (bd_block_size D) d = Inr b)"

text \<open>What a bank answers depends on its own blocks alone.\<close>

lemma read_payload_cong:
  assumes "\<And>i. i \<in> set is \<Longrightarrow> bd_read D (start + of_nat i) (bd_block_size D) d' = bd_read D (start + of_nat i) (bd_block_size D) d"
  shows "read_payload D start len is off d' = read_payload D start len is off d"
  using assms by (induction D start len "is" off d rule: read_payload.induct) (auto simp: Let_def split: sum.split)

lemma bank_payload_cong:
  assumes "\<And>i. i < 32 \<Longrightarrow> bd_read D (start + of_nat i) (bd_block_size D) d' = bd_read D (start + of_nat i) (bd_block_size D) d"
  shows "bank_payload D start d' = bank_payload D start d"
proof -
  have "bank_header D start d' = bank_header D start d" using assms [of 0] by (simp add: bank_header_def)
  moreover have "read_payload D start len [1..<BANK_BLOCKS] 0 d' = read_payload D start len [1..<BANK_BLOCKS] 0 d" for len
    by (rule read_payload_cong) (use assms in \<open>auto simp: BANK_BLOCKS_def\<close>)
  ultimately show ?thesis unfolding bank_payload_def by (simp only:)
qed

text \<open>Reading back the blocks of a payload.\<close>

lemma length_payload_block [simp]: "length (payload_block bs p i) = bs"
  by (simp add: payload_block_def Let_def)

lemma take_payload_block: "take (min bs (length p - i * bs)) (payload_block bs p i) = take bs (drop (i * bs) p)"
  by (simp add: payload_block_def Let_def min_def)

lemma read_payload_blocks:
  assumes "0 < bd_block_size D" and "length p \<le> 31 * bd_block_size D"
    and "\<And>i. i < payload_blocks (bd_block_size D) p \<Longrightarrow>
      bd_read D (start + of_nat (Suc i)) (bd_block_size D) d = Inr (payload_block (bd_block_size D) p i)"
  shows "i \<le> 31 \<Longrightarrow> read_payload D start (length p) [Suc i..<32] (i * bd_block_size D) d = Inr (drop (i * bd_block_size D) p)"
proof (induction "31 - i" arbitrary: i)
  case 0
  then have "i = 31" by simp
  then show ?case using assms(2) by simp
next
  case (Suc k)
  let ?bs = "bd_block_size D"
  have i: "i < 31" using Suc.hyps(2) by simp
  then have l: "[Suc i..<32] = Suc i # [Suc (Suc i)..<32]" by (simp add: upt_conv_Cons)
  show ?case
  proof (cases "length p \<le> i * ?bs")
    case True
    then show ?thesis by (simp add: l)
  next
    case False
    then have "i < payload_blocks ?bs p"
      using assms(1) by (simp add: payload_blocks_def less_eq_div_iff_mult_less_eq Suc_le_eq [symmetric] algebra_simps)
    then have r: "bd_read D (start + of_nat (Suc i)) ?bs d = Inr (payload_block ?bs p i)" by (rule assms(3))
    have nx: "read_payload D start (length p) [Suc (Suc i)..<32] (Suc i * ?bs) d = Inr (drop (Suc i * ?bs) p)"
      by (rule Suc.hyps(1)) (use Suc.hyps(2) i in auto)
    show ?thesis
    proof (cases "?bs \<le> length p - i * ?bs")
      case True
      have "take ?bs (drop (i * ?bs) p) @ drop (Suc i * ?bs) p = drop (i * ?bs) p"
        by (metis append_take_drop_id drop_drop mult_Suc)
      then show ?thesis using False r nx True take_payload_block [of ?bs p i] by (simp add: l min_def add.commute)
    next
      case short: False
      have "read_payload D start (length p) [Suc (Suc i)..<32] (length p) d = Inr []" by (cases "[Suc (Suc i)..<32]") auto
      then show ?thesis using False r short take_payload_block [of ?bs p i] by (simp add: l min_def)
    qed
  qed
qed

section \<open>Writing\<close>

context block_device
begin

lemma write_readable:
  assumes "bd_write D l b d = (d', r)" and "lba_ok l" "lba_ok m" and "bd_read D m (length b) d = Inr x"
  shows "\<exists>y. bd_read D m (length b) d' = Inr y"
proof (cases "m = l")
  case True
  then show ?thesis
  proof (cases r)
    case (Inl e)
    then show ?thesis using True assms write_torn [of l b d d'] by blast
  next
    case (Inr u)
    then show ?thesis using True assms write_same [of l b d d'] by auto
  qed
next
  case False
  then show ?thesis using write_other [OF assms(2,3) _ assms(4), of b] assms(1) by auto
qed

lemma write_all_frame:
  assumes "write_all D ws d = (d', r)" and "\<forall>w \<in> set ws. lba_ok (fst w)" and "lba_ok m" "m \<notin> fst ` set ws"
    and "bd_read D m n d = Inr x"
  shows "bd_read D m n d' = Inr x"
  using assms
proof (induction ws arbitrary: d)
  case (Cons w ws)
  obtain l b where w: "w = (l, b)" by fastforce
  obtain d1 r1 where 1: "bd_write D l b d = (d1, r1)" by fastforce
  have "bd_read D m n d1 = Inr x" using write_other [of l m n d x b] Cons.prems w 1 by auto
  then show ?case using Cons w 1 by (cases r1) auto
qed simp

lemma write_all_readable:
  assumes "write_all D ws d = (d', r)" and "\<forall>w \<in> set ws. lba_ok (fst w) \<and> length (snd w) = n" and "lba_ok m"
    and "bd_read D m n d = Inr x"
  shows "\<exists>y. bd_read D m n d' = Inr y"
  using assms
proof (induction ws arbitrary: d x)
  case (Cons w ws)
  obtain l b where w: "w = (l, b)" by fastforce
  obtain d1 r1 where 1: "bd_write D l b d = (d1, r1)" by fastforce
  have l: "lba_ok l" "length b = n" using Cons.prems(2) w by auto
  then obtain y where "bd_read D m n d1 = Inr y" using write_readable [OF 1 l(1) Cons.prems(3)] Cons.prems(4) by blast
  then show ?case using Cons w 1 by (cases r1) auto
qed simp

lemma write_all_ok:
  assumes "write_all D ws d = (d', Inr ())" and "\<forall>w \<in> set ws. lba_ok (fst w) \<and> length (snd w) = n" and "distinct (map fst ws)"
    and "w \<in> set ws"
  shows "bd_read D (fst w) n d' = Inr (snd w)"
  using assms
proof (induction ws arbitrary: d)
  case (Cons v ws)
  obtain l b where v: "v = (l, b)" by fastforce
  obtain d1 where 1: "bd_write D l b d = (d1, Inr ())" "write_all D ws d1 = (d', Inr ())"
    using Cons.prems(1) v by (auto split: prod.splits sum.splits)
  show ?case
  proof (cases "w = v")
    case True
    have "bd_read D l n d1 = Inr b" using write_same [OF _ 1(1)] Cons.prems(2) v by auto
    then show ?thesis using write_all_frame [OF 1(2), of l n b] Cons.prems v True by auto
  next
    case False
    then show ?thesis using Cons.IH [OF 1(2)] Cons.prems by auto
  qed
qed simp

end

section \<open>Storing\<close>

text \<open>Block sizes for which the header fits a block and a payload length fits its field.\<close>

definition size_ok :: "'d bdev \<Rightarrow> bool" where
  "size_ok D \<longleftrightarrow> 28 \<le> bd_block_size D \<and> bd_block_size D \<le> 2 ^ 26"

lemma length_header_block: "28 \<le> bs \<Longrightarrow> length (header_block bs g p n) = bs"
  by (simp add: header_block_def MD_MAGIC_def)

text \<open>The fields of the header are in the first sector.\<close>

lemma first_sector:
  fixes x b :: bytes
  assumes "take SECTOR_SIZE x = take SECTOR_SIZE b"
  shows "take 8 x = take 8 b" "take 8 (drop 8 x) = take 8 (drop 8 b)" "take 4 (drop 16 x) = take 4 (drop 16 b)"
    "take 4 (drop 20 x) = take 4 (drop 20 b)"
proof -
  have "take n (drop m x) = take n (drop m b)" if "m + n \<le> 512" for m n
  proof -
    have "take n (drop m y) = take n (drop m (take 512 y))" for y :: bytes using that by (simp add: take_drop min_def)
    then show ?thesis using assms unfolding SECTOR_SIZE_def by metis
  qed
  from this [of 0 8] this [of 8 8] this [of 16 4] this [of 20 4]
  show "take 8 x = take 8 b" "take 8 (drop 8 x) = take 8 (drop 8 b)" "take 4 (drop 16 x) = take 4 (drop 16 b)"
    "take 4 (drop 20 x) = take 4 (drop 20 b)" by simp_all
qed

lemma header_same:
  assumes "bd_read D t (bd_block_size D) d = Inr b" "bd_read D t (bd_block_size D) d' = Inr x" "take SECTOR_SIZE x = take SECTOR_SIZE b"
  shows "bank_header D t d' = bank_header D t d"
  unfolding bank_header_def assms(1,2) sum.case first_sector [OF assms(3)] ..

lemma header_roundtrip:
  assumes "size_ok D" and "length p \<le> 31 * bd_block_size D"
    and "bd_read D t (bd_block_size D) d = Inr x" "take SECTOR_SIZE x = take SECTOR_SIZE (header_block (bd_block_size D) g p n)"
  shows "bank_header D t d = Inr (Some (g, length p, crc32 p))"
proof -
  have l: "length p < 256 ^ 4" using assms(1,2) by (simp add: size_ok_def)
  have u: "unat g mod 256 ^ 8 = unat g" "unat (crc32 p) mod 256 ^ 4 = unat (crc32 p)"
    using unsigned_less [where 'a = nat, of g] unsigned_less [where 'a = nat, of "crc32 p"] by simp_all
  have m: "length MD_MAGIC = 8" by (simp add: MD_MAGIC_def)
  let ?h = "header_block (bd_block_size D) g p n"
  have f: "take 8 ?h = MD_MAGIC" "take 8 (drop 8 ?h) = to_le 8 (unat g)" "take 4 (drop 16 ?h) = to_le 4 (length p)"
    "take 4 (drop 20 ?h) = to_le 4 (unat (crc32 p))"
    by (simp_all add: header_block_def m)
  note e = first_sector [OF assms(4)]
  have "bank_header D t d = (if take 8 ?h \<noteq> MD_MAGIC then Inr None
      else let generation = of_nat (from_le (take 8 (drop 8 ?h))); len = from_le (take 4 (drop 16 ?h));
               crc = of_nat (from_le (take 4 (drop 20 ?h)))
           in if len > (BANK_BLOCKS - 1) * bd_block_size D then Inr None else Inr (Some (generation, len, crc)))"
    unfolding bank_header_def assms(3) sum.case e ..
  then show ?thesis
    unfolding f using u l assms(2) by (simp add: Let_def BANK_BLOCKS_def from_to_le del: power_numeral)
qed

text \<open>The writes of the payload.\<close>

definition payload_writes :: "'d bdev \<Rightarrow> u64 \<Rightarrow> bytes \<Rightarrow> (u64 \<times> bytes) list" where
  "payload_writes D t p = map (\<lambda>i. (t + 1 + of_nat i, payload_block (bd_block_size D) p i)) [0..<payload_blocks (bd_block_size D) p]"

lemma payload_count:
  assumes "0 < bs" "length p \<le> 31 * bs"
  shows "payload_blocks bs p \<le> 31"
proof -
  have "length p + bs - 1 < 32 * bs" using assms by linarith
  then have "(length p + bs - 1) div bs < 32" using assms(1) by (simp add: less_mult_imp_div_less)
  then show ?thesis by (simp add: payload_blocks_def)
qed

lemma payload_writes_lba:
  assumes "is_bank t" "0 < bd_block_size D" "length p \<le> 31 * bd_block_size D"
  shows "\<forall>w \<in> set (payload_writes D t p). lba_ok (fst w) \<and> length (snd w) = bd_block_size D"
    and "distinct (map fst (payload_writes D t p))" and "t \<notin> fst ` set (payload_writes D t p)"
    and "j < 32 \<Longrightarrow> other_bank t + of_nat j \<notin> fst ` set (payload_writes D t p)"
    and "i < payload_blocks (bd_block_size D) p \<Longrightarrow> (t + of_nat (Suc i), payload_block (bd_block_size D) p i) \<in> set (payload_writes D t p)"
proof -
  note n = payload_count [OF assms(2,3)]
  have e: "t + 1 + of_nat i = t + of_nat (Suc i)" for i by simp
  have w: "payload_writes D t p = map (\<lambda>i. (t + of_nat (Suc i), payload_block (bd_block_size D) p i)) [0..<payload_blocks (bd_block_size D) p]"
    unfolding payload_writes_def e ..
  have f: "fst ` set (payload_writes D t p) = (\<lambda>i. t + of_nat (Suc i)) ` {0..<payload_blocks (bd_block_size D) p}"
    by (simp add: w image_image del: of_nat_Suc)
  show "\<forall>w \<in> set (payload_writes D t p). lba_ok (fst w) \<and> length (snd w) = bd_block_size D"
    using bank_lba(2) [OF assms(1)] n by (auto simp: w simp del: of_nat_Suc)
  have "inj_on (\<lambda>i. t + of_nat (Suc i)) {0..<payload_blocks (bd_block_size D) p}"
  proof (rule inj_onI)
    fix x y assume xy: "x \<in> {0..<payload_blocks (bd_block_size D) p}" "y \<in> {0..<payload_blocks (bd_block_size D) p}"
      and eq: "t + of_nat (Suc x) = t + of_nat (Suc y)"
    have "Suc x < 32" "Suc y < 32" using xy n by auto
    then show "x = y" using bank_lba_inj [OF assms(1), of "Suc x" "Suc y"] eq by blast
  qed
  then show "distinct (map fst (payload_writes D t p))" by (simp add: w distinct_map o_def del: of_nat_Suc)
  show "t \<notin> fst ` set (payload_writes D t p)"
  proof
    assume "t \<in> fst ` set (payload_writes D t p)"
    then obtain i where "t + of_nat 0 = t + of_nat (Suc i)" "i < payload_blocks (bd_block_size D) p"
      by (auto simp: f simp del: of_nat_Suc)
    then show False using bank_lba_inj [OF assms(1), of 0 "Suc i"] n by simp
  qed
  show "other_bank t + of_nat j \<notin> fst ` set (payload_writes D t p)" if "j < 32"
  proof
    assume "other_bank t + of_nat j \<in> fst ` set (payload_writes D t p)"
    then obtain i where "other_bank t + of_nat j = t + of_nat (Suc i)" "i < payload_blocks (bd_block_size D) p"
      by (auto simp: f simp del: of_nat_Suc)
    then show False using bank_lba_other [OF assms(1) _ that, of "Suc i"] n by simp
  qed
  show "(t + of_nat (Suc i), payload_block (bd_block_size D) p i) \<in> set (payload_writes D t p)"
    if "i < payload_blocks (bd_block_size D) p" using that by (simp add: w del: of_nat_Suc)
qed

lemma store_cases:
  assumes "store D gen m ni lt d = (d', r)"
  obtains (refused) e where "d' = d" "r = Inl e"
    "(\<forall>p. encode m ni lt \<noteq> Inr p) \<or> (\<exists>p. encode m ni lt = Inr p \<and> length p > 31 * bd_block_size D)"
  | (payload) p e where "encode m ni lt = Inr p" "length p \<le> 31 * bd_block_size D" "r = Inl e"
      "write_all D (payload_writes D (store_target (next_generation gen)) p) d = (d', Inl e)"
  | (header) p d1 e where "encode m ni lt = Inr p" "length p \<le> 31 * bd_block_size D" "r = Inl (ZDevice e)"
      "write_all D (payload_writes D (store_target (next_generation gen)) p) d = (d1, Inr ())"
      "bd_write D (store_target (next_generation gen)) (header_block (bd_block_size D) (next_generation gen) p (length m)) d1 = (d', Inl e)"
  | (stored) p d1 where "encode m ni lt = Inr p" "length p \<le> 31 * bd_block_size D" "r = Inr (next_generation gen)"
      "write_all D (payload_writes D (store_target (next_generation gen)) p) d = (d1, Inr ())"
      "bd_write D (store_target (next_generation gen)) (header_block (bd_block_size D) (next_generation gen) p (length m)) d1 = (d', Inr ())"
proof (cases "encode m ni lt")
  case (Inl e)
  then show ?thesis using assms refused by (auto simp: store_def Let_def)
next
  case (Inr p)
  show ?thesis
  proof (cases "length p \<le> 31 * bd_block_size D")
    case False
    then show ?thesis using assms Inr refused by (auto simp: store_def Let_def BANK_BLOCKS_def)
  next
    case True
    define t where "t = store_target (next_generation gen)"
    obtain d1 r1 where w: "write_all D (payload_writes D t p) d = (d1, r1)" by fastforce
    obtain d2 r2 where h: "bd_write D t (header_block (bd_block_size D) (next_generation gen) p (length m)) d1 = (d2, r2)" by fastforce
    have s: "store D gen m ni lt d = (case r1 of Inl e \<Rightarrow> (d1, Inl e) | Inr _ \<Rightarrow>
        (case r2 of Inl e \<Rightarrow> (d2, Inl (ZDevice e)) | Inr _ \<Rightarrow> (d2, Inr (next_generation gen))))"
      using Inr True w h by (simp add: store_def Let_def BANK_BLOCKS_def payload_writes_def t_def)
    show ?thesis
    proof (cases r1)
      case (Inl e)
      then show ?thesis using payload [OF Inr True] s assms w by (auto simp: t_def)
    next
      case r1: (Inr u)
      show ?thesis
        using header [OF Inr True] stored [OF Inr True] s assms w h r1 by (cases r2) (auto simp: t_def)
    qed
  qed
qed

context block_device
begin

text \<open>The other bank keeps its blocks, and both banks stay readable.\<close>

lemma store_frame:
  assumes "store D gen m ni lt d = (d', r)" and "size_ok D" and "bank_readable D BANK_A d" "bank_readable D BANK_B d"
  shows "bank_readable D BANK_A d'" "bank_readable D BANK_B d'"
    and "j < 32 \<Longrightarrow> bd_read D (other_bank (store_target (next_generation gen)) + of_nat j) (bd_block_size D) d'
      = bd_read D (other_bank (store_target (next_generation gen)) + of_nat j) (bd_block_size D) d"
proof -
  define t where "t = store_target (next_generation gen)"
  let ?bs = "bd_block_size D"
  have t: "is_bank t" by (simp add: t_def store_target_def is_bank_def)
  have bs: "0 < ?bs" "28 \<le> ?bs" using assms(2) by (auto simp: size_ok_def)
  have tok: "lba_ok t" using bank_lba(2) [OF t, of 0] by simp
  have A: "is_bank BANK_A" and B: "is_bank BANK_B" by (simp_all add: is_bank_def)
  have step: "(\<forall>u j. is_bank u \<longrightarrow> j < 32 \<longrightarrow> (\<exists>x. bd_read D (u + of_nat j) ?bs d = Inr x) \<longrightarrow> (\<exists>x. bd_read D (u + of_nat j) ?bs d1 = Inr x)) \<and>
      (\<forall>j x. j < 32 \<longrightarrow> bd_read D (other_bank t + of_nat j) ?bs d = Inr x \<longrightarrow> bd_read D (other_bank t + of_nat j) ?bs d1 = Inr x)"
    if "write_all D (payload_writes D t p) d = (d1, r1)" "length p \<le> 31 * ?bs" for d1 r1 p
  proof -
    note L = payload_writes_lba [OF t bs(1) that(2)]
    show ?thesis
      using write_all_readable [OF that(1) L(1)] write_all_frame [OF that(1), of "other_bank t + of_nat _" ?bs] L(1,4)
        bank_lba(2) is_bank_other by blast
  qed
  have head: "(\<forall>u j. is_bank u \<longrightarrow> j < 32 \<longrightarrow> (\<exists>x. bd_read D (u + of_nat j) ?bs d1 = Inr x) \<longrightarrow> (\<exists>x. bd_read D (u + of_nat j) ?bs d2 = Inr x)) \<and>
      (\<forall>j x. j < 32 \<longrightarrow> bd_read D (other_bank t + of_nat j) ?bs d1 = Inr x \<longrightarrow> bd_read D (other_bank t + of_nat j) ?bs d2 = Inr x)"
    if w: "bd_write D t (header_block ?bs g p n) d1 = (d2, r2)" for d1 d2 r2 g p n
  proof -
    have ne: "t \<noteq> other_bank t + of_nat j" if "j < 32" for j using bank_lba_other [OF t _ that, of 0] by simp
    have fr: "bd_read D (other_bank t + of_nat j) ?bs d2 = Inr x" if "j < 32" "bd_read D (other_bank t + of_nat j) ?bs d1 = Inr x" for j x
      using write_other [OF tok bank_lba(2) [OF is_bank_other that(1)] ne [OF that(1)] that(2), of "header_block ?bs g p n"] w
      by simp
    show ?thesis
      using write_readable [OF w tok, unfolded length_header_block [OF bs(2)]] bank_lba(2) fr by blast
  qed
  have all: "(\<forall>u j. is_bank u \<longrightarrow> j < 32 \<longrightarrow> (\<exists>x. bd_read D (u + of_nat j) ?bs d = Inr x) \<longrightarrow> (\<exists>x. bd_read D (u + of_nat j) ?bs d' = Inr x)) \<and>
      (\<forall>j x. j < 32 \<longrightarrow> bd_read D (other_bank t + of_nat j) ?bs d = Inr x \<longrightarrow> bd_read D (other_bank t + of_nat j) ?bs d' = Inr x)"
    using assms(1)
  proof (cases rule: store_cases)
    case (payload p e)
    then show ?thesis using step unfolding t_def by blast
  next
    case (header p d1 e)
    then show ?thesis using step [of p d1] head [of _ p _ d1 d'] unfolding t_def by blast
  next
    case (stored p d1)
    then show ?thesis using step [of p d1] head [of _ p _ d1 d'] unfolding t_def by blast
  qed auto
  note keep = all [THEN conjunct1, rule_format] and same = all [THEN conjunct2, rule_format]
  show "bank_readable D BANK_A d'"
    unfolding bank_readable_def by (intro allI impI, rule keep [OF A]) (use assms(3) in \<open>simp_all add: bank_readable_def\<close>)
  show "bank_readable D BANK_B d'"
    unfolding bank_readable_def by (intro allI impI, rule keep [OF B]) (use assms(4) in \<open>simp_all add: bank_readable_def\<close>)
  show "bd_read D (other_bank (store_target (next_generation gen)) + of_nat j) ?bs d'
      = bd_read D (other_bank (store_target (next_generation gen)) + of_nat j) ?bs d" if j: "j < 32"
  proof -
    have "other_bank t = BANK_A \<or> other_bank t = BANK_B" by (simp add: other_bank_def)
    then obtain x where x: "bd_read D (other_bank t + of_nat j) ?bs d = Inr x"
      using assms(3,4) j unfolding bank_readable_def by auto
    then show ?thesis using same [OF j x] unfolding t_def by simp
  qed
qed

text \<open>A bank whose payload and header were written answers the payload.\<close>

lemma stored_payload:
  assumes "is_bank t" "size_ok D" "length p \<le> 31 * bd_block_size D"
    and "write_all D (payload_writes D t p) d = (d1, Inr ())"
    and "bd_write D t (header_block (bd_block_size D) g p n) d1 = (d', r)"
    and "bank_header D t d' = Inr (Some (g, length p, crc32 p))"
  shows "bank_payload D t d' = Inr (Some (g, p, crc32 p))"
proof -
  let ?bs = "bd_block_size D"
  have bs: "0 < ?bs" using assms(2) by (simp add: size_ok_def)
  note L = payload_writes_lba [OF assms(1) bs assms(3)]
  have tok: "lba_ok t" using bank_lba(2) [OF assms(1), of 0] by simp
  have "bd_read D (t + of_nat (Suc i)) ?bs d' = Inr (payload_block ?bs p i)" if "i < payload_blocks ?bs p" for i
  proof -
    have i: "Suc i < 32" using payload_count [OF bs assms(3)] that by simp
    have "bd_read D (t + of_nat (Suc i)) ?bs d1 = Inr (payload_block ?bs p i)"
      using write_all_ok [OF assms(4) L(1,2) L(5) [OF that]] by simp
    moreover have "t \<noteq> t + of_nat (Suc i)" using bank_lba_inj [OF assms(1), of 0 "Suc i"] i by simp
    ultimately show ?thesis using write_other [OF tok bank_lba(2) [OF assms(1) i]] assms(5) by (metis fst_conv)
  qed
  from read_payload_blocks [OF bs assms(3) this, of 0]
  have "read_payload D t (length p) [1..<BANK_BLOCKS] 0 d' = Inr p" by (simp add: BANK_BLOCKS_def)
  then show ?thesis using assms(6) by (simp add: bank_payload_def)
qed

end

end
