(* ===== verification/Zfs_Crash.thy ===== *)
theory Zfs_Crash
  imports Zfs_Banks
begin

text \<open>
  Crash safety of the metadata banks of \<open>libs/zfs-core/src/metadata.rs\<close>: \<open>store\<close> writes the payload and
  then the header of the bank that is not current, so whatever write the device stops at, the loader
  still finds the old directory or the new one. A directory that the decoder refuses defeats the scheme.
\<close>

section \<open>The current bank\<close>

text \<open>
  Every block of both banks can be read. The bank of generation \<open>gen\<close> answers \<open>mo\<close>, which is \<open>None\<close> on a
  volume without metadata; the other bank is older or void.
\<close>

definition banks_at :: "'d bdev \<Rightarrow> u64 \<Rightarrow> metadata option \<Rightarrow> 'd \<Rightarrow> bool" where
  "banks_at D gen mo d \<longleftrightarrow> bank_readable D BANK_A d \<and> bank_readable D BANK_B d \<and>
    load_bank D (store_target gen) d = Inr mo \<and> (\<forall>m. mo = Some m \<longrightarrow> md_generation m = gen) \<and>
    (\<exists>x. load_bank D (other_bank (store_target gen)) d = Inr x \<and> (\<forall>y. x = Some y \<longrightarrow> mo \<noteq> None \<and> md_generation y < gen))"

lemma target_A_or_B: "store_target g = BANK_A \<or> store_target g = BANK_B"
  by (simp add: store_target_def)

lemma other_other [simp]: "is_bank t \<Longrightarrow> other_bank (other_bank t) = t"
  by (auto simp: is_bank_def other_bank_def BANK_A_def BANK_B_def)

lemma banks_at_load:
  assumes "banks_at D gen mo d"
  shows "load D d = Inr mo"
proof -
  obtain x where x: "load_bank D (other_bank (store_target gen)) d = Inr x" "\<forall>y. x = Some y \<longrightarrow> mo \<noteq> None \<and> md_generation y < gen"
    using assms by (auto simp: banks_at_def)
  have cur: "load_bank D (store_target gen) d = Inr mo" and g: "\<forall>m. mo = Some m \<longrightarrow> md_generation m = gen"
    using assms by (simp_all add: banks_at_def)
  have n: "newer mo x = mo" "newer x mo = mo"
    using x(2) g by (cases x; cases mo; auto simp: newer_def)+
  show ?thesis
  proof (cases "store_target gen = BANK_A")
    case True
    then show ?thesis using cur x(1) n by (simp add: load_def other_bank_def)
  next
    case False
    then have "store_target gen = BANK_B" using target_A_or_B by blast
    then show ?thesis using cur x(1) n False by (simp add: load_def other_bank_def)
  qed
qed

text \<open>Generations alternate between the banks.\<close>

lemma next_target:
  assumes "gen \<noteq> - 1"
  shows "next_generation gen = gen + 1" "store_target (gen + 1) = other_bank (store_target gen)" "gen < gen + 1"
proof -
  have u: "unat (gen + 1) = unat gen + 1" using assms by (rule unat_succ)
  have "unat gen + unat (1 :: u64) < 2 ^ 64" using u unsigned_less [where 'a = nat, of "gen + 1"] by simp
  then show "next_generation gen = gen + 1"
    using u by (simp add: next_generation_def saturating_add_def max_def word_le_nat_alt unat_eq_zero)
  show "gen < gen + 1" using u by (simp add: word_less_nat_alt)
  have odd: "g AND 1 = 1 \<longleftrightarrow> odd (unat g)" for g :: u64
    using bit_unsigned_iff [where 'a = nat, of g 0] by (simp add: and_one_eq odd_iff_mod_2_eq_one bit_0)
  have "BANK_A \<noteq> BANK_B" by (simp add: BANK_A_def BANK_B_def)
  then show "store_target (gen + 1) = other_bank (store_target gen)"
    unfolding store_target_def other_bank_def odd u by simp
qed

text \<open>The two shapes of the state after a store: the target bank is void or older, or it is the new current one.\<close>

lemma banks_at_keep:
  assumes "banks_at D gen mo d" and "bank_readable D BANK_A d'" "bank_readable D BANK_B d'"
    and "load_bank D (store_target gen) d' = Inr mo"
    and "load_bank D (other_bank (store_target gen)) d' = load_bank D (other_bank (store_target gen)) d \<or>
      load_bank D (other_bank (store_target gen)) d' = Inr None"
  shows "banks_at D gen mo d'"
  using assms unfolding banks_at_def by auto

lemma banks_at_advance:
  assumes "banks_at D gen mo d" "gen \<noteq> - 1" and "bank_readable D BANK_A d'" "bank_readable D BANK_B d'"
    and "load_bank D (store_target gen) d' = Inr mo"
    and "load_bank D (store_target (gen + 1)) d' = Inr (Some m)" "md_generation m = gen + 1"
  shows "banks_at D (gen + 1) (Some m) d'"
proof -
  have "is_bank (store_target gen)" using target_A_or_B [of gen] by (simp add: is_bank_def)
  then have "other_bank (store_target (gen + 1)) = store_target gen" using next_target(2) [OF assms(2)] by simp
  then show ?thesis using assms next_target(3) [OF assms(2)] unfolding banks_at_def by auto
qed

section \<open>Stopping in the middle\<close>

text \<open>The checksum of a stale header fits a payload that is not the one it was written for.\<close>

definition accidental_match :: "'d bdev \<Rightarrow> u64 \<Rightarrow> 'd \<Rightarrow> 'd \<Rightarrow> bool" where
  "accidental_match D t d d' \<longleftrightarrow> (\<exists>g p p' c. bank_payload D t d = Inr (Some (g, p, c)) \<and>
    bank_payload D t d' = Inr (Some (g, p', c)) \<and> p' \<noteq> p \<and> crc32 p' = c)"

lemma readable_header:
  assumes "bank_readable D t d"
  shows "\<exists>b. bd_read D t (bd_block_size D) d = Inr b"
proof -
  have "\<exists>b. bd_read D (t + of_nat 0) (bd_block_size D) d = Inr b"
    using assms unfolding bank_readable_def by (rule allE [of _ 0]) simp
  then show ?thesis by simp
qed

lemma readable_payload:
  assumes "bank_readable D t d" "set is \<subseteq> {..<32}"
  shows "\<exists>p. read_payload D t len is off d = Inr p"
  using assms(2)
proof (induction "is" arbitrary: off)
  case (Cons i "is")
  let ?n = "min (bd_block_size D) (len - off)"
  obtain b where b: "bd_read D (t + of_nat i) (bd_block_size D) d = Inr b"
    using assms(1) Cons.prems unfolding bank_readable_def by auto
  obtain p where p: "read_payload D t len is (off + ?n) d = Inr p" using Cons.IH [of "off + ?n"] Cons.prems by auto
  show ?case using b p by (cases "len \<le> off") (simp_all add: Let_def)
qed simp

text \<open>With its header as it was, a bank answers what it did, or nothing, or the checksum fits by accident.\<close>

lemma stale_header:
  assumes "bank_readable D t d" "bank_readable D t d'"
    and h: "bank_header D t d' = bank_header D t d"
  shows "load_bank D t d' = load_bank D t d \<or> load_bank D t d' = Inr None \<or> accidental_match D t d d'"
proof -
  obtain b where b: "bd_read D t (bd_block_size D) d = Inr b" using readable_header [OF assms(1)] by blast
  have "\<exists>x. bank_header D t d = Inr x" unfolding bank_header_def b by (simp add: Let_def)
  then obtain q where q: "bank_header D t d = Inr q" ..
  show ?thesis
  proof (cases q)
    case None
    then show ?thesis using q h by (simp add: load_bank_def bank_payload_def)
  next
    case (Some x)
    obtain g len c where x: "x = (g, len, c)" by (cases x)
    have r: "set [1..<BANK_BLOCKS] \<subseteq> {..<32}" by (auto simp: BANK_BLOCKS_def)
    obtain p p' where p: "read_payload D t len [1..<BANK_BLOCKS] 0 d = Inr p" "read_payload D t len [1..<BANK_BLOCKS] 0 d' = Inr p'"
      using readable_payload [OF assms(1) r] readable_payload [OF assms(2) r] by blast
    have b: "bank_payload D t d = Inr (Some (g, p, c))" "bank_payload D t d' = Inr (Some (g, p', c))"
      using q h Some x p by (simp_all add: bank_payload_def)
    show ?thesis
    proof (cases "p' = p")
      case True
      then show ?thesis using b by (simp add: load_bank_def)
    next
      case False
      then show ?thesis using b unfolding load_bank_def accidental_match_def by (cases "crc32 p' = c") auto
    qed
  qed
qed

context block_device
begin

text \<open>
  The header block decides: whatever the outcome, the current bank is untouched, and the target bank has
  its old header, or the new header over the new payload. After a success it is the latter.
\<close>

lemma store_header:
  assumes st: "store D gen entries ni lt d = (d', r)" and size: "size_ok D"
    and rd: "bank_readable D BANK_A d" "bank_readable D BANK_B d" and t: "t = store_target (next_generation gen)"
  shows "((\<exists>e. r = Inl e) \<and> bank_header D t d' = bank_header D t d) \<or>
    ((\<exists>e. r = Inl e) \<or> r = Inr (next_generation gen)) \<and>
      (\<exists>p. encode entries ni lt = Inr p \<and> bank_payload D t d' = Inr (Some (next_generation gen, p, crc32 p)))"
proof -
  have bank: "is_bank t" using target_A_or_B [of "next_generation gen"] by (simp add: t is_bank_def)
  have bs: "0 < bd_block_size D" "28 \<le> bd_block_size D" using size by (simp_all add: size_ok_def)
  have tok: "lba_ok t" using bank_lba(2) [OF bank, of 0] by simp
  have rt: "bank_readable D t d" using rd bank by (auto simp: is_bank_def)
  obtain b where b: "bd_read D t (bd_block_size D) d = Inr b" using readable_header [OF rt] by blast
  have keep: "bd_read D t (bd_block_size D) d1 = Inr b"
    if w: "write_all D (payload_writes D t p) d = (d1, r1)" and l: "length p \<le> 31 * bd_block_size D" for p d1 r1
    by (rule write_all_frame [OF w _ tok payload_writes_lba(3) [OF bank bs(1) l] b])
      (use payload_writes_lba(1) [OF bank bs(1) l] in auto)
  from st show ?thesis
  proof (cases rule: store_cases)
    case (refused e)
    then show ?thesis by simp
  next
    case (payload p e)
    have "bd_read D t (bd_block_size D) d' = Inr b" using keep [of p d'] payload unfolding t by simp
    from header_same [OF b this] payload show ?thesis by simp
  next
    case (header p d1 e)
    let ?h = "header_block (bd_block_size D) (next_generation gen) p (length entries)"
    have b1: "bd_read D t (length ?h) d1 = Inr b"
      using keep [OF header(4) [folded t] header(2)] length_header_block [OF bs(2)] by simp
    obtain x where x: "bd_read D t (bd_block_size D) d' = Inr x"
      and m: "take SECTOR_SIZE x = take SECTOR_SIZE b \<or> take SECTOR_SIZE x = take SECTOR_SIZE ?h"
      using write_torn [OF tok header(5) [folded t] b1] unfolding length_header_block [OF bs(2)] by blast
    from m show ?thesis
    proof
      assume "take SECTOR_SIZE x = take SECTOR_SIZE b"
      from header_same [OF b x this] header show ?thesis by simp
    next
      assume "take SECTOR_SIZE x = take SECTOR_SIZE ?h"
      from stored_payload [OF bank size header(2) header(4) [folded t] header(5) [folded t]
          header_roundtrip [OF size header(2) x this]]
      show ?thesis using header(1,3) by auto
    qed
  next
    case (stored p d1)
    let ?h = "header_block (bd_block_size D) (next_generation gen) p (length entries)"
    have "bd_read D t (length ?h) d' = Inr ?h" by (rule write_same [OF tok stored(5) [folded t]])
    then have "bd_read D t (bd_block_size D) d' = Inr ?h" unfolding length_header_block [OF bs(2)] .
    from stored_payload [OF bank size stored(2) stored(4) [folded t] stored(5) [folded t]
        header_roundtrip [OF size stored(2) this refl]]
    show ?thesis using stored(1,3) by auto
  qed
qed

lemma store_current:
  assumes "store D gen entries ni lt d = (d', r)" "size_ok D" "banks_at D gen mo d" "gen \<noteq> - 1"
  shows "bank_readable D BANK_A d'" "bank_readable D BANK_B d'" "load_bank D (store_target gen) d' = Inr mo"
proof -
  have rd: "bank_readable D BANK_A d" "bank_readable D BANK_B d" using assms(3) by (simp_all add: banks_at_def)
  have bank: "is_bank (store_target gen)" using target_A_or_B [of gen] by (simp add: is_bank_def)
  have "other_bank (store_target (next_generation gen)) = store_target gen"
    using next_target(1,2) [OF assms(4)] bank by simp
  note F = store_frame [OF assms(1,2) rd, unfolded this]
  show "bank_readable D BANK_A d'" "bank_readable D BANK_B d'" by (fact F(1), fact F(2))
  have "bank_payload D (store_target gen) d' = bank_payload D (store_target gen) d" by (rule bank_payload_cong) (rule F(3))
  then show "load_bank D (store_target gen) d' = Inr mo" using assms(3) by (simp add: load_bank_def banks_at_def)
qed

end

section \<open>A device in memory that stops\<close>

text \<open>A blank medium of 65 blocks, and a store on it with power for \<open>k\<close> writes.\<close>

definition blank :: bytes where "blank = replicate (65 * 4096) 0"

lemma blank_read:
  assumes "is_bank t" "i < 32"
  shows "bd_read (stopping memory_device) (t + of_nat i) 4096 (blank, k) = Inr (replicate 4096 0)"
proof -
  have "unat t \<le> 33" using assms(1) by (auto simp: is_bank_def BANK_A_def BANK_B_def)
  then have "mem_offset (t + of_nat i) \<le> 64 * 4096"
    using bank_lba [OF assms] assms(2) by (simp add: mem_offset_ok)
  then show ?thesis by (simp add: stopping_def memory_device_def mem_read_block_def MEM_BLOCK_SIZE_def blank_def min_def)
qed

lemma stopping_size [simp]: "bd_block_size (stopping memory_device) = 4096"
  by (simp add: stopping_def memory_device_def MEM_BLOCK_SIZE_def)

lemma blank_void:
  assumes "is_bank t"
  shows "bank_payload (stopping memory_device) t (blank, k) = Inr None"
proof -
  have "hd (replicate 8 (0 :: u8)) \<noteq> hd MD_MAGIC" by (simp add: MD_MAGIC_def)
  then have "replicate 8 0 \<noteq> MD_MAGIC" by metis
  then show ?thesis using blank_read [OF assms, of 0 k] by (simp add: bank_payload_def bank_header_def)
qed

lemma blank_banks: "banks_at (stopping memory_device) 0 None (blank, k)"
proof -
  have A: "is_bank BANK_A" and B: "is_bank BANK_B" by (simp_all add: is_bank_def)
  have "load_bank (stopping memory_device) t (blank, k) = Inr None" if "is_bank t" for t
    using blank_void [OF that] by (simp add: load_bank_def)
  moreover have "bank_readable (stopping memory_device) t (blank, k)" if "is_bank t" for t
    using blank_read [OF that] by (simp add: bank_readable_def)
  moreover have "is_bank (store_target 0)" using target_A_or_B [of 0] by (simp add: is_bank_def)
  ultimately show ?thesis using A B by (simp add: banks_at_def)
qed

lemma stopping_write:
  assumes "length buf = 4096" "lba_ok l"
  shows "\<exists>st'. \<forall>k. bd_write (stopping memory_device) l buf (st, Suc k) = ((st', k), Inr ())"
  using assms mem_capacity(1) [of l 4096 st]
  by (simp add: stopping_def memory_device_def mem_write_block_def MEM_BLOCK_SIZE_def Let_def)

lemma blank_store:
  assumes "encode m ni lt = Inr p" "0 < length p" "length p \<le> 4096"
  shows "\<exists>d'. store (stopping memory_device) 0 m ni lt (blank, 2) = (d', Inr 1)"
    and "\<exists>d' e. store (stopping memory_device) 0 m ni lt (blank, 1) = (d', Inl e)"
proof -
  have g: "next_generation 0 = 1" "store_target 1 = BANK_A"
    using next_target(1) [of 0] by (simp_all add: store_target_def)
  have "length p + 4096 - 1 = 4096 + (length p - 1)" "(length p - 1) div 4096 = 0" using assms(2,3) by simp_all
  then have n: "payload_blocks 4096 p = 1" unfolding payload_blocks_def by simp
  have l: "lba_ok BANK_A" "lba_ok (BANK_A + 1)" by (simp_all add: lba_ok_def BANK_A_def)
  have b: "length (payload_block 4096 p 0) = 4096" "length (header_block 4096 1 p (length m)) = 4096"
    by (simp_all add: length_header_block)
  obtain s1 where s1: "bd_write (stopping memory_device) (BANK_A + 1) (payload_block 4096 p 0) (blank, Suc k) = ((s1, k), Inr ())" for k
    using stopping_write [OF b(1) l(2), of blank] by blast
  obtain s2 where s2: "bd_write (stopping memory_device) BANK_A (header_block 4096 1 p (length m)) (s1, Suc 0) = ((s2, 0), Inr ())"
    using stopping_write [OF b(2) l(1), of s1] by blast
  have z: "bd_write (stopping memory_device) BANK_A h (s1, 0) = ((s1, 0), Inl DevIo)" for h by (simp add: stopping_def)
  show "\<exists>d'. store (stopping memory_device) 0 m ni lt (blank, 2) = (d', Inr 1)"
    using assms(1,3) s1 [of "Suc 0"] s2 by (simp add: store_def g n BANK_BLOCKS_def numeral_2_eq_2)
  show "\<exists>d' e. store (stopping memory_device) 0 m ni lt (blank, 1) = (d', Inl e)"
    using assms(1,3) s1 [of 0] z by (simp add: store_def g n BANK_BLOCKS_def)
qed

lemma stopping_size_ok: "size_ok (stopping memory_device)"
  by (simp add: size_ok_def)

lemma blank_no_match: "is_bank t \<Longrightarrow> \<not> accidental_match (stopping memory_device) t (blank, k) d'"
  using blank_void by (simp add: accidental_match_def)

lemma demo_store:
  assumes "length p \<le> 100"
  shows "\<exists>d'. store (stopping memory_device) 0 [(p, demo_file 100)] 8 11 (blank, 2) = (d', Inr 1)"
    and "\<exists>d' e. store (stopping memory_device) 0 [(p, demo_file 100)] 8 11 (blank, 1) = (d', Inl e)"
proof -
  have "\<exists>out. encode [(p, demo_file 100)] 8 11 = Inr out \<and> 0 < length out \<and> length out \<le> 4096"
    using assms by (simp add: encode_def encode_entry_def entry_fields_def demo_file_def)
  then obtain out where "encode [(p, demo_file 100)] 8 11 = Inr out" "0 < length out" "length out \<le> 4096" by blast
  from blank_store [OF this]
  show "\<exists>d'. store (stopping memory_device) 0 [(p, demo_file 100)] 8 11 (blank, 2) = (d', Inr 1)"
    "\<exists>d' e. store (stopping memory_device) 0 [(p, demo_file 100)] 8 11 (blank, 1) = (d', Inl e)" .
qed

lemma demo_ok: "\<forall>(p, e) \<in> set [([SLASH, 0x61], demo_file 100)]. path_ok p \<and> entry_ok e"
  by (simp add: path_ok_def entry_ok_def demo_file_def inline_blocks_def SLASH_def DOT_def)

section \<open>Properties\<close>

text \<open>
  C13: The metadata survives a stop at any write, for a directory whose paths the decoder accepts: rooted,
  well-formed, without two dots in a row. On a device that writes sectors of 512 bytes whole but may tear
  a block, the volume being at generation \<open>gen\<close> (not the last number), a store either succeeds, and the next
  generation with the stored directory is current, or fails, and the volume is at the old generation with
  the old directory, or at the next one with the new directory (the header write was reported as failed
  but its first sector reached the medium). In each case that is what \<open>load\<close> finds. The one exception is a stop
  between payload and header at which the checksum in the old header of the target bank fits the partly
  overwritten payload.
\<close>
theorem store_crash_safe:
  assumes dev: "block_device D" "size_ok D" and cur: "banks_at D gen mo d" "gen \<noteq> - 1"
    and ok: "\<forall>(p, e) \<in> set entries. path_ok p \<and> entry_ok e" "bt_sorted entries" "length entries < 2 ^ 32"
    and st: "store D gen entries ni lt d = (d', r)"
    and new: "new = \<lparr>md_generation = gen + 1, md_entries = entries, md_next_inode = max ni 2, md_logical_time = max lt 1\<rparr>"
  shows "case r of
      Inr g \<Rightarrow> g = gen + 1 \<and> banks_at D g (Some new) d' \<and> load D d' = Inr (Some new)
    | Inl _ \<Rightarrow> banks_at D gen mo d' \<and> load D d' = Inr mo \<or>
        banks_at D (gen + 1) (Some new) d' \<and> load D d' = Inr (Some new) \<or>
        accidental_match D (store_target (gen + 1)) d d'"
proof -
  define t where "t = store_target (gen + 1)"
  note nt = next_target [OF cur(2)]
  have rd: "bank_readable D BANK_A d" "bank_readable D BANK_B d" using cur(1) by (simp_all add: banks_at_def)
  note S = block_device.store_current [OF dev(1) st dev(2) cur]
  have bank: "t = BANK_A \<or> t = BANK_B" using target_A_or_B by (simp add: t_def)
  have fresh: "banks_at D (gen + 1) (Some new) d' \<and> load D d' = Inr (Some new)"
    if "encode entries ni lt = Inr p" "bank_payload D t d' = Inr (Some (gen + 1, p, crc32 p))" for p
  proof -
    have "load_bank D t d' = Inr (Some new)" using that(2) decode_encode [OF that(1) ok] by (simp add: load_bank_def new)
    then have B: "banks_at D (gen + 1) (Some new) d'"
      by (intro banks_at_advance [OF cur S]) (simp_all add: t_def new)
    show ?thesis using B banks_at_load [OF B] by simp
  qed
  have stale: "banks_at D gen mo d' \<and> load D d' = Inr mo \<or> accidental_match D t d d'"
    if "bank_header D t d' = bank_header D t d"
  proof -
    have "load_bank D t d' = load_bank D t d \<or> load_bank D t d' = Inr None \<or> accidental_match D t d d'"
      by (rule stale_header [OF _ _ that]) (use bank rd S in auto)
    then show ?thesis using banks_at_keep [OF cur(1) S] banks_at_load nt(2) unfolding t_def by metis
  qed
  show ?thesis
    using block_device.store_header [OF dev(1) st dev(2) rd, of t] fresh stale
    unfolding nt(1) t_def by (cases r) auto
qed

theorem store_crash_safe_witness:
  "\<exists>d1 d2 e new. md_entries new = [([SLASH, 0x61], demo_file 100)] \<and>
    store (stopping memory_device) 0 [([SLASH, 0x61], demo_file 100)] 8 11 (blank, 2) = (d1, Inr 1) \<and>
    banks_at (stopping memory_device) 1 (Some new) d1 \<and> load (stopping memory_device) d1 = Inr (Some new) \<and>
    store (stopping memory_device) 0 [([SLASH, 0x61], demo_file 100)] 8 11 (blank, 1) = (d2, Inl e) \<and>
    load (stopping memory_device) d2 \<in> {Inr None, Inr (Some new)}"
proof -
  let ?m = "[([SLASH, 0x61], demo_file 100)]"
  define new where "new = \<lparr>md_generation = 0 + 1, md_entries = ?m, md_next_inode = max 8 2, md_logical_time = max 11 1\<rparr>"
  obtain d1 where d1: "store (stopping memory_device) 0 ?m 8 11 (blank, 2) = (d1, Inr 1)"
    using demo_store(1) [of "[SLASH, 0x61]"] by auto
  obtain d2 e where d2: "store (stopping memory_device) 0 ?m 8 11 (blank, 1) = (d2, Inl e)"
    using demo_store(2) [of "[SLASH, 0x61]"] by auto
  note safe = store_crash_safe [OF mem_stop.block_device_axioms stopping_size_ok blank_banks _ demo_ok _ _ _ new_def]
  have "banks_at (stopping memory_device) 1 (Some new) d1 \<and> load (stopping memory_device) d1 = Inr (Some new)"
    using safe [OF _ _ _ d1] by simp
  moreover have "load (stopping memory_device) d2 \<in> {Inr None, Inr (Some new)}"
    using safe [OF _ _ _ d2] blank_no_match [of "store_target 1" 1 d2] target_A_or_B [of 1] by (auto simp: is_bank_def)
  moreover have "md_entries new = ?m" by (simp add: new_def)
  ultimately show ?thesis using d1 d2 by blast
qed

text \<open>
  C34: A name with two dots in a row makes the volume unreadable. The encoder writes such a name, so a
  store of a directory that has one succeeds like any other, but the decoder refuses it and \<open>load\<close> hands
  the error on, although the other bank still answers the directory of the generation before.
\<close>
theorem dotdot_unmountable:
  assumes dev: "block_device D" "size_ok D" and cur: "banks_at D gen mo d" "gen \<noteq> - 1"
    and m1: "\<forall>(p, e) \<in> set m1. path_ok p \<and> entry_ok e" "bt_sorted m1" and p: "utf8_valid p" "has_dotdot p"
    and len: "length (m1 @ (p, e) # m2) < 2 ^ 32"
    and st: "store D gen (m1 @ (p, e) # m2) ni lt d = (d', Inr g)"
  shows "load D d' = Inl PathInvalid \<and> load_bank D (store_target gen) d' = Inr mo"
proof -
  have rd: "bank_readable D BANK_A d" "bank_readable D BANK_B d" using cur(1) by (simp_all add: banks_at_def)
  note nt = next_target [OF cur(2)] and S = block_device.store_current [OF dev(1) st dev(2) cur]
  obtain out where out: "encode (m1 @ (p, e) # m2) ni lt = Inr out"
    "bank_payload D (store_target (gen + 1)) d' = Inr (Some (gen + 1, out, crc32 out))"
    using block_device.store_header [OF dev(1) st dev(2) rd refl] unfolding nt(1) by blast
  then have bad: "load_bank D (store_target (gen + 1)) d' = Inl PathInvalid"
    using decode_dotdot [OF out(1) m1(1) p m1(2) len] by (simp add: load_bank_def)
  have "store_target gen = BANK_A \<and> store_target (gen + 1) = BANK_B \<or> store_target gen = BANK_B \<and> store_target (gen + 1) = BANK_A"
    using target_A_or_B [of gen] nt(2) by (auto simp: other_bank_def BANK_A_def BANK_B_def)
  then show ?thesis using bad S(3) by (auto simp: load_def)
qed

theorem dotdot_unmountable_witness:
  "\<exists>d'. store (stopping memory_device) 0 [([SLASH, DOT, DOT], demo_file 100)] 8 11 (blank, 2) = (d', Inr 1) \<and>
    load (stopping memory_device) d' = Inl PathInvalid"
proof -
  obtain d' where d': "store (stopping memory_device) 0 [([SLASH, DOT, DOT], demo_file 100)] 8 11 (blank, 2) = (d', Inr 1)"
    using demo_store(1) [of "[SLASH, DOT, DOT]"] by auto
  have "load (stopping memory_device) d' = Inl PathInvalid"
    using dotdot_unmountable [OF mem_stop.block_device_axioms stopping_size_ok blank_banks, where ?m1.0 = "[]" and ?m2.0 = "[]"
        and p = "[SLASH, DOT, DOT]" and e = "demo_file 100" and ni = 8 and lt = 11 and d' = d' and g = 1] d'
    by (simp add: SLASH_def DOT_def)
  then show ?thesis using d' by blast
qed

end
