(* ===== verification/Spec2Isabelle.thy ===== *)
theory Spec2Isabelle
  imports Phys_Init Ipc Smp Reap_Effects Sleep_Queue Zfs_Alloc Zfs_Crash
begin

text \<open>
  Zero OS: a verification development of its microkernel and of the storage layer of its file system.

  \<^bold>\<open>The program.\<close> Zero OS is a microkernel for AArch64 (\<open>microkernel/\<close>) with user-space servers
  (\<open>servers/\<close>), libraries and a shell (\<open>userland/\<close>), a boot loader and build tools. The kernel hands out
  physical pages (\<open>mm/phys_bitmap.rs\<close>, \<open>mm/phys.rs\<close>), keeps processes in a table of slots with an owner
  word per slot (\<open>process.rs\<close>), multiplexes them on several cores with a multi-level feedback queue
  (\<open>scheduler.rs\<close>), passes messages over channels (\<open>ipc.rs\<close>) and issues time-limited capability grants
  (\<open>security.rs\<close>). System calls meet user code in the contracts of \<open>libs/abi\<close>. The file system
  \<open>libs/zfs-core\<close> runs in a server, over a block device, with a bitmap allocator and two metadata banks.

  \<^bold>\<open>Conventions.\<close> \<open>usize\<close> values are natural numbers, fixed-width integers are words. An assertion, a
  checked index or an \<open>expect\<close> that fires is the outcome \<open>Panic\<close> of \<open>Zero_Prelude\<close>; a Rust \<open>Result\<close> is a sum with
  the error on the left. The build is a release build: \<open>debug_assert\<close> is absent and plain arithmetic on words
  wraps. State is passed explicitly. Where the code takes a lock, the critical section is
  one definition, and the interleaving of critical sections is explicit in \<open>Smp_Model\<close> and \<open>Sleep_Queue\<close>. All definitions that
  model code are total; loops are structural recursions or folds over the range that the code iterates.
  There is no fuel: the loop of \<open>full_reap\<close> over its explicit stack terminates because every round takes a
  record out of the table or an entry off the stack.

  \<^bold>\<open>Theories.\<close>

  \<^item> \<open>Zero_Prelude\<close>: integer types, outcomes, the slice and integer operations of the Rust library, bitmaps
    as lists of words with a count of clear bits. \<open>Byte_Codec\<close>: little-endian bytes. \<open>Ring_Buffer\<close>: arrays used as
    rings, and the locale of a bounded queue from which consumers take selectively; it is
    interpreted on the message queue and on a level of the run queue. \<open>Frame_Interface\<close>: the locale of a page
    allocator with reference counts, interpreted on the bitmap allocator.

  \<^item> \<open>Phys_Bitmap\<close> (\<open>phys_bitmap.rs\<close>) and \<open>Phys_Init\<close> (\<open>phys.rs\<close>, the reservation of \<open>debug/pstore.rs\<close>): an allocation
    returns a page that nobody holds and fails only when none is left, a contiguous run is found exactly when one
    exists, no client that keeps the discipline of references makes the allocator panic or receives a page that
    is held, and after boot a page is allocatable, that is below the total and not busy, exactly when it is not page 0,
    fits the bitmap, lies in usable memory below the top the boot path computes, and meets neither the kernel image
    nor the crash-log window.

  \<^item> \<open>Ipc\<close> (\<open>ipc.rs\<close>): messages with one address arrive in the order of sending and none is lost or duplicated;
    every branch of \<open>ct_send\<close>; no message waits for a receiver that is registered and was not woken.

  \<^item> \<open>Grants\<close> (\<open>security.rs\<close>): the invariant of the grant book over every history, login tokens are
    single-use, the issuer capability is never delegated, and the effects of \<open>issue\<close> and \<open>revoke\<close>.

  \<^item> \<open>Abi\<close> (\<open>libs/abi\<close>, the result encoding in \<open>trap.rs\<close>, the decoders in \<open>userlib\<close>): round trips of system-call
    results, wait results, the capability text protocol and the header of the user data base.

  \<^item> \<open>Process_Table\<close>, \<open>Process_Exit\<close> (\<open>process.rs\<close>, the wrappers of \<open>security.rs\<close>), \<open>Shm_Table\<close> (\<open>shm.rs\<close>), \<open>Run_Queue\<close>,
    \<open>Scheduler\<close>, \<open>Timekeeping\<close> (\<open>scheduler.rs\<close>, \<open>time.rs\<close>): records, slots and identifiers, creation, the scheduling
    transitions, exit, waiting, reaping, futexes, dispatch, yield, block, wake, sleep and tick. Shown there:
    the sequence of process identifiers, the effect of \<open>fork\<close>, and that the run queue refines a list per level.

  \<^item> \<open>Smp_Model\<close>: the cores with a program counter each, whose steps are the critical sections of
    the definitions above. \<open>Smp_Invariant\<close>, \<open>Smp_Steps\<close>, \<open>Smp_Events\<close>, \<open>Smp_Reach\<close>: an invariant over an abstract view of the
    state, that every step keeps it, and the relation of kernel and view. \<open>Smp\<close>: no event panics, one core
    per process, a runnable process is queued exactly once, no wake-up is lost, and a core that picks
    runs the process the queue pops. These hold for runs that meet two conditions. No process is created while a core
    is inside \<open>full_reap\<close>; \<open>Reap_Effects\<close> shows that without this they fail, what \<open>full_reap\<close> removes, and
    that the immediate-reap branch of exit drops an address space without destroying it. And a wake that comes from a channel, a futex
    or the clock names a process that has registered to block and is not waiting for a child
    (\<open>wake_allowed\<close>), as the registers of those components do; the tables of channels, futexes and sleepers
    are not part of this state. A creation (\<open>spawn\<close>, \<open>fork\<close>, \<open>create_thread\<close>) and a round of \<open>full_reap\<close> take the table lock
    more than once and are one event each. The timer tick, the registration of sleepers and the direct
    \<open>exit_current\<close> of \<open>scheduler.rs\<close> are not events.

  \<^item> \<open>Scheduler_Ticks\<close>: the number of ticks after which a running process is asked to yield. \<open>Sleep_Queue\<close> (and the
    sleeping calls of \<open>syscalls.rs\<close>): the sections of ticks and registrations of several cores interleave; the sleep queue stays
    sorted, nobody leaves it early, and the first tick section that has reached an entry takes it out.

  \<^item> \<open>Zfs_Base\<close> (\<open>error.rs\<close>, \<open>device.rs\<close>, \<open>crc.rs\<close>, paths of \<open>directory.rs\<close>): the block-device trait as a record of operations
    with its contract as a locale: a failed write leaves other blocks alone and may tear its own block, but
    writes the first sector of 512 bytes whole or not at all. It is interpreted on the in-memory device, on that device with power for
    a bounded number of writes, and on one that tears the block it fails on; CRC-32 and that it detects a change of one byte. \<open>Zfs_Alloc\<close> (\<open>allocator.rs\<close>): the
    allocator is a pool of blocks. \<open>Zfs_Metadata\<close> (\<open>metadata.rs\<close>, \<open>directory.rs\<close>, \<open>on_disk.rs\<close>): encoder and decoder of the directory are
    inverse on well-formed directories, and the definitions of the two-bank store and load. \<open>Zfs_Banks\<close>, \<open>Zfs_Crash\<close>: on a
    device that keeps the contract a store of a directory whose paths the decoder accepts, stopped at any write, leaves the old or the new directory to be
    loaded, and a name with two dots in a row makes the volume unreadable.

  \<^bold>\<open>Parameters and bounds.\<close> The clock, the counter and core identifier that feed the random numbers, addresses fixed by
  the linker and words read from user memory are arguments. Array capacities are those of the code. Block numbers in the device contract are
  below \<open>2 ^ 52\<close>, so that byte addresses of blocks of 4096 bytes do not wrap.

  \<^bold>\<open>Not modelled.\<close> Page tables and heaps (raw memory), drivers, interrupt and start-up code (device registers and
  assembly), ELF loading, the volume operations above allocator and metadata, the servers (with \<open>BlockServiceDevice\<close>, which
  reaches the disk through the block server),
  applications, boot loader and build tools. Address spaces are identifiers with a log of destroyed
  ones. Weak memory effects are outside: a critical section is atomic, as its lock makes it.
\<close>

end
